(* ===== verification/Bp_Prelude.thy ===== *)
theory Bp_Prelude
  imports Main "HOL-Library.Word" "HOL-Library.Sublist"
begin

text \<open>
  What every component shares: the names of the model's basic types, the big-endian
  readings of Go's \<open>encoding/binary\<close> (\<open>BigEndian.Uint16\<close>, \<open>BigEndian.Uint32\<close> and
  \<open>AppendUint16\<close>) with their round trips, generic facts on lists, and three interfaces
  that several components implement:
  \<^item> \<open>codec\<close>: an encoder with a decoder that undoes it on well-formed values;
  \<^item> \<open>bounded_chan\<close>: a buffered Go channel written by a non-blocking \<open>select\<close>;
  \<^item> \<open>step_system\<close>: a step relation with an invariant.
\<close>

unbundle bit_operations_syntax

named_theorems wire_simps \<open>readings and writings of big-endian integers\<close>
named_theorems go_simps \<open>equations of the Go standard library functions the source calls\<close>

type_synonym byte = "8 word"
type_synonym u16 = "16 word"
type_synonym u32 = "32 word"
type_synonym i64 = "64 word"

section \<open>Big-endian integers\<close>

definition be16 :: "byte \<Rightarrow> byte \<Rightarrow> u16" where
  "be16 b0 b1 = push_bit 8 (ucast b0) OR ucast b1"

definition be32 :: "byte \<Rightarrow> byte \<Rightarrow> byte \<Rightarrow> byte \<Rightarrow> u32" where
  "be32 b0 b1 b2 b3 =
     push_bit 24 (ucast b0) OR push_bit 16 (ucast b1) OR push_bit 8 (ucast b2) OR ucast b3"

definition put_be16 :: "u16 \<Rightarrow> byte list" where
  "put_be16 w = [ucast (drop_bit 8 w), ucast w]"

definition put_be32 :: "u32 \<Rightarrow> byte list" where
  "put_be32 w = [ucast (drop_bit 24 w), ucast (drop_bit 16 w), ucast (drop_bit 8 w), ucast w]"

lemma bit_byte_len: "bit (b :: byte) n \<Longrightarrow> n < 8"
  using bit_imp_le_length [of b n] by simp

lemma be16_put [wire_simps, simp]: "be16 (ucast (drop_bit 8 w)) (ucast w) = w"
  unfolding be16_def by (rule bit_word_eqI) (auto simp: bit_simps)

lemma be16_hi [wire_simps, simp]: "ucast (drop_bit 8 (be16 a b)) = a"
  unfolding be16_def by (rule bit_word_eqI) (auto simp: bit_simps dest: bit_byte_len)

lemma be16_lo [wire_simps, simp]: "ucast (be16 a b) = b"
  unfolding be16_def by (rule bit_word_eqI) (auto simp: bit_simps)

lemma be32_put [wire_simps, simp]:
  "be32 (ucast (drop_bit 24 w)) (ucast (drop_bit 16 w)) (ucast (drop_bit 8 w)) (ucast w) = w"
proof (rule bit_word_eqI)
  fix n
  assume n: "n < LENGTH(32)"
  have "n < 8 \<or> 8 \<le> n \<and> n < 16 \<or> 16 \<le> n \<and> n < 24 \<or> 24 \<le> n"
    by arith
  with n show "bit (be32 (ucast (drop_bit 24 w)) (ucast (drop_bit 16 w))
      (ucast (drop_bit 8 w)) (ucast w)) n = bit w n"
    unfolding be32_def by (elim disjE) (auto simp: bit_simps)
qed

lemma uint_byte: "0 \<le> uint (b :: byte)" "uint (b :: byte) < 256"
  using uint_lt2p [of b] by simp_all

lemma unat_byte: "unat (b :: byte) < 256"
  by (rule order_less_le_trans, rule unsigned_less) simp

text \<open>Two numbers that share no bit add up to their disjunction.\<close>

lemma or_shifted_add:
  fixes hi lo :: int
  assumes "0 \<le> lo" "lo < 2 ^ n"
  shows "push_bit n hi OR lo = hi * 2 ^ n + lo"
proof -
  have "push_bit n hi AND lo = 0"
  proof (rule bit_eqI)
    fix k
    have "take_bit n lo = lo"
      using assms by (simp add: take_bit_int_eq_self)
    then have "bit lo k \<Longrightarrow> k < n"
      by (metis bit_take_bit_iff)
    then show "bit (push_bit n hi AND lo) k = bit 0 k"
      by (auto simp: bit_simps)
  qed
  then have "push_bit n hi OR lo = push_bit n hi + lo"
    by (rule disjunctive_add_eq_or [symmetric])
  then show ?thesis
    by (simp add: push_bit_eq_mult)
qed

lemma uint_push_byte:
  assumes "n + 8 \<le> LENGTH('a::len)"
  shows "uint (push_bit n (ucast (b :: byte)) :: 'a word) = push_bit n (uint b)"
proof -
  have "take_bit LENGTH('a) (uint b) = uint b"
    using assms uint_byte [of b] power_increasing [of 8 "LENGTH('a)" "2 :: int"]
    by (intro take_bit_int_eq_self) simp_all
  moreover have "take_bit LENGTH('a) (push_bit n (uint b)) = push_bit n (uint b)"
  proof (rule take_bit_int_eq_self)
    have "push_bit n (uint b) \<le> 2 ^ n * 255"
      using uint_byte [of b] by (simp add: push_bit_eq_mult mult.commute)
    also have "\<dots> < 2 ^ n * 2 ^ 8" by simp
    also have "\<dots> = 2 ^ (n + 8)" by (simp only: power_add)
    also have "\<dots> \<le> (2 :: int) ^ LENGTH('a)"
      using assms by (intro power_increasing) simp_all
    finally show "push_bit n (uint b) < 2 ^ LENGTH('a)" .
  qed simp
  ultimately show ?thesis
    by (simp add: unsigned_push_bit_eq unsigned_ucast_eq)
qed

lemma uint_ucast_byte:
  assumes "8 \<le> LENGTH('a::len)"
  shows "uint (ucast (b :: byte) :: 'a word) = uint b"
  using uint_push_byte [of 0 b, where 'a = 'a] assms by simp

lemma uint_be16: "uint (be16 a b) = uint a * 256 + uint b"
proof -
  have "uint (be16 a b) = push_bit 8 (uint a) OR uint b"
    by (simp add: be16_def unsigned_or_eq uint_push_byte uint_ucast_byte del: push_bit_numeral)
  also have "\<dots> = uint a * 2 ^ 8 + uint b"
    by (rule or_shifted_add) (simp_all add: uint_byte)
  finally show ?thesis by simp
qed

lemma uint_be32:
  "uint (be32 a b c d) = uint a * 16777216 + uint b * 65536 + uint c * 256 + uint d"
proof -
  have "uint (be32 a b c d) =
      push_bit 24 (uint a) OR (push_bit 16 (uint b) OR (push_bit 8 (uint c) OR uint d))"
    by (simp add: be32_def unsigned_or_eq uint_push_byte uint_ucast_byte or.assoc)
  also have "push_bit 8 (uint c) OR uint d = uint c * 2 ^ 8 + uint d"
    by (rule or_shifted_add) (simp_all add: uint_byte)
  also have "push_bit 16 (uint b) OR (uint c * 2 ^ 8 + uint d) =
      uint b * 2 ^ 16 + (uint c * 2 ^ 8 + uint d)"
    using uint_byte [of c] uint_byte [of d]
    by (intro or_shifted_add; simp)
  also have "push_bit 24 (uint a) OR (uint b * 2 ^ 16 + (uint c * 2 ^ 8 + uint d)) =
      uint a * 2 ^ 24 + (uint b * 2 ^ 16 + (uint c * 2 ^ 8 + uint d))"
    using uint_byte [of b] uint_byte [of c] uint_byte [of d]
    by (intro or_shifted_add; simp)
  finally show ?thesis by simp
qed

lemma length_put_be16 [simp]: "length (put_be16 w) = 2"
  by (simp add: put_be16_def)

lemma length_put_be32 [simp]: "length (put_be32 w) = 4"
  by (simp add: put_be32_def)

section \<open>Results\<close>

text \<open>
  A Go function that returns \<open>(T, error)\<close> is modelled by a value of \<open>'e + 'a\<close>: \<open>Inl e\<close>
  where it returns a non-nil error, \<open>Inr v\<close> where it returns \<open>(v, nil)\<close>.
\<close>

definition ok_of :: "'e + 'a \<Rightarrow> 'a option" where
  "ok_of r = (case r of Inl _ \<Rightarrow> None | Inr v \<Rightarrow> Some v)"

lemma ok_of_simps [simp]: "ok_of (Inl e) = None" "ok_of (Inr v) = Some v"
  by (simp_all add: ok_of_def)

lemma ok_of_eq_Some [simp]: "ok_of r = Some v \<longleftrightarrow> r = Inr v"
  by (cases r) simp_all

section \<open>Lists\<close>

lemma take_drop_nth2:
  "Suc k < length xs \<Longrightarrow> drop k xs = xs ! k # xs ! Suc k # drop (Suc (Suc k)) xs"
  by (simp add: Cons_nth_drop_Suc)

lemma drop_take_append: "n \<le> length xs \<Longrightarrow> take n xs @ drop n xs @ ys = xs @ ys"
  by (simp flip: append_assoc)

lemma fold_invariant:
  assumes "P s" "\<And>x s. x \<in> set xs \<Longrightarrow> P s \<Longrightarrow> P (f x s)"
  shows "P (fold f xs s)"
  using assms by (induction xs arbitrary: s) auto

section \<open>Interfaces\<close>

text \<open>A codec: what was encoded from a well-formed value decodes to that value.\<close>

locale codec =
  fixes enc :: "'a \<Rightarrow> 'b"
    and dec :: "'b \<Rightarrow> 'a option"
    and wf_val :: "'a \<Rightarrow> bool"
  assumes dec_enc: "wf_val x \<Longrightarrow> dec (enc x) = Some x"
begin

lemma enc_eq_iff: "wf_val x \<Longrightarrow> wf_val y \<Longrightarrow> enc x = enc y \<longleftrightarrow> x = y"
  by (metis dec_enc option.inject)

lemma enc_inj_on: "inj_on enc {x. wf_val x}"
  by (auto intro: inj_onI simp: enc_eq_iff)

end

text \<open>
  A codec for messages that are read from the front of a buffer: decoding ignores what
  follows the message, and succeeds only on an encoding followed by anything.
\<close>

locale prefix_codec =
  fixes enc :: "'a \<Rightarrow> 'c list"
    and dec :: "'c list \<Rightarrow> 'a option"
    and wf_val :: "'a \<Rightarrow> bool"
  assumes dec_enc_append: "wf_val x \<Longrightarrow> dec (enc x @ r) = Some x"
    and dec_prefix: "dec b = Some x \<Longrightarrow> wf_val x \<and> (\<exists>r. b = enc x @ r)"
begin

lemma dec_Some_iff: "dec b = Some x \<longleftrightarrow> wf_val x \<and> (\<exists>r. b = enc x @ r)"
  using dec_prefix dec_enc_append by blast

lemma prefix_free: "wf_val x \<Longrightarrow> wf_val y \<Longrightarrow> enc y = enc x @ r \<Longrightarrow> x = y"
  by (metis append_Nil2 dec_enc_append option.inject)

lemma dec_truncated:
  assumes "wf_val x" "n < length (enc x)"
  shows "dec (take n (enc x)) = None"
proof (rule ccontr)
  assume "dec (take n (enc x)) \<noteq> None"
  then obtain y where "dec (take n (enc x)) = Some y" by auto
  then obtain r where y: "wf_val y" "take n (enc x) = enc y @ r"
    using dec_prefix by blast
  then have "enc x = enc y @ (r @ drop n (enc x))"
    by (metis append_assoc append_take_drop_id)
  with y assms(1) have "y = x" by (blast intro: prefix_free)
  with y(2) have "length (take n (enc x)) = length (enc x @ r)" by simp
  with assms(2) show False by simp
qed

end

sublocale prefix_codec \<subseteq> codec
  by unfold_locales (metis append_Nil2 dec_enc_append)

text \<open>
  A codec that is also canonical: everything that decodes was written by the encoder, so
  decoding is injective where it succeeds.
\<close>

locale canonical_codec = codec +
  assumes enc_dec: "dec b = Some x \<Longrightarrow> enc x = b"
    and dec_wf: "dec b = Some x \<Longrightarrow> wf_val x"
begin

lemma dec_eq_Some_iff: "dec b = Some x \<longleftrightarrow> wf_val x \<and> enc x = b"
  using dec_enc dec_wf enc_dec by blast

lemma dec_unique: "dec b = Some x \<Longrightarrow> dec b' = Some x \<Longrightarrow> b = b'"
  using enc_dec by blast

end

text \<open>
  A buffered Go channel that a producer writes with a non-blocking \<open>select\<close>. The
  policies differ in what a full channel loses (the newest value, or the oldest); what
  holds of all of them is that the buffer never outgrows its capacity, that nothing is
  lost while there is room, and that what is in the buffer is in the order of the sends.
\<close>

locale bounded_chan =
  fixes push :: "'a \<Rightarrow> 'q \<Rightarrow> 'q"
    and items :: "'q \<Rightarrow> 'a list"
    and capacity :: "'q \<Rightarrow> nat"
  assumes capacity_push: "capacity (push x q) = capacity q"
    and items_bound: "length (items q) \<le> capacity q \<Longrightarrow> length (items (push x q)) \<le> capacity q"
    and items_room: "length (items q) < capacity q \<Longrightarrow> items (push x q) = items q @ [x]"
    and items_subseq: "subseq (items (push x q)) (items q @ [x])"
begin

lemma capacity_fold: "capacity (fold push xs q) = capacity q"
  by (induction xs arbitrary: q) (simp_all add: capacity_push)

lemma fold_bound:
  "length (items q) \<le> capacity q \<Longrightarrow> length (items (fold push xs q)) \<le> capacity q"
proof (induction xs arbitrary: q)
  case (Cons x xs)
  then show ?case
    using Cons.IH [of "push x q"] by (simp add: capacity_push items_bound)
qed simp

lemma fold_subseq: "subseq (items (fold push xs q)) (items q @ xs)"
proof (induction xs arbitrary: q)
  case (Cons x xs)
  have "subseq (items (fold push xs (push x q))) (items (push x q) @ xs)"
    by (rule Cons.IH)
  also have "subseq (items (push x q) @ xs) ((items q @ [x]) @ xs)"
    using items_subseq by (intro list_emb_append_mono) auto
  finally show ?case by simp
qed simp

lemma fold_lossless:
  "length (items q) + length xs \<le> capacity q \<Longrightarrow> items (fold push xs q) = items q @ xs"
proof (induction xs arbitrary: q)
  case (Cons x xs)
  then show ?case
    using Cons.IH [of "push x q"] by (simp add: capacity_push items_room)
qed simp

end

text \<open>
  The states a step relation reaches, and the interface of an inductive invariant: it
  holds at the start, every step keeps it, so it holds in every reachable state.
\<close>

inductive reachable :: "('s \<Rightarrow> bool) \<Rightarrow> ('s \<Rightarrow> 's \<Rightarrow> bool) \<Rightarrow> 's \<Rightarrow> bool"
  for init :: "'s \<Rightarrow> bool" and step :: "'s \<Rightarrow> 's \<Rightarrow> bool"
where
  start: "init s \<Longrightarrow> reachable init step s"
| next_state: "reachable init step s \<Longrightarrow> step s t \<Longrightarrow> reachable init step t"

lemma reachable_steps:
  assumes "reachable init step s" "step\<^sup>*\<^sup>* s t"
  shows "reachable init step t"
  using assms(2,1) by (induction rule: rtranclp_induct) (auto intro: reachable.next_state)

locale step_system =
  fixes init :: "'s \<Rightarrow> bool"
    and step :: "'s \<Rightarrow> 's \<Rightarrow> bool"
    and invar :: "'s \<Rightarrow> bool"
  assumes init_invar: "init s \<Longrightarrow> invar s"
    and step_invar: "invar s \<Longrightarrow> step s t \<Longrightarrow> invar t"
begin

lemma reachable_invar: "reachable init step s \<Longrightarrow> invar s"
  by (induction rule: reachable.induct) (auto intro: init_invar step_invar)

lemma steps_invar: "step\<^sup>*\<^sup>* s t \<Longrightarrow> invar s \<Longrightarrow> invar t"
  by (induction rule: rtranclp_induct) (auto intro: step_invar)

end

end
