(* ===== verification/Go_Strings.thy ===== *)
theory Go_Strings
  imports Bp_Prelude
begin

text \<open>
  The functions of Go's \<open>strings\<close>, \<open>strconv\<close>, \<open>encoding/hex\<close> and \<open>fmt\<close> that the
  source calls, on byte strings (a \<open>string\<close> is a list of 8-bit characters, as in Go):
  prefixes, \<open>TrimSpace\<close> and \<open>Fields\<close> with Unicode white space in UTF-8,
  \<open>hex.DecodeString\<close>, \<open>ParseUint(s, 16, n)\<close>, and the verbs \<open>%0nX\<close> and \<open>%d\<close>.
\<close>

section \<open>Prefixes\<close>

definition has_prefix :: "string \<Rightarrow> string \<Rightarrow> bool" where
  "has_prefix s p \<longleftrightarrow> take (length p) s = p"

definition trim_prefix :: "string \<Rightarrow> string \<Rightarrow> string" where
  "trim_prefix s p = (if has_prefix s p then drop (length p) s else s)"

lemma has_prefix_append [go_simps, simp]: "has_prefix (p @ s) p"
  by (simp add: has_prefix_def)

lemma has_prefixE: "has_prefix s p \<Longrightarrow> (\<And>r. s = p @ r \<Longrightarrow> P) \<Longrightarrow> P"
  by (metis append_take_drop_id has_prefix_def)

lemma trim_prefix_append [go_simps, simp]: "trim_prefix (p @ s) p = s"
  by (simp add: trim_prefix_def)

section \<open>White space\<close>

text \<open>
  \<open>unicode.IsSpace\<close> as byte sequences: the ASCII spaces and the UTF-8 encodings of
  U+0085, U+00A0, U+1680, U+2000 to U+200A, U+2028, U+2029, U+202F, U+205F and U+3000.
  A UTF-8 sequence never starts inside another one, so looking for these sequences byte
  by byte finds exactly the white-space runes.
\<close>

definition ascii_spaces :: "char list" where
  "ascii_spaces = [CHR 0x09, CHR 0x0A, CHR 0x0B, CHR 0x0C, CHR 0x0D, CHR 0x20]"

definition space_runes :: "string list" where
  "space_runes = map (\<lambda>c. [c]) ascii_spaces
     @ [[CHR 0xC2, CHR 0x85], [CHR 0xC2, CHR 0xA0], [CHR 0xE1, CHR 0x9A, CHR 0x80]]
     @ map (\<lambda>n. [CHR 0xE2, CHR 0x80, char_of n]) [128 ..< 139 :: nat]
     @ [[CHR 0xE2, CHR 0x80, CHR 0xA8], [CHR 0xE2, CHR 0x80, CHR 0xA9],
        [CHR 0xE2, CHR 0x80, CHR 0xAF], [CHR 0xE2, CHR 0x81, CHR 0x9F],
        [CHR 0xE3, CHR 0x80, CHR 0x80]]"

text \<open>The number of bytes of the first sequence of \<open>rs\<close> that starts \<open>s\<close>, 0 for none.\<close>

definition run_len :: "string list \<Rightarrow> string \<Rightarrow> nat" where
  "run_len rs s = (case find (has_prefix s) rs of Some r \<Rightarrow> length r | None \<Rightarrow> 0)"

function trim_left_by :: "string list \<Rightarrow> string \<Rightarrow> string" where
  "trim_left_by rs s =
     (if s = [] \<or> run_len rs s = 0 then s else trim_left_by rs (drop (run_len rs s) s))"
  by pat_completeness auto
termination by (relation "measure (\<lambda>(rs, s). length s)") auto

declare trim_left_by.simps [simp del]

definition trim_space :: "string \<Rightarrow> string" where
  "trim_space s =
     rev (trim_left_by (map rev space_runes) (rev (trim_left_by space_runes s)))"

text \<open>\<open>strings.TrimRight(s, cutset)\<close> for a set of ASCII characters.\<close>

definition trim_right :: "char list \<Rightarrow> string \<Rightarrow> string" where
  "trim_right cutset s = rev (dropWhile (\<lambda>c. c \<in> set cutset) (rev s))"

text \<open>\<open>strings.Fields\<close>: \<open>cur\<close> is the field being read, reversed.\<close>

function fields_from :: "string \<Rightarrow> string \<Rightarrow> string list" where
  "fields_from cur s =
     (if s = [] then (if cur = [] then [] else [rev cur])
      else if run_len space_runes s = 0 then fields_from (hd s # cur) (tl s)
      else if cur = [] then fields_from [] (drop (run_len space_runes s) s)
      else rev cur # fields_from [] (drop (run_len space_runes s) s))"
  by pat_completeness auto
termination by (relation "measure (\<lambda>(cur, s). length s)") auto

declare fields_from.simps [simp del]

definition go_fields :: "string \<Rightarrow> string list" where
  "go_fields s = fields_from [] s"

text \<open>Text without white space: printable ASCII, which is all the module speaks.\<close>

definition ascii_text :: "string \<Rightarrow> bool" where
  "ascii_text s \<longleftrightarrow> list_all (\<lambda>c. 32 < (of_char c :: nat) \<and> (of_char c :: nat) < 128) s"

lemma ascii_text_simps [simp]:
  "ascii_text []"
  "ascii_text (c # s) \<longleftrightarrow> 32 < (of_char c :: nat) \<and> (of_char c :: nat) < 128 \<and> ascii_text s"
  "ascii_text (s @ t) \<longleftrightarrow> ascii_text s \<and> ascii_text t"
  "ascii_text (rev s) \<longleftrightarrow> ascii_text s"
  by (auto simp: ascii_text_def)

lemma run_len_text:
  assumes "32 < (of_char c :: nat)" "(of_char c :: nat) < 128"
    and "\<And>r. r \<in> set rs \<Longrightarrow> r \<noteq> [] \<and> ((of_char (hd r) :: nat) \<le> 32 \<or> 128 \<le> (of_char (hd r) :: nat))"
  shows "run_len rs (c # s) = 0"
proof -
  have "\<not> has_prefix (c # s) r" if "r \<in> set rs" for r
    using assms(1,2) assms(3) [OF that] by (cases r) (auto simp: has_prefix_def)
  then have "find (has_prefix (c # s)) rs = None"
    by (simp add: find_None_iff)
  then show ?thesis by (simp add: run_len_def)
qed

lemma space_runes_heads:
  "r \<in> set space_runes \<Longrightarrow>
     r \<noteq> [] \<and> ((of_char (hd r) :: nat) \<le> 32 \<or> 128 \<le> (of_char (hd r) :: nat))"
  by (auto simp: space_runes_def ascii_spaces_def)

lemma rev_space_runes_heads:
  "r \<in> set (map rev space_runes) \<Longrightarrow>
     r \<noteq> [] \<and> ((of_char (hd r) :: nat) \<le> 32 \<or> 128 \<le> (of_char (hd r) :: nat))"
  by (auto simp: space_runes_def ascii_spaces_def of_char_of)

lemma run_len_ascii [go_simps]:
  "32 < (of_char c :: nat) \<Longrightarrow> (of_char c :: nat) < 128 \<Longrightarrow> run_len space_runes (c # s) = 0"
  by (rule run_len_text [OF _ _ space_runes_heads])

lemma run_len_space [go_simps]: "run_len space_runes (CHR '' '' # s) = 1"
  by (simp add: run_len_def space_runes_def ascii_spaces_def has_prefix_def)

lemma trim_left_text:
  assumes "ascii_text s" and "rs = space_runes \<or> rs = map rev space_runes"
  shows "trim_left_by rs s = s"
proof (cases s)
  case (Cons c t)
  have "run_len rs (c # t) = 0"
    using assms Cons by (auto intro!: run_len_text dest: space_runes_heads rev_space_runes_heads)
  with Cons show ?thesis by (simp add: trim_left_by.simps)
qed (simp add: trim_left_by.simps)

lemma trim_space_text [go_simps]: "ascii_text s \<Longrightarrow> trim_space s = s"
  by (simp add: trim_space_def trim_left_text)

lemma fields_from_text [go_simps]:
  "ascii_text w \<Longrightarrow> fields_from cur (w @ s) = fields_from (rev w @ cur) s"
proof (induction w arbitrary: cur)
  case (Cons c w)
  then show ?case
    by (subst fields_from.simps) (simp add: run_len_ascii)
qed simp

lemma fields_space [go_simps]:
  "fields_from cur (CHR '' '' # s) = (if cur = [] then [] else [rev cur]) @ fields_from [] s"
  by (subst fields_from.simps) (simp add: run_len_space)

text \<open>Words joined by single spaces are read back as the words.\<close>

fun join_words :: "string list \<Rightarrow> string" where
  "join_words [] = []"
| "join_words [w] = w"
| "join_words (w # ws) = w @ CHR '' '' # join_words ws"

lemma fields_join [go_simps]:
  "(\<And>w. w \<in> set ws \<Longrightarrow> ascii_text w \<and> w \<noteq> []) \<Longrightarrow> go_fields (join_words ws) = ws"
proof (induction ws rule: join_words.induct)
  case 1
  show ?case by (simp add: go_fields_def fields_from.simps)
next
  case (2 w)
  then have "fields_from [] (w @ []) = fields_from (rev w @ []) []"
    by (intro fields_from_text) simp
  with 2 show ?case by (simp add: go_fields_def fields_from.simps)
next
  case (3 w v ws)
  have "go_fields (join_words (v # ws)) = v # ws"
    using "3.prems" by (intro "3.IH") auto
  moreover have "ascii_text w" "w \<noteq> []"
    using "3.prems" by auto
  ultimately show ?case
    by (simp add: go_fields_def fields_from_text fields_space)
qed

section \<open>Hexadecimal\<close>

definition hexval :: "char \<Rightarrow> nat option" where
  "hexval c =
     (let n = (of_char c :: nat) in
      if 48 \<le> n \<and> n \<le> 57 then Some (n - 48)
      else if 65 \<le> n \<and> n \<le> 70 then Some (n - 55)
      else if 97 \<le> n \<and> n \<le> 102 then Some (n - 87)
      else None)"

definition hex_digit :: "nat \<Rightarrow> char" where
  "hex_digit n = ''0123456789ABCDEF'' ! n"

lemma hexval_less: "hexval c = Some d \<Longrightarrow> d < 16"
  by (auto simp: hexval_def Let_def split: if_splits)

lemma hexval_digit [go_simps, simp]: "n < 16 \<Longrightarrow> hexval (hex_digit n) = Some n"
proof -
  have "\<forall>n \<in> set [0 ..< 16]. hexval (hex_digit n) = Some n"
    by code_simp
  moreover assume "n < 16"
  ultimately show ?thesis by simp
qed

lemma hex_digit_text [simp]:
  "n < 16 \<Longrightarrow> 32 < (of_char (hex_digit n) :: nat)"
  "n < 16 \<Longrightarrow> (of_char (hex_digit n) :: nat) < 128"
proof -
  have "\<forall>n \<in> set [0 ..< 16]. 32 < (of_char (hex_digit n) :: nat)
      \<and> (of_char (hex_digit n) :: nat) < 128"
    by code_simp
  then show "n < 16 \<Longrightarrow> 32 < (of_char (hex_digit n) :: nat)"
    "n < 16 \<Longrightarrow> (of_char (hex_digit n) :: nat) < 128" by simp_all
qed

text \<open>\<open>hex.DecodeString\<close>: \<open>None\<close> where it returns an error (odd length, bad digit).\<close>

fun hex_decode :: "string \<Rightarrow> byte list option" where
  "hex_decode [] = Some []"
| "hex_decode [_] = None"
| "hex_decode (a # b # s) =
     (case (hexval a, hexval b, hex_decode s) of
        (Some x, Some y, Some bs) \<Rightarrow> Some (of_nat (16 * x + y) # bs)
      | _ \<Rightarrow> None)"

lemma length_hex_decode: "hex_decode s = Some bs \<Longrightarrow> length s = 2 * length bs"
  by (induction s arbitrary: bs rule: hex_decode.induct) (auto split: option.splits)

fun hex_str :: "nat \<Rightarrow> string" where
  "hex_str n = (if n < 16 then [hex_digit n] else hex_str (n div 16) @ [hex_digit (n mod 16)])"

fun dec_str :: "nat \<Rightarrow> string" where
  "dec_str n = (if n < 10 then [hex_digit n] else dec_str (n div 10) @ [hex_digit (n mod 10)])"

declare hex_str.simps [simp del] dec_str.simps [simp del]

text \<open>The verb \<open>%0wX\<close> of a non-negative integer.\<close>

definition fmt_hex :: "nat \<Rightarrow> nat \<Rightarrow> string" where
  "fmt_hex w n = replicate (w - length (hex_str n)) (CHR ''0'') @ hex_str n"

definition fmt_byte :: "byte \<Rightarrow> string" where
  "fmt_byte b = fmt_hex 2 (unat b)"

text \<open>\<open>strconv.ParseUint(s, 16, bits)\<close>.\<close>

fun hex_value :: "nat \<Rightarrow> string \<Rightarrow> nat option" where
  "hex_value acc [] = Some acc"
| "hex_value acc (c # s) =
     (case hexval c of None \<Rightarrow> None | Some d \<Rightarrow> hex_value (16 * acc + d) s)"

definition parse_uint_hex :: "nat \<Rightarrow> string \<Rightarrow> nat option" where
  "parse_uint_hex bits s =
     (if s = [] then None
      else case hex_value 0 s of
        None \<Rightarrow> None
      | Some v \<Rightarrow> if v < 2 ^ bits then Some v else None)"

lemma hex_value_append:
  "hex_value a (s @ t) = (case hex_value a s of None \<Rightarrow> None | Some v \<Rightarrow> hex_value v t)"
  by (induction a s rule: hex_value.induct) (auto split: option.splits)

lemma hex_value_zeros [simp]: "hex_value 0 (replicate k (CHR ''0'') @ s) = hex_value 0 s"
  by (induction k) (simp_all add: hexval_def)

lemma hex_value_hex_str [go_simps]: "hex_value 0 (hex_str n) = Some n"
proof (induction n rule: hex_str.induct)
  case (1 n)
  then show ?case
    by (subst hex_str.simps) (auto simp: hex_value_append)
qed

lemma hex_value_fmt [go_simps]: "hex_value 0 (fmt_hex w n) = Some n"
  by (simp add: fmt_hex_def hex_value_hex_str)

lemma hex_str_nonempty [simp]: "hex_str n \<noteq> []"
  by (subst hex_str.simps) simp

lemma fmt_hex_nonempty [simp]: "fmt_hex w n \<noteq> []"
  by (simp add: fmt_hex_def)

lemma parse_fmt_hex [go_simps]: "n < 2 ^ bits \<Longrightarrow> parse_uint_hex bits (fmt_hex w n) = Some n"
  by (simp add: parse_uint_hex_def hex_value_fmt)

lemma ascii_hex_str [simp]: "ascii_text (hex_str n)"
proof (induction n rule: hex_str.induct)
  case (1 n)
  then show ?case by (subst hex_str.simps) auto
qed

lemma ascii_fmt_hex [simp]: "ascii_text (fmt_hex w n)"
proof -
  have "ascii_text (replicate k (CHR ''0''))" for k by (induction k) simp_all
  then show ?thesis by (simp add: fmt_hex_def)
qed

lemma fmt_hex_2: "n < 256 \<Longrightarrow> fmt_hex 2 n = [hex_digit (n div 16), hex_digit (n mod 16)]"
proof -
  assume n: "n < 256"
  have zero: "hex_digit 0 = CHR ''0''" by (simp add: hex_digit_def)
  show ?thesis
  proof (cases "n < 16")
    case True
    then show ?thesis by (simp add: fmt_hex_def hex_str.simps [of n] zero)
  next
    case False
    with n have "n div 16 < 16" by simp
    with False show ?thesis
      by (simp add: fmt_hex_def hex_str.simps [of n] hex_str.simps [of "n div 16"])
  qed
qed

lemma fmt_byte_digits:
  "fmt_byte b = [hex_digit (unat b div 16), hex_digit (unat b mod 16)]"
  using unat_byte [of b] by (simp add: fmt_byte_def fmt_hex_2)

lemma hex_decode_fmt_byte [go_simps]:
  "hex_decode (fmt_byte b @ s) = map_option ((#) b) (hex_decode s)"
proof -
  have "unat b div 16 < 16" using unat_byte [of b] by simp
  moreover have "(of_nat (16 * (unat b div 16) + unat b mod 16) :: byte) = b"
    by (simp only: mult_div_mod_eq of_nat_unat ucast_id)
  ultimately show ?thesis
    by (simp add: fmt_byte_digits split: option.split)
qed

definition hex_encode :: "byte list \<Rightarrow> string" where
  "hex_encode bs = concat (map fmt_byte bs)"

lemma hex_decode_encode [go_simps]: "hex_decode (hex_encode bs) = Some bs"
  by (induction bs) (simp_all add: hex_encode_def hex_decode_fmt_byte)

interpretation hex_text: codec hex_encode hex_decode "\<lambda>_. True"
  by unfold_locales (simp add: hex_decode_encode)

lemma length_hex_encode [simp]: "length (hex_encode bs) = 2 * length bs"
  by (induction bs) (simp_all add: hex_encode_def fmt_byte_digits)

lemma ascii_hex_encode [simp]: "ascii_text (hex_encode bs)"
  by (induction bs) (simp_all add: hex_encode_def fmt_byte_def)

end
