(* ===== verification/Sk_Lines.thy ===== *)
theory Sk_Lines
  imports Go_Strings
begin

text \<open>
  The pure part of \<open>internal/bp35c2/driver.go\<close>: splitting the serial stream into lines
  (\<open>scanLinesCRLF\<close> under \<open>bufio.Scanner\<close>), parsing the asynchronous messages into events
  (\<open>parseEvent\<close>, \<open>parseERXUDP\<close>, \<open>buildEPANDESC\<close>), and scrubbing credentials from log
  lines (\<open>redactCredential\<close>). The lemmas show that the lines do not depend on how the
  stream was cut into reads, nor on which of CR, LF and CRLF ends a line.
\<close>

section \<open>Lines\<close>

definition CR :: char where "CR = CHR 0x0D"
definition LF :: char where "LF = CHR 0x0A"

definition is_eol :: "char \<Rightarrow> bool" where
  "is_eol c \<longleftrightarrow> c = CR \<or> c = LF"

text \<open>The loop of \<open>scanLinesCRLF\<close>: the index of the first separator.\<close>

fun first_eol :: "string \<Rightarrow> nat option" where
  "first_eol [] = None"
| "first_eol (c # s) = (if is_eol c then Some 0 else map_option Suc (first_eol s))"

definition scanLinesCRLF :: "string \<Rightarrow> bool \<Rightarrow> nat \<times> string option" where
  "scanLinesCRLF data atEOF =
     (if atEOF \<and> data = [] then (0, None)
      else
        (case first_eol data of
           Some i \<Rightarrow> (i + 1, Some (take i data))
         | None \<Rightarrow> if atEOF then (length data, Some data) else (0, None)))"

lemma first_eol_less: "first_eol s = Some i \<Longrightarrow> i < length s"
  by (induction s arbitrary: i) (auto split: if_splits)

text \<open>
  The scanner: the tokens it hands out from what is buffered, and what stays buffered
  because it has no separator yet. \<open>scan_eof\<close> is the end of the stream.
\<close>

function scan_tokens :: "string \<Rightarrow> string list \<times> string" where
  "scan_tokens buf =
     (case scanLinesCRLF buf False of
        (adv, None) \<Rightarrow> ([], buf)
      | (adv, Some tok) \<Rightarrow>
          (let (toks, rest) = scan_tokens (drop adv buf) in (tok # toks, rest)))"
  by pat_completeness auto
termination
  by (relation "measure length")
    (auto simp: scanLinesCRLF_def split: option.splits if_splits dest: first_eol_less)

declare scan_tokens.simps [simp del]

definition scan_eof :: "string \<Rightarrow> string list" where
  "scan_eof buf = (case scanLinesCRLF buf True of (_, None) \<Rightarrow> [] | (_, Some tok) \<Rightarrow> [tok])"

text \<open>What \<open>readLoop\<close> does to a token: trailing CRs off, empty tokens skipped.\<close>

definition clean_tokens :: "string list \<Rightarrow> string list" where
  "clean_tokens toks = filter (\<lambda>l. l \<noteq> []) (map (trim_right [CR]) toks)"

text \<open>The lines handed to \<open>handleLine\<close> when the stream arrives as these reads.\<close>

fun scan_reads :: "string \<Rightarrow> string list \<Rightarrow> string list" where
  "scan_reads buf [] = scan_eof buf"
| "scan_reads buf (chunk # chunks) =
     (let (toks, rest) = scan_tokens (buf @ chunk) in toks @ scan_reads rest chunks)"

definition read_lines :: "string list \<Rightarrow> string list" where
  "read_lines chunks = clean_tokens (scan_reads [] chunks)"

text \<open>The reference: the non-empty maximal stretches without a separator.\<close>

fun segments :: "string \<Rightarrow> string \<Rightarrow> string list" where
  "segments cur [] = (if cur = [] then [] else [cur])"
| "segments cur (c # s) =
     (if is_eol c then (if cur = [] then [] else [cur]) @ segments [] s
      else segments (cur @ [c]) s)"

section \<open>Events\<close>

record event =
  Kind :: string
  Params :: "string list"
  Fields :: "(string \<rightharpoonup> string) option"
  Data :: "byte list option"
  Raw :: string

definition parseEvent :: "string \<Rightarrow> string \<Rightarrow> event" where
  "parseEvent kind line =
     (let rest = trim_space (trim_prefix line kind); fs = go_fields rest
      in \<lparr>Kind = kind, Params = fs, Fields = None, Data = None, Raw = line\<rparr>)"

definition parseERXUDP :: "string \<Rightarrow> event" where
  "parseERXUDP line =
     (let fs = go_fields (trim_prefix line ''ERXUDP '');
          ev = \<lparr>Kind = ''ERXUDP'', Params = fs, Fields = None, Data = None, Raw = line\<rparr>
      in if length fs < 9 then ev
         else
           (case hex_decode (fs ! 8) of
              Some data \<Rightarrow> ev\<lparr>Data := Some data\<rparr>
            | None \<Rightarrow> ev))"

text \<open>\<open>strings.IndexByte(l, ':')\<close>.\<close>

fun index_char :: "char \<Rightarrow> string \<Rightarrow> nat option" where
  "index_char x [] = None"
| "index_char x (c # s) = (if c = x then Some 0 else map_option Suc (index_char x s))"

text \<open>One row of an EPANDESC block: the key and value it sets, if any.\<close>

definition epan_row :: "string \<Rightarrow> (string \<times> string) option" where
  "epan_row row =
     (let l = trim_space row in
      if l = [] then None
      else
        (case index_char (CHR '':'') l of
           None \<Rightarrow> None
         | Some colon \<Rightarrow>
             if colon = 0 then None
             else Some (trim_space (take colon l), trim_space (drop (colon + 1) l))))"

fun join_lines :: "string list \<Rightarrow> string" where
  "join_lines [] = []"
| "join_lines [l] = l"
| "join_lines (l # ls) = l @ LF # join_lines ls"

definition buildEPANDESC :: "string list \<Rightarrow> event" where
  "buildEPANDESC ls =
     \<lparr>Kind = ''EPANDESC'', Params = [],
      Fields = Some (foldl (\<lambda>m row. case epan_row row of None \<Rightarrow> m | Some (k, v) \<Rightarrow> m(k \<mapsto> v))
                       Map.empty (drop 1 ls)),
      Data = None, Raw = join_lines ls\<rparr>"

section \<open>Log scrubbing\<close>

definition redactCredential :: "string \<Rightarrow> string" where
  "redactCredential s =
     (if has_prefix s ''SKSETPWD '' then ''SKSETPWD ***''
      else if has_prefix s ''SKSETRBID '' then ''SKSETRBID ***''
      else s)"

lemma redact_lengths: "redactCredential s \<noteq> s \<Longrightarrow>
    redactCredential s \<in> {''SKSETPWD ***'', ''SKSETRBID ***''}"
  by (auto simp: redactCredential_def split: if_splits)

lemma redact_password: "has_prefix (redactCredential s) ''SKSETPWD '' \<Longrightarrow>
    redactCredential s = ''SKSETPWD ***''"
  by (auto simp: redactCredential_def has_prefix_def split: if_splits)

lemma redact_rbid: "has_prefix (redactCredential s) ''SKSETRBID '' \<Longrightarrow>
    redactCredential s = ''SKSETRBID ***''"
  by (auto simp: redactCredential_def has_prefix_def split: if_splits)

section \<open>The lines of a stream\<close>

lemma first_eol_None: "first_eol s = None \<longleftrightarrow> list_all (\<lambda>c. \<not> is_eol c) s"
  by (induction s) auto

lemma first_eol_Some:
  "first_eol s = Some i \<longleftrightarrow>
     i < length s \<and> is_eol (s ! i) \<and> list_all (\<lambda>c. \<not> is_eol c) (take i s)"
  by (induction s arbitrary: i) (auto split: nat.split simp: take_Cons nth_Cons less_Suc_eq_0_disj)

lemma scan_tokens_None: "first_eol buf = None \<Longrightarrow> scan_tokens buf = ([], buf)"
  by (subst scan_tokens.simps) (simp add: scanLinesCRLF_def)

lemma scan_tokens_Some:
  "first_eol buf = Some i \<Longrightarrow>
     scan_tokens buf =
       (take i buf # fst (scan_tokens (drop (Suc i) buf)), snd (scan_tokens (drop (Suc i) buf)))"
  by (subst scan_tokens.simps) (simp add: scanLinesCRLF_def case_prod_beta Let_def)

lemma segments_no_eol: "list_all (\<lambda>c. \<not> is_eol c) w \<Longrightarrow> segments cur (w @ s) = segments (cur @ w) s"
  by (induction w arbitrary: cur) simp_all

lemma trim_right_no_eol: "list_all (\<lambda>c. \<not> is_eol c) w \<Longrightarrow> trim_right [CR] w = w"
  unfolding trim_right_def
  by (cases "rev w") (auto simp: is_eol_def list_all_iff dest!: arg_cong [of _ _ set] simp flip: rev_swap)

lemma clean_tokens_simps:
  "clean_tokens [] = []"
  "clean_tokens (xs @ ys) = clean_tokens xs @ clean_tokens ys"
  "list_all (\<lambda>c. \<not> is_eol c) w \<Longrightarrow>
     clean_tokens (w # xs) = (if w = [] then [] else [w]) @ clean_tokens xs"
  by (simp_all add: clean_tokens_def trim_right_no_eol)

text \<open>
  Scanning a buffer, then whatever else arrives, gives the segments of the whole: the
  tokens so far are the finished segments, the rest is the unfinished one.
\<close>

lemma segments_scan_tokens:
  "segments [] (buf @ s) =
     clean_tokens (fst (scan_tokens buf)) @ segments [] (snd (scan_tokens buf) @ s)"
proof (induction buf rule: scan_tokens.induct)
  case (1 buf)
  show ?case
  proof (cases "first_eol buf")
    case None
    then show ?thesis by (simp add: scan_tokens_None clean_tokens_simps)
  next
    case (Some i)
    then have i: "i < length buf" "is_eol (buf ! i)" "list_all (\<lambda>c. \<not> is_eol c) (take i buf)"
      by (simp_all add: first_eol_Some)
    let ?rest = "drop (Suc i) buf"
    have "segments [] (buf @ s) = segments [] (take i buf @ buf ! i # ?rest @ s)"
      using id_take_nth_drop [OF i(1)] by (metis append.assoc append_Cons)
    also have "\<dots> = (if take i buf = [] then [] else [take i buf]) @ segments [] (?rest @ s)"
      using i by (simp add: segments_no_eol)
    also have "segments [] (?rest @ s) = clean_tokens (fst (scan_tokens ?rest))
        @ segments [] (snd (scan_tokens ?rest) @ s)"
      using "1.IH" [of "i + 1" "Some (take i buf)"] by (simp add: scanLinesCRLF_def Some)
    finally show ?thesis
      using i by (simp add: scan_tokens_Some [OF Some] clean_tokens_simps)
  qed
qed

lemma scan_tokens_rest: "list_all (\<lambda>c. \<not> is_eol c) (snd (scan_tokens buf))"
proof (induction buf rule: scan_tokens.induct)
  case (1 buf)
  show ?case
  proof (cases "first_eol buf")
    case None
    then show ?thesis by (simp add: scan_tokens_None first_eol_None)
  next
    case (Some i)
    then show ?thesis
      using "1.IH" [of "i + 1" "Some (take i buf)"]
      by (simp add: scan_tokens_Some scanLinesCRLF_def)
  qed
qed

lemma scan_eof_segments:
  "list_all (\<lambda>c. \<not> is_eol c) buf \<Longrightarrow> clean_tokens (scan_eof buf) = segments [] buf"
  using segments_no_eol [of buf "[]" "[]"]
  by (auto simp: scan_eof_def scanLinesCRLF_def clean_tokens_simps simp flip: first_eol_None)

lemma scan_reads_segments:
  "list_all (\<lambda>c. \<not> is_eol c) buf \<Longrightarrow>
     clean_tokens (scan_reads buf chunks) = segments [] (buf @ concat chunks)"
proof (induction chunks arbitrary: buf)
  case Nil
  then show ?case by (simp add: scan_eof_segments)
next
  case (Cons chunk chunks)
  have "clean_tokens (scan_reads (snd (scan_tokens (buf @ chunk))) chunks) =
      segments [] (snd (scan_tokens (buf @ chunk)) @ concat chunks)"
    by (intro Cons.IH scan_tokens_rest)
  then show ?case
    using segments_scan_tokens [of "buf @ chunk" "concat chunks"]
    by (simp add: clean_tokens_simps case_prod_beta Let_def)
qed

lemma read_lines_segments: "read_lines chunks = segments [] (concat chunks)"
  by (simp add: read_lines_def scan_reads_segments)

lemma segments_line:
  assumes "list_all (\<lambda>c. \<not> is_eol c) l" "l \<noteq> []" "t \<noteq> []" "list_all is_eol t"
  shows "segments [] (l @ t @ s) = l # segments [] s"
proof -
  have sep: "segments [] (u @ s) = segments [] s" if "list_all is_eol u" for u
    using that by (induction u) simp_all
  obtain c u where t: "t = c # u" "is_eol c" "list_all is_eol u"
    using assms(3,4) by (cases t) auto
  have "segments [] (l @ t @ s) = segments ([] @ l) (t @ s)"
    using assms(1) by (rule segments_no_eol)
  with t assms(2) sep show ?thesis by simp
qed

text \<open>Lines written with any mixture of the three terminators.\<close>

definition terminated :: "string \<times> string \<Rightarrow> bool" where
  "terminated lt \<longleftrightarrow>
     fst lt \<noteq> [] \<and> list_all (\<lambda>c. \<not> is_eol c) (fst lt) \<and> snd lt \<in> {[CR], [LF], [CR, LF]}"

lemma segments_terminated:
  "list_all terminated lts \<Longrightarrow>
     segments [] (concat (map (\<lambda>lt. fst lt @ snd lt) lts)) = map fst lts"
proof (induction lts)
  case (Cons lt lts)
  then have "segments [] (fst lt @ snd lt @ concat (map (\<lambda>lt. fst lt @ snd lt) lts)) =
      fst lt # segments [] (concat (map (\<lambda>lt. fst lt @ snd lt) lts))"
    by (intro segments_line) (auto simp: terminated_def is_eol_def)
  with Cons show ?case by simp
qed simp

section \<open>Properties of the line reader\<close>



end
