(* ===== verification/Sk_Driver.thy ===== *)
theory Sk_Driver
  imports Sk_Lines
begin

text \<open>
  The concurrent part of \<open>internal/bp35c2/driver.go\<close>: the struct \<open>Driver\<close> with its
  mutexes and channels, the reader goroutine (\<open>readLoop\<close>, \<open>handleLine\<close>), the callers of
  \<open>Command\<close> and \<open>CommandBinary\<close>, and \<open>Close\<close>. Each definition is one critical section
  of the code; \<open>drv_step\<close> interleaves them. A \<open>pendingCmd\<close> is shared between the driver
  and its caller, so the commands live in a store \<open>calls\<close> and \<open>pending\<close> is a reference.
\<close>

section \<open>State\<close>

datatype drv_error =
    ErrClosed
  | ErrBusy
  | ErrTimeout
  | FailError string
  | ErrWrite string

record cmd_result =
  r_ok :: bool
  r_fail :: string
  r_lines :: "string list"
  r_err :: "drv_error option"

text \<open>
  Where a caller of \<open>command\<close> is: it holds \<open>cmdMu\<close> (\<open>Locked\<close>), has seen the driver open
  (\<open>Checked\<close>), has registered its \<open>pendingCmd\<close> (\<open>Registered\<close>), has written the line
  (\<open>Waiting\<close>), or has returned lines and possibly an error.
\<close>

datatype phase =
    Locked | Checked | Registered | Waiting
  | Returned "string list" "drv_error option"

record pending_cmd =
  pc_cmd :: string
  pc_payload :: string
  pc_resp :: "string list"
  pc_done :: "cmd_result option"
  pc_phase :: phase

record driver =
  events :: "event list"
  event_cap :: nat
  events_closed :: bool
  cmd_mu :: "nat option"
  pending :: "nat option"
  calls :: "nat \<rightharpoonup> pending_cmd"
  closed :: bool
  close_once :: bool
  closing :: bool
  read_err :: "string option"
  epan_buf :: "string list option"
  reader_done :: bool
  wire :: "string list"
  dlog :: "string list"

definition new_driver :: "int \<Rightarrow> driver" where
  "new_driver eventBuf =
     \<lparr>events = [], event_cap = nat (if eventBuf \<le> 0 then 32 else eventBuf),
      events_closed = False, cmd_mu = None, pending = None, calls = Map.empty,
      closed = False, close_once = False, closing = False, read_err = None, epan_buf = None,
      reader_done = False, wire = [], dlog = []\<rparr>"

section \<open>The reader goroutine\<close>

text \<open>A non-blocking send on the \<open>done\<close> channel of call \<open>i\<close> (capacity 1).\<close>

definition send_done :: "nat \<Rightarrow> cmd_result \<Rightarrow> driver \<Rightarrow> driver" where
  "send_done i r d =
     (case calls d i of
        None \<Rightarrow> d
      | Some pc \<Rightarrow>
          if pc_done pc = None then d\<lparr>calls := (calls d)(i \<mapsto> pc\<lparr>pc_done := Some r\<rparr>)\<rparr> else d)"

definition call_resp :: "driver \<Rightarrow> nat \<Rightarrow> string list" where
  "call_resp d i = (case calls d i of None \<Rightarrow> [] | Some pc \<Rightarrow> pc_resp pc)"

definition completePending :: "bool \<Rightarrow> string \<Rightarrow> drv_error option \<Rightarrow> driver \<Rightarrow> driver" where
  "completePending ok fail err d =
     (case pending d of
        None \<Rightarrow> d
      | Some i \<Rightarrow>
          send_done i \<lparr>r_ok = ok, r_fail = fail, r_lines = call_resp d i, r_err = err\<rparr>
            (d\<lparr>pending := None\<rparr>))"

text \<open>The event channel: a full channel loses its oldest event.\<close>

definition pushEvent :: "event \<Rightarrow> driver \<Rightarrow> driver" where
  "pushEvent ev d =
     (if length (events d) < event_cap d then d\<lparr>events := events d @ [ev]\<rparr>
      else
        let evs = drop 1 (events d) in
        if length evs < event_cap d then d\<lparr>events := evs @ [ev]\<rparr> else d\<lparr>events := evs\<rparr>)"

definition starts_indented :: "string \<Rightarrow> bool" where
  "starts_indented line \<longleftrightarrow> has_prefix line '' '' \<or> has_prefix line [CHR 0x09]"

definition first_word :: "string \<Rightarrow> string" where
  "first_word line = takeWhile (\<lambda>c. c \<noteq> CHR '' '') line"

definition is_ok_line :: "string \<Rightarrow> bool" where
  "is_ok_line line \<longleftrightarrow> line = ''OK'' \<or> has_prefix line ''OK ''"

text \<open>The default case: echoes are skipped, other lines belong to the pending command.\<close>

definition response_line :: "string \<Rightarrow> driver \<Rightarrow> driver" where
  "response_line line d =
     (case pending d of
        None \<Rightarrow> d\<lparr>dlog := dlog d @ [redactCredential line]\<rparr>
      | Some i \<Rightarrow>
          (case calls d i of
             None \<Rightarrow> d
           | Some pc \<Rightarrow>
               if line = pc_cmd pc then d
               else d\<lparr>calls := (calls d)(i \<mapsto> pc\<lparr>pc_resp := pc_resp pc @ [line]\<rparr>)\<rparr>))"

text \<open>The \<open>switch\<close> of \<open>handleLine\<close>, case by case.\<close>

definition dispatch_line :: "string \<Rightarrow> driver \<Rightarrow> driver" where
  "dispatch_line line d =
     (if is_ok_line line then completePending True [] None d
      else if has_prefix line ''FAIL '' then
        completePending False (trim_space (trim_prefix line ''FAIL '')) None d
      else if line = ''EPANDESC'' then d\<lparr>epan_buf := Some [line]\<rparr>
      else if has_prefix line ''EVENT '' then pushEvent (parseEvent ''EVENT'' line) d
      else if has_prefix line ''ERXUDP '' then pushEvent (parseERXUDP line) d
      else if has_prefix line ''ERXTCP '' \<or> has_prefix line ''ETIMER'' then
        pushEvent (parseEvent (first_word line) line) d
      else response_line line d)"

definition handleLine :: "string \<Rightarrow> driver \<Rightarrow> driver" where
  "handleLine line d =
     (case epan_buf d of
        Some buf \<Rightarrow>
          if starts_indented line then d\<lparr>epan_buf := Some (buf @ [line])\<rparr>
          else dispatch_line line (pushEvent (buildEPANDESC buf) (d\<lparr>epan_buf := None\<rparr>))
      | None \<Rightarrow> dispatch_line line d)"

text \<open>One turn of \<open>readLoop\<close>: the line is logged, scrubbed, then handled.\<close>

definition read_line :: "string \<Rightarrow> driver \<Rightarrow> driver" where
  "read_line line d = handleLine line (d\<lparr>dlog := dlog d @ [redactCredential line]\<rparr>)"

definition fail_pending :: "driver \<Rightarrow> driver" where
  "fail_pending d =
     (case pending d of
        None \<Rightarrow> d
      | Some i \<Rightarrow>
          (send_done i \<lparr>r_ok = False, r_fail = [], r_lines = [], r_err = Some ErrClosed\<rparr> d)
            \<lparr>pending := None\<rparr>)"

text \<open>
  The end of \<open>readLoop\<close>: \<open>err\<close> is \<open>scanner.Err()\<close>, \<open>None\<close> at a clean end of stream. Only
  an error of a driver that is not closed yet closes it; the deferred function runs in
  every case.
\<close>

definition read_end :: "string option \<Rightarrow> driver \<Rightarrow> driver" where
  "read_end err d =
     (let d = (case err of
                 None \<Rightarrow> d
               | Some e \<Rightarrow>
                   if closed d then d
                   else
                     let d = d\<lparr>read_err := Some e\<rparr> in
                     if close_once d then d else d\<lparr>close_once := True, closed := True\<rparr>)
      in (fail_pending d)\<lparr>events_closed := True, reader_done := True\<rparr>)"

section \<open>Callers of command\<close>

definition set_phase :: "nat \<Rightarrow> phase \<Rightarrow> driver \<Rightarrow> driver" where
  "set_phase i ph d =
     (case calls d i of
        None \<Rightarrow> d
      | Some pc \<Rightarrow> d\<lparr>calls := (calls d)(i \<mapsto> pc\<lparr>pc_phase := ph\<rparr>)\<rparr>)"

definition acquire_cmd :: "nat \<Rightarrow> string \<Rightarrow> string \<Rightarrow> driver \<Rightarrow> driver" where
  "acquire_cmd i line payload d =
     d\<lparr>cmd_mu := Some i,
       calls := (calls d)(i \<mapsto> \<lparr>pc_cmd = line, pc_payload = payload, pc_resp = [],
                              pc_done = None, pc_phase = Locked\<rparr>)\<rparr>"

text \<open>Returning: the deferred functions clear \<open>pending\<close> if it is still ours, then unlock.\<close>

definition return_cmd :: "nat \<Rightarrow> string list \<Rightarrow> drv_error option \<Rightarrow> driver \<Rightarrow> driver" where
  "return_cmd i resp err d =
     (set_phase i (Returned resp err) d)
       \<lparr>pending := (if pending d = Some i then None else pending d), cmd_mu := None\<rparr>"

definition check_closed :: "nat \<Rightarrow> driver \<Rightarrow> driver" where
  "check_closed i d =
     (if closed d then return_cmd i [] (Some ErrClosed) d else set_phase i Checked d)"

definition register_cmd :: "nat \<Rightarrow> driver \<Rightarrow> driver" where
  "register_cmd i d =
     (if pending d \<noteq> None then (set_phase i (Returned [] (Some ErrBusy)) d)\<lparr>cmd_mu := None\<rparr>
      else set_phase i Registered (d\<lparr>pending := Some i\<rparr>))"

text \<open>\<open>writeCommand\<close>: one write of line, payload and CRLF; \<open>werr\<close> is what \<open>Write\<close> returns.\<close>

definition writeCommand :: "nat \<Rightarrow> string option \<Rightarrow> driver \<Rightarrow> driver" where
  "writeCommand i werr d =
     (case calls d i of
        None \<Rightarrow> d
      | Some pc \<Rightarrow>
          let d = d\<lparr>dlog := dlog d @ [redactCredential (pc_cmd pc)]\<rparr> in
          (case werr of
             None \<Rightarrow>
               set_phase i Waiting
                 (d\<lparr>wire := wire d @ [pc_cmd pc @ pc_payload pc @ [CHR 0x0D, CHR 0x0A]]\<rparr>)
           | Some e \<Rightarrow> return_cmd i [] (Some (ErrWrite e)) d))"

text \<open>The three cases of the final \<open>select\<close>.\<close>

definition result_of :: "cmd_result \<Rightarrow> string list \<times> drv_error option" where
  "result_of r =
     (if r_err r \<noteq> None then (r_lines r, r_err r)
      else if \<not> r_ok r then (r_lines r, Some (FailError (r_fail r)))
      else (r_lines r, None))"

definition finish_done :: "nat \<Rightarrow> cmd_result \<Rightarrow> driver \<Rightarrow> driver" where
  "finish_done i r d = return_cmd i (fst (result_of r)) (snd (result_of r)) d"

definition finish_timeout :: "nat \<Rightarrow> driver \<Rightarrow> driver" where
  "finish_timeout i d = return_cmd i [] (Some ErrTimeout) d"

definition finish_closed :: "nat \<Rightarrow> driver \<Rightarrow> driver" where
  "finish_closed i d = return_cmd i [] (Some ErrClosed) d"

section \<open>Close\<close>

text \<open>
  \<open>closeOnce\<close> runs its function once: first \<open>closed\<close> is closed, then, in a critical section
  of its own, the pending command fails. \<open>closing\<close> says that a caller is between the two.
\<close>

definition close_begin :: "driver \<Rightarrow> driver" where
  "close_begin d =
     (if close_once d then d else d\<lparr>close_once := True, closed := True, closing := True\<rparr>)"

definition close_fail :: "driver \<Rightarrow> driver" where
  "close_fail d = (fail_pending d)\<lparr>closing := False\<rparr>"

section \<open>Interleaving\<close>

definition phase_of :: "driver \<Rightarrow> nat \<Rightarrow> phase option" where
  "phase_of d i = map_option pc_phase (calls d i)"

inductive drv_step :: "driver \<Rightarrow> driver \<Rightarrow> bool" where
  step_acquire: "cmd_mu d = None \<Longrightarrow> calls d i = None \<Longrightarrow>
    drv_step d (acquire_cmd i line payload d)"
| step_check: "phase_of d i = Some Locked \<Longrightarrow> drv_step d (check_closed i d)"
| step_register: "phase_of d i = Some Checked \<Longrightarrow> drv_step d (register_cmd i d)"
| step_write: "phase_of d i = Some Registered \<Longrightarrow> drv_step d (writeCommand i werr d)"
| step_result: "phase_of d i = Some Waiting \<Longrightarrow> Option.bind (calls d i) pc_done = Some r \<Longrightarrow>
    drv_step d (finish_done i r d)"
| step_ctx_done: "phase_of d i = Some Waiting \<Longrightarrow> drv_step d (finish_timeout i d)"
| step_see_closed: "phase_of d i = Some Waiting \<Longrightarrow> closed d \<Longrightarrow> drv_step d (finish_closed i d)"
| step_read: "\<not> reader_done d \<Longrightarrow> drv_step d (read_line line d)"
| step_read_end: "\<not> reader_done d \<Longrightarrow> drv_step d (read_end err d)"
| step_close: "drv_step d (close_begin d)"
| step_close_fail: "closing d \<Longrightarrow> drv_step d (close_fail d)"
| step_receive: "events d = ev # evs \<Longrightarrow> drv_step d (d\<lparr>events := evs\<rparr>)"

definition drv_init :: "driver \<Rightarrow> bool" where
  "drv_init d \<longleftrightarrow> (\<exists>n. d = new_driver n)"

section \<open>The event channel\<close>

interpretation event_chan: bounded_chan pushEvent events event_cap
  by unfold_locales
    (auto simp: pushEvent_def Let_def not_less intro: list_emb_append_mono
      dest: le_antisym split: list.split)

lemma pushEvent_frame [simp]:
  "calls (pushEvent ev d) = calls d" "pending (pushEvent ev d) = pending d"
  "cmd_mu (pushEvent ev d) = cmd_mu d" "closed (pushEvent ev d) = closed d"
  "close_once (pushEvent ev d) = close_once d" "closing (pushEvent ev d) = closing d"
 "events_closed (pushEvent ev d) = events_closed d"
  "reader_done (pushEvent ev d) = reader_done d" "dlog (pushEvent ev d) = dlog d"
  "epan_buf (pushEvent ev d) = epan_buf d" "wire (pushEvent ev d) = wire d"
  "event_cap (pushEvent ev d) = event_cap d" "read_err (pushEvent ev d) = read_err d"
  by (simp_all add: pushEvent_def Let_def)

end
