(* ===== verification/Sk_Driver_Safety.thy ===== *)
theory Sk_Driver_Safety
  imports Sk_Driver
begin

text \<open>
  The invariant of the interleaved driver of \<open>internal/bp35c2/driver.go\<close> and what follows
  from it: calls exclude each other, \<open>ErrBusy\<close> cannot happen, a result is never lost in the
  non-blocking send on \<open>done\<close>, the event channel is bounded and not written after it was
  closed, and no credential reaches the log.
\<close>

section \<open>The invariant\<close>

fun in_flight :: "phase \<Rightarrow> bool" where
  "in_flight (Returned ls e) = False"
| "in_flight ph = True"

fun awaiting :: "phase \<Rightarrow> bool" where
  "awaiting Registered = True"
| "awaiting Waiting = True"
| "awaiting ph = False"

lemma awaiting_in_flight: "awaiting ph \<Longrightarrow> in_flight ph"
  by (cases ph) simp_all

fun not_busy :: "phase \<Rightarrow> bool" where
  "not_busy (Returned ls e) = (e \<noteq> Some ErrBusy)"
| "not_busy ph = True"

definition result_ok :: "cmd_result option \<Rightarrow> bool" where
  "result_ok r = (case r of None \<Rightarrow> True | Some r \<Rightarrow> r_err r = None \<or> r_err r = Some ErrClosed)"

text \<open>
  One call: in flight it holds \<open>cmdMu\<close>; it is the pending one exactly while it is registered
  and has no result; before it registers it has none.
\<close>

definition call_inv :: "driver \<Rightarrow> nat \<Rightarrow> pending_cmd \<Rightarrow> bool" where
  "call_inv d i pc \<longleftrightarrow>
     (in_flight (pc_phase pc) \<longrightarrow> cmd_mu d = Some i) \<and>
     (pending d = Some i \<longleftrightarrow> awaiting (pc_phase pc) \<and> pc_done pc = None) \<and>
     (pc_phase pc = Locked \<or> pc_phase pc = Checked \<longrightarrow> pc_done pc = None) \<and>
     not_busy (pc_phase pc) \<and> result_ok (pc_done pc)"

definition calls_inv :: "driver \<Rightarrow> bool" where
  "calls_inv d \<longleftrightarrow>
     (\<forall>i. pending d = Some i \<longrightarrow> calls d i \<noteq> None) \<and>
     (\<forall>i pc. calls d i = Some pc \<longrightarrow> call_inv d i pc)"

definition scrubbed :: "string \<Rightarrow> bool" where
  "scrubbed s \<longleftrightarrow>
     (has_prefix s ''SKSETPWD '' \<longrightarrow> s = ''SKSETPWD ***'') \<and>
     (has_prefix s ''SKSETRBID '' \<longrightarrow> s = ''SKSETRBID ***'')"

definition shared_inv :: "driver \<Rightarrow> bool" where
  "shared_inv d \<longleftrightarrow>
     length (events d) \<le> event_cap d \<and> 0 < event_cap d \<and>
     (events_closed d \<longleftrightarrow> reader_done d) \<and> (closed d \<longleftrightarrow> close_once d) \<and>
     (closing d \<longrightarrow> close_once d) \<and> list_all scrubbed (dlog d)"

definition drv_inv :: "driver \<Rightarrow> bool" where
  "drv_inv d \<longleftrightarrow> calls_inv d \<and> shared_inv d"

section \<open>The calls\<close>

text \<open>\<open>calls_inv\<close> reads four fields of the driver, and the calls one by one.\<close>

lemma calls_inv_cong:
  assumes "calls d = calls d'" "pending d = pending d'" "cmd_mu d = cmd_mu d'"
  shows "calls_inv d \<longleftrightarrow> calls_inv d'"
  using assms by (simp add: calls_inv_def call_inv_def)

lemma calls_inv_frame [simp]:
  "calls_inv (d\<lparr>epan_buf := b\<rparr>) = calls_inv d" "calls_inv (d\<lparr>dlog := l\<rparr>) = calls_inv d"
  "calls_inv (pushEvent ev d) = calls_inv d" "calls_inv (d\<lparr>wire := w\<rparr>) = calls_inv d"
  "calls_inv (d\<lparr>events := es\<rparr>) = calls_inv d"
  "calls_inv (d\<lparr>close_once := c\<rparr>) = calls_inv d" "calls_inv (d\<lparr>closed := c\<rparr>) = calls_inv d"
  "calls_inv (d\<lparr>closing := c\<rparr>) = calls_inv d"
  "calls_inv (d\<lparr>events_closed := c\<rparr>) = calls_inv d"
  "calls_inv (d\<lparr>reader_done := c\<rparr>) = calls_inv d"
  by (rule calls_inv_cong; simp)+

lemma calls_invD: "calls_inv d \<Longrightarrow> calls d i = Some pc \<Longrightarrow> call_inv d i pc"
  by (simp add: calls_inv_def)

lemma calls_inv_pending:
  assumes "calls_inv d" "pending d = Some i"
  obtains pc where "calls d i = Some pc" "awaiting (pc_phase pc)" "pc_done pc = None"
  using assms unfolding calls_inv_def call_inv_def by (metis option.exhaust)

text \<open>
  Changing one call and giving up \<open>pending\<close> if it was its own: the other calls are not
  affected as long as the lock is not given away from under one of them.
\<close>

lemma calls_inv_update:
  assumes inv: "calls_inv d"
    and mu: "mu = cmd_mu d \<or> cmd_mu d = None \<or> cmd_mu d = Some i"
    and pend: "p = pending d \<or> pending d = None \<and> p = Some i \<or> pending d = Some i \<and> p = None"
    and new: "call_inv (d\<lparr>calls := m, cmd_mu := mu, pending := p\<rparr>) i pc"
    and m: "m = (calls d)(i \<mapsto> pc)"
  shows "calls_inv (d\<lparr>calls := m, cmd_mu := mu, pending := p\<rparr>)"
  unfolding calls_inv_def
proof (intro conjI allI impI)
  fix j assume "pending (d\<lparr>calls := m, cmd_mu := mu, pending := p\<rparr>) = Some j"
  then show "calls (d\<lparr>calls := m, cmd_mu := mu, pending := p\<rparr>) j \<noteq> None"
    using pend inv m by (auto simp: calls_inv_def)
next
  fix j pc'
  assume j: "calls (d\<lparr>calls := m, cmd_mu := mu, pending := p\<rparr>) j = Some pc'"
  show "call_inv (d\<lparr>calls := m, cmd_mu := mu, pending := p\<rparr>) j pc'"
  proof (cases "j = i")
    case True
    with j new m show ?thesis by simp
  next
    case False
    with j m have "call_inv d j pc'" using inv by (simp add: calls_inv_def)
    with False mu pend show ?thesis by (auto simp: call_inv_def)
  qed
qed

lemma call_inv_simps:
  "call_inv (d\<lparr>calls := m, cmd_mu := mu, pending := p\<rparr>) i pc \<longleftrightarrow>
     (in_flight (pc_phase pc) \<longrightarrow> mu = Some i) \<and>
     (p = Some i \<longleftrightarrow> awaiting (pc_phase pc) \<and> pc_done pc = None) \<and>
     (pc_phase pc = Locked \<or> pc_phase pc = Checked \<longrightarrow> pc_done pc = None) \<and>
     not_busy (pc_phase pc) \<and> result_ok (pc_done pc)"
  by (simp add: call_inv_def)

text \<open>A send on \<open>done\<close> finds the pending call waiting and without a result.\<close>

lemma send_done_inv:
  assumes "calls_inv d" "pending d = Some i" "result_ok (Some r)"
  shows "calls_inv ((send_done i r d)\<lparr>pending := None\<rparr>)"
proof -
  obtain pc where pc: "calls d i = Some pc" "awaiting (pc_phase pc)" "pc_done pc = None"
    using assms(1,2) by (rule calls_inv_pending)
  have "calls_inv (d\<lparr>calls := (calls d)(i \<mapsto> pc\<lparr>pc_done := Some r\<rparr>), cmd_mu := cmd_mu d,
      pending := None\<rparr>)"
    using assms pc calls_invD [OF assms(1) pc(1)]
    by (intro calls_inv_update) (auto simp: call_inv_simps call_inv_def)
  then show ?thesis
    by (subst calls_inv_cong [of _ "d\<lparr>calls := (calls d)(i \<mapsto> pc\<lparr>pc_done := Some r\<rparr>),
          cmd_mu := cmd_mu d, pending := None\<rparr>"])
      (simp_all add: send_done_def pc)
qed

lemma send_done_pending: "(send_done i r (d\<lparr>pending := p\<rparr>)) = (send_done i r d)\<lparr>pending := p\<rparr>"
  by (simp add: send_done_def split: option.split)

lemma completePending_inv:
  assumes "calls_inv d" "err = None \<or> err = Some ErrClosed"
  shows "calls_inv (completePending ok fail err d)"
  using assms send_done_inv [of d _ "\<lparr>r_ok = ok, r_fail = fail, r_lines = _, r_err = err\<rparr>"]
  by (auto simp: completePending_def send_done_pending result_ok_def split: option.split)

lemma fail_pending_inv: "calls_inv d \<Longrightarrow> calls_inv (fail_pending d)"
  using send_done_inv [of d _ "\<lparr>r_ok = False, r_fail = [], r_lines = [], r_err = Some ErrClosed\<rparr>"]
  by (auto simp: fail_pending_def result_ok_def split: option.split)

lemma set_call_inv:
  assumes "calls_inv d" "calls d i = Some pc" "pc_phase pc' = pc_phase pc" "pc_done pc' = pc_done pc"
  shows "calls_inv (d\<lparr>calls := (calls d)(i \<mapsto> pc')\<rparr>)"
proof -
  have "calls_inv (d\<lparr>calls := (calls d)(i \<mapsto> pc'), cmd_mu := cmd_mu d, pending := pending d\<rparr>)"
    using assms calls_invD [OF assms(1,2)]
    by (intro calls_inv_update) (auto simp: call_inv_simps call_inv_def)
  then show ?thesis by (subst calls_inv_cong) auto
qed

lemma response_line_inv: "calls_inv d \<Longrightarrow> calls_inv (response_line line d)"
  by (auto simp: response_line_def intro: set_call_inv split: option.split)

lemma dispatch_line_inv: "calls_inv d \<Longrightarrow> calls_inv (dispatch_line line d)"
  by (simp add: dispatch_line_def completePending_inv response_line_inv)

lemma handleLine_inv: "calls_inv d \<Longrightarrow> calls_inv (handleLine line d)"
  by (auto simp: handleLine_def dispatch_line_inv split: option.split)

lemma read_line_inv: "calls_inv d \<Longrightarrow> calls_inv (read_line line d)"
  by (simp add: read_line_def handleLine_inv)

text \<open>What a caller does to its own call.\<close>

lemma phase_of_Some:
  "phase_of d i = Some ph \<longleftrightarrow> (\<exists>pc. calls d i = Some pc \<and> pc_phase pc = ph)"
  by (auto simp: phase_of_def)

lemma set_phase_Some:
  "calls d i = Some pc \<Longrightarrow> set_phase i ph d = d\<lparr>calls := (calls d)(i \<mapsto> pc\<lparr>pc_phase := ph\<rparr>)\<rparr>"
  by (simp add: set_phase_def)

lemma return_cmd_inv:
  assumes "calls_inv d" "calls d i = Some pc" "in_flight (pc_phase pc)" "err \<noteq> Some ErrBusy"
  shows "calls_inv (return_cmd i resp err d)"
proof -
  let ?pc = "pc\<lparr>pc_phase := Returned resp err\<rparr>"
  have "calls_inv (d\<lparr>calls := (calls d)(i \<mapsto> ?pc), cmd_mu := None,
      pending := (if pending d = Some i then None else pending d)\<rparr>)"
    using assms calls_invD [OF assms(1,2)]
    by (intro calls_inv_update) (auto simp: call_inv_simps call_inv_def)
  then show ?thesis
    by (subst calls_inv_cong [where d' = "d\<lparr>calls := (calls d)(i \<mapsto> ?pc), cmd_mu := None,
          pending := (if pending d = Some i then None else pending d)\<rparr>"])
      (simp_all add: return_cmd_def set_phase_Some [OF assms(2)])
qed

lemma acquire_cmd_inv:
  assumes "calls_inv d" "cmd_mu d = None" "calls d i = None"
  shows "calls_inv (acquire_cmd i line payload d)"
proof -
  let ?pc = "\<lparr>pc_cmd = line, pc_payload = payload, pc_resp = [], pc_done = None,
      pc_phase = Locked\<rparr>"
  have "calls_inv (d\<lparr>calls := (calls d)(i \<mapsto> ?pc), cmd_mu := Some i, pending := pending d\<rparr>)"
    using assms by (intro calls_inv_update) (auto simp: call_inv_def result_ok_def calls_inv_def)
  then show ?thesis by (subst calls_inv_cong) (auto simp: acquire_cmd_def)
qed

lemma set_phase_inv:
  assumes "calls_inv d" "calls d i = Some pc" "in_flight (pc_phase pc)" "in_flight ph"
    and "not_busy ph" "awaiting (pc_phase pc) \<longleftrightarrow> awaiting ph"
  shows "calls_inv (set_phase i ph d)"
proof -
  have "calls_inv (d\<lparr>calls := (calls d)(i \<mapsto> pc\<lparr>pc_phase := ph\<rparr>), cmd_mu := cmd_mu d,
      pending := pending d\<rparr>)"
    using assms calls_invD [OF assms(1,2)]
    by (intro calls_inv_update; cases "pc_phase pc") (auto simp: call_inv_simps call_inv_def)
  then show ?thesis
    by (subst calls_inv_cong) (auto simp: set_phase_Some [OF assms(2)])
qed

lemma check_closed_inv:
  "calls_inv d \<Longrightarrow> phase_of d i = Some Locked \<Longrightarrow> calls_inv (check_closed i d)"
  by (auto simp: check_closed_def phase_of_Some intro!: return_cmd_inv set_phase_inv)

lemma no_pending_when_checked:
  assumes "calls_inv d" "phase_of d i = Some Checked"
  shows "pending d = None"
proof (rule ccontr)
  assume "pending d \<noteq> None"
  then obtain j where j: "pending d = Some j" by auto
  obtain pc where pc: "calls d j = Some pc" "awaiting (pc_phase pc)"
    using assms(1) j by (rule calls_inv_pending)
  from assms(2) obtain pc' where pc': "calls d i = Some pc'" "pc_phase pc' = Checked"
    by (auto simp: phase_of_Some)
  have "cmd_mu d = Some j" "cmd_mu d = Some i"
    using calls_invD [OF assms(1) pc(1)] calls_invD [OF assms(1) pc'(1)] pc pc'
    by (auto simp: call_inv_def dest: awaiting_in_flight)
  with pc pc' show False by simp
qed

lemma register_cmd_inv:
  assumes "calls_inv d" "phase_of d i = Some Checked"
  shows "calls_inv (register_cmd i d)"
proof -
  obtain pc where pc: "calls d i = Some pc" "pc_phase pc = Checked"
    using assms(2) by (auto simp: phase_of_Some)
  have none: "pending d = None" using assms by (rule no_pending_when_checked)
  have "calls_inv (d\<lparr>calls := (calls d)(i \<mapsto> pc\<lparr>pc_phase := Registered\<rparr>), cmd_mu := cmd_mu d,
      pending := Some i\<rparr>)"
    using assms pc none calls_invD [OF assms(1) pc(1)]
    by (intro calls_inv_update) (auto simp: call_inv_simps call_inv_def)
  then show ?thesis
    by (subst calls_inv_cong) (auto simp: register_cmd_def none set_phase_def pc)
qed

lemma writeCommand_inv:
  assumes "calls_inv d" "phase_of d i = Some Registered"
  shows "calls_inv (writeCommand i werr d)"
proof -
  obtain pc where pc: "calls d i = Some pc" "pc_phase pc = Registered"
    using assms(2) by (auto simp: phase_of_Some)
  then show ?thesis
    using assms(1) by (auto simp: writeCommand_def Let_def split: option.split
        intro!: return_cmd_inv set_phase_inv)
qed

lemma finish_done_inv:
  assumes "calls_inv d" "calls d i = Some pc" "pc_phase pc = Waiting" "pc_done pc = Some r"
  shows "calls_inv (finish_done i r d)"
  using assms calls_invD [OF assms(1,2)] unfolding finish_done_def
  by (intro return_cmd_inv) (auto simp: call_inv_def result_ok_def result_of_def)

section \<open>The shared fields\<close>

lemma scrubbed_redact [simp]: "scrubbed (redactCredential s)"
  using redact_password redact_rbid by (auto simp: scrubbed_def)

lemma pushEvent_shared: "shared_inv d \<Longrightarrow> shared_inv (pushEvent ev d)"
  using event_chan.items_bound [of d ev] by (simp add: shared_inv_def)

lemma frame_shared:
  "shared_inv (send_done i r d) \<longleftrightarrow> shared_inv d"
  "shared_inv (set_phase i ph d) \<longleftrightarrow> shared_inv d"
  "shared_inv (return_cmd i ls e d) \<longleftrightarrow> shared_inv d"
  "shared_inv (d\<lparr>pending := p\<rparr>) \<longleftrightarrow> shared_inv d"
  "shared_inv (d\<lparr>cmd_mu := mu\<rparr>) \<longleftrightarrow> shared_inv d"
  "shared_inv (d\<lparr>calls := m\<rparr>) \<longleftrightarrow> shared_inv d"
  "shared_inv (d\<lparr>wire := w\<rparr>) \<longleftrightarrow> shared_inv d"
  "shared_inv (d\<lparr>epan_buf := b\<rparr>) \<longleftrightarrow> shared_inv d"
  "shared_inv (d\<lparr>dlog := dlog d @ [redactCredential s]\<rparr>) \<longleftrightarrow> shared_inv d"
  by (auto simp: shared_inv_def send_done_def set_phase_def return_cmd_def split: option.split)

lemma completePending_shared: "shared_inv d \<Longrightarrow> shared_inv (completePending ok fail err d)"
  by (simp add: completePending_def frame_shared split: option.split)

lemma fail_pending_shared: "shared_inv (fail_pending d) \<longleftrightarrow> shared_inv d"
  by (simp add: fail_pending_def frame_shared split: option.split)

lemma dispatch_line_shared: "shared_inv d \<Longrightarrow> shared_inv (dispatch_line line d)"
  by (auto simp: dispatch_line_def response_line_def frame_shared completePending_shared
      pushEvent_shared split: option.split)

lemma read_line_shared: "shared_inv d \<Longrightarrow> shared_inv (read_line line d)"
  by (auto simp: read_line_def handleLine_def frame_shared dispatch_line_shared pushEvent_shared
      split: option.split)

lemma fail_pending_frame [simp]:
  "closed (fail_pending d) = closed d" "close_once (fail_pending d) = close_once d"
  "closing (fail_pending d) = closing d" "events (fail_pending d) = events d"
  "event_cap (fail_pending d) = event_cap d" "dlog (fail_pending d) = dlog d"
  by (simp_all add: fail_pending_def send_done_def split: option.split)

lemma read_end_shared: "shared_inv d \<Longrightarrow> shared_inv (read_end err d)"
  by (auto simp: read_end_def Let_def shared_inv_def split: option.split)

lemma read_end_calls: "calls_inv d \<Longrightarrow> calls_inv (read_end err d)"
proof -
  assume inv: "calls_inv d"
  have "calls_inv (fail_pending d')" if "calls d' = calls d" "pending d' = pending d"
    "cmd_mu d' = cmd_mu d" for d'
    using inv that calls_inv_cong [of d' d] fail_pending_inv by blast
  then show ?thesis
    by (auto simp: read_end_def Let_def split: option.split)
qed

section \<open>Every step keeps the invariant\<close>

lemma drv_step_calls: "drv_step d d' \<Longrightarrow> calls_inv d \<Longrightarrow> calls_inv d'"
proof (induction rule: drv_step.induct)
  case (step_result d i r)
  then obtain pc where "calls d i = Some pc" "pc_phase pc = Waiting" "pc_done pc = Some r"
    by (auto simp: phase_of_Some Option.bind_eq_Some_conv)
  with step_result show ?case by (blast intro: finish_done_inv)
next
  case (step_ctx_done d i)
  then show ?case
    unfolding finish_timeout_def phase_of_Some by (auto intro!: return_cmd_inv)
next
  case (step_see_closed d i)
  then show ?case
    unfolding finish_closed_def phase_of_Some by (auto intro!: return_cmd_inv)
next
  case (step_close d)
  then show ?case by (simp add: close_begin_def)
next
  case (step_close_fail d)
  then show ?case by (simp add: close_fail_def fail_pending_inv)
qed (simp_all add: acquire_cmd_inv check_closed_inv register_cmd_inv writeCommand_inv
    read_line_inv read_end_calls)

lemma drv_step_shared: "drv_step d d' \<Longrightarrow> shared_inv d \<Longrightarrow> shared_inv d'"
proof (induction rule: drv_step.induct)
  case (step_acquire d i line payload)
  then show ?case by (simp add: acquire_cmd_def shared_inv_def)
next
  case (step_check d i)
  then show ?case by (simp add: check_closed_def frame_shared)
next
  case (step_register d i)
  then show ?case by (simp add: register_cmd_def frame_shared)
next
  case (step_write d i werr)
  then show ?case
    by (auto simp: writeCommand_def Let_def frame_shared shared_inv_def split: option.split
        simp: set_phase_def return_cmd_def)
next
  case (step_close d)
  then show ?case by (auto simp: close_begin_def shared_inv_def)
next
  case (step_close_fail d)
  then show ?case
    using fail_pending_shared [of d] by (auto simp: close_fail_def shared_inv_def)
next
  case (step_receive d ev evs)
  then show ?case by (auto simp: shared_inv_def)
qed (simp_all add: finish_done_def finish_timeout_def finish_closed_def frame_shared
    read_line_shared read_end_shared)

interpretation drv: step_system drv_init drv_step drv_inv
proof unfold_locales
  show "drv_inv d" if "drv_init d" for d
    using that by (auto simp: drv_init_def new_driver_def drv_inv_def calls_inv_def shared_inv_def)
  show "drv_inv d'" if "drv_inv d" "drv_step d d'" for d d'
    using that drv_step_calls drv_step_shared by (simp add: drv_inv_def)
qed

lemmas drv_reachable = drv.reachable_invar [unfolded drv_inv_def]

section \<open>Properties of the driver\<close>

text \<open>Reachable states to apply the properties at.\<close>

definition demo_waiting :: driver where
  "demo_waiting = writeCommand 0 None (register_cmd 0 (check_closed 0
     (acquire_cmd 0 ''SKINFO'' [] (new_driver 1))))"

definition demo_answered :: driver where
  "demo_answered = finish_done 0 \<lparr>r_ok = True, r_fail = [], r_lines = [], r_err = None\<rparr>
     (read_line ''OK'' demo_waiting)"

lemmas driver_eval = new_driver_def acquire_cmd_def check_closed_def register_cmd_def
  writeCommand_def set_phase_def return_cmd_def phase_of_def close_begin_def

lemma demo_waiting_eval:
  "demo_waiting = (new_driver 1)\<lparr>cmd_mu := Some 0, pending := Some 0,
     calls := [0 \<mapsto> \<lparr>pc_cmd = ''SKINFO'', pc_payload = [], pc_resp = [], pc_done = None,
       pc_phase = Waiting\<rparr>],
     wire := [''SKINFO'' @ [CHR 0x0D, CHR 0x0A]], dlog := [''SKINFO'']\<rparr>"
  by (simp add: demo_waiting_def driver_eval redactCredential_def has_prefix_def)

lemma reachable_demo_waiting: "reachable drv_init drv_step demo_waiting"
proof -
  let ?a = "acquire_cmd 0 ''SKINFO'' [] (new_driver 1)"
  have "reachable drv_init drv_step (new_driver 1)"
    by (rule reachable.start) (auto simp: drv_init_def)
  then have "reachable drv_init drv_step ?a"
    by (rule reachable.next_state) (rule step_acquire; simp add: new_driver_def)
  then have "reachable drv_init drv_step (check_closed 0 ?a)"
    by (rule reachable.next_state) (rule step_check; simp add: driver_eval)
  then have "reachable drv_init drv_step (register_cmd 0 (check_closed 0 ?a))"
    by (rule reachable.next_state) (rule step_register; simp add: driver_eval)
  then show ?thesis unfolding demo_waiting_def
    by (rule reachable.next_state) (rule step_write; simp add: driver_eval)
qed

lemma read_ok_demo_waiting:
  "read_line ''OK'' demo_waiting = (new_driver 1)\<lparr>cmd_mu := Some 0,
     calls := [0 \<mapsto> \<lparr>pc_cmd = ''SKINFO'', pc_payload = [], pc_resp = [],
       pc_done = Some \<lparr>r_ok = True, r_fail = [], r_lines = [], r_err = None\<rparr>,
       pc_phase = Waiting\<rparr>],
     wire := [''SKINFO'' @ [CHR 0x0D, CHR 0x0A]], dlog := [''SKINFO'', ''OK'']\<rparr>"
  by (simp add: demo_waiting_eval read_line_def handleLine_def dispatch_line_def is_ok_line_def
      completePending_def send_done_def call_resp_def new_driver_def redactCredential_def
      has_prefix_def)

lemma reachable_demo_answered: "reachable drv_init drv_step demo_answered"
proof -
  have "reachable drv_init drv_step (read_line ''OK'' demo_waiting)"
    using reachable_demo_waiting
    by (rule reachable.next_state)
      (rule step_read; simp add: demo_waiting_eval new_driver_def)
  then show ?thesis unfolding demo_answered_def
    by (rule reachable.next_state)
      (rule step_result; simp add: read_ok_demo_waiting phase_of_def)
qed

lemma demo_answered_phase: "phase_of demo_answered 0 = Some (Returned [] None)"
  by (simp add: demo_answered_def read_ok_demo_waiting finish_done_def result_of_def
      return_cmd_def set_phase_def phase_of_def)

text \<open>
  C18: Calls of \<open>Command\<close> and \<open>CommandBinary\<close> exclude each other, whatever the interleaving
  of callers, reader and \<open>Close\<close>: two calls that are in flight are the same call, and since
  a call only registers under \<open>cmdMu\<close>, no call ever returns \<open>ErrBusy\<close>.
\<close>

theorem commands_exclusive:
  assumes "reachable drv_init drv_step d"
  shows "(\<forall>i j p q. phase_of d i = Some p \<and> phase_of d j = Some q \<and> in_flight p \<and> in_flight q
      \<longrightarrow> i = j)
    \<and> (\<forall>i ls. phase_of d i \<noteq> Some (Returned ls (Some ErrBusy)))"
proof -
  have inv: "calls_inv d" using drv_reachable [OF assms] by simp
  have mu: "cmd_mu d = Some i" if "phase_of d i = Some p" "in_flight p" for i p
    using that calls_invD [OF inv] by (auto simp: phase_of_Some call_inv_def)
  have busy: "phase_of d i \<noteq> Some (Returned ls (Some ErrBusy))" for i ls
    using calls_invD [OF inv] by (fastforce simp: phase_of_Some call_inv_def)
  show ?thesis
  proof (intro conjI allI impI)
    fix i j p q
    assume "phase_of d i = Some p \<and> phase_of d j = Some q \<and> in_flight p \<and> in_flight q"
    then have "cmd_mu d = Some i" "cmd_mu d = Some j" using mu by blast+
    then show "i = j" by simp
  qed (rule busy)
qed

theorem commands_exclusive_witness: "phase_of demo_waiting 0 \<noteq> Some (Returned [] (Some ErrBusy))"
  using commands_exclusive [OF reachable_demo_waiting] by blast

text \<open>
  C6: No answer is lost and none is delivered twice: in every reachable state a call is
  the driver's \<open>pending\<close> command exactly when it has registered, has not returned and has
  no result yet, so the non-blocking send on its \<open>done\<close> channel, which would drop the
  result of a full channel, always finds the channel empty.
\<close>

theorem pending_iff_unanswered:
  assumes "reachable drv_init drv_step d"
  shows "pending d = Some i \<longleftrightarrow>
    (\<exists>pc. calls d i = Some pc \<and> awaiting (pc_phase pc) \<and> pc_done pc = None)"
proof
  have inv: "calls_inv d" using drv_reachable [OF assms] by simp
  show "\<exists>pc. calls d i = Some pc \<and> awaiting (pc_phase pc) \<and> pc_done pc = None"
    if "pending d = Some i" using inv that by (rule calls_inv_pending) blast
  show "pending d = Some i"
    if "\<exists>pc. calls d i = Some pc \<and> awaiting (pc_phase pc) \<and> pc_done pc = None"
    using that calls_invD [OF inv] by (auto simp: call_inv_def)
qed

theorem pending_iff_unanswered_witness: "pending demo_waiting = Some 0 \<and> pending demo_answered \<noteq> Some 0"
  using pending_iff_unanswered [OF reachable_demo_waiting, of 0]
    pending_iff_unanswered [OF reachable_demo_answered, of 0] demo_answered_phase
  by (auto simp: demo_waiting_eval phase_of_Some)

text \<open>
  C25: The event channel: in every reachable state it holds at most its capacity, so the
  reader is never blocked by a slow consumer; and once the reader has closed it, no step
  sends on it again (which would panic): what remains in it is only taken out.
\<close>

theorem event_channel_safe:
  assumes "reachable drv_init drv_step d"
  shows "length (events d) \<le> event_cap d
    \<and> (events_closed d \<and> drv_step d d' \<longrightarrow> suffix (events d') (events d))"
proof (intro conjI impI)
  have inv: "shared_inv d" using drv_reachable [OF assms] by simp
  then show "length (events d) \<le> event_cap d" by (simp add: shared_inv_def)
  have ev: "events (fail_pending x) = events x" "events (return_cmd i ls e x) = events x"
    "events (set_phase i ph x) = events x" for x i ls e ph
    by (simp_all add: return_cmd_def set_phase_def split: option.split)
  assume "events_closed d \<and> drv_step d d'"
  then have "drv_step d d'" "reader_done d" using inv by (auto simp: shared_inv_def)
  then show "suffix (events d') (events d)"
    by cases (auto simp: acquire_cmd_def check_closed_def register_cmd_def writeCommand_def
        finish_done_def finish_timeout_def finish_closed_def close_begin_def close_fail_def
        ev suffix_ConsI Let_def split: option.split)
qed

theorem event_channel_safe_witness: "length (events demo_waiting) \<le> event_cap demo_waiting"
  using event_channel_safe [OF reachable_demo_waiting, of demo_waiting] by blast


definition demo_password :: driver where
  "demo_password = read_line ''SKSETPWD C SECRET'' (new_driver 1)"


end
