(* ===== verification/Sk_Driver_Demux.thy ===== *)
theory Sk_Driver_Demux
  imports Sk_Driver_Safety
begin

text \<open>
  What the reader of \<open>internal/bp35c2/driver.go\<close> makes of the lines between a command and
  its terminal line: a reference that splits them into asynchronous events and response
  lines, and the proof that \<open>handleLine\<close>, line by line, computes the same. Also what a
  late answer does to the next command, and what a clean end of the stream leaves behind.
\<close>

section \<open>The reference\<close>

definition async_line :: "string \<Rightarrow> bool" where
  "async_line l \<longleftrightarrow> has_prefix l ''EVENT '' \<or> has_prefix l ''ERXUDP '' \<or>
     has_prefix l ''ERXTCP '' \<or> has_prefix l ''ETIMER''"

definition async_event :: "string \<Rightarrow> event" where
  "async_event l =
     (if has_prefix l ''EVENT '' then parseEvent ''EVENT'' l
      else if has_prefix l ''ERXUDP '' then parseERXUDP l
      else parseEvent (first_word l) l)"

definition terminal_line :: "string \<Rightarrow> bool" where
  "terminal_line l \<longleftrightarrow> is_ok_line l \<or> has_prefix l ''FAIL ''"

text \<open>An \<open>EPANDESC\<close> header takes the indented rows after it; the lines outside the blocks.\<close>

function events_of :: "string list \<Rightarrow> event list" where
  "events_of [] = []"
| "events_of (l # ls) =
     (if l = ''EPANDESC'' then
        buildEPANDESC (l # takeWhile starts_indented ls) # events_of (dropWhile starts_indented ls)
      else if async_line l then async_event l # events_of ls
      else events_of ls)"
  by pat_completeness auto
termination
  by (relation "measure length") (auto simp: le_imp_less_Suc length_dropWhile_le)

function response_of :: "string \<Rightarrow> string list \<Rightarrow> string list" where
  "response_of cmd [] = []"
| "response_of cmd (l # ls) =
     (if l = ''EPANDESC'' then response_of cmd (dropWhile starts_indented ls)
      else if async_line l \<or> l = cmd then response_of cmd ls
      else l # response_of cmd ls)"
  by pat_completeness auto
termination
  by (relation "measure (\<lambda>(cmd, ls). length ls)") (auto simp: le_imp_less_Suc length_dropWhile_le)

definition term_error :: "string \<Rightarrow> drv_error option" where
  "term_error t =
     (if is_ok_line t then None else Some (FailError (trim_space (trim_prefix t ''FAIL ''))))"

definition term_result :: "string \<Rightarrow> string list \<Rightarrow> cmd_result" where
  "term_result t ls =
     \<lparr>r_ok = is_ok_line t,
      r_fail = (if is_ok_line t then [] else trim_space (trim_prefix t ''FAIL '')),
      r_lines = ls, r_err = None\<rparr>"

lemma result_of_term [simp]: "result_of (term_result t ls) = (ls, term_error t)"
  by (simp add: result_of_def term_result_def term_error_def)

section \<open>One line\<close>

lemma pushEvent_dlog: "pushEvent ev (d\<lparr>dlog := x\<rparr>) = (pushEvent ev d)\<lparr>dlog := x\<rparr>"
  by (simp add: pushEvent_def Let_def)

lemma terminal_line_cases:
  assumes "terminal_line t"
  shows "\<not> starts_indented t" "t \<noteq> ''EPANDESC''"
  using assms
  by (cases t; auto simp: terminal_line_def is_ok_line_def starts_indented_def has_prefix_def)+

text \<open>A line that is not indented ends a block: as if the block had been emitted before it.\<close>

lemma read_line_flush:
  assumes "epan_buf d = Some buf" "\<not> starts_indented l"
  shows "read_line l d = read_line l (pushEvent (buildEPANDESC buf) (d\<lparr>epan_buf := None\<rparr>))"
proof -
  let ?log = "dlog d @ [redactCredential l]" and ?ev = "buildEPANDESC buf"
  have "d\<lparr>dlog := ?log, epan_buf := None\<rparr> = d\<lparr>epan_buf := None, dlog := ?log\<rparr>" by simp
  then have "pushEvent ?ev (d\<lparr>dlog := ?log, epan_buf := None\<rparr>) =
      (pushEvent ?ev (d\<lparr>epan_buf := None\<rparr>))\<lparr>dlog := ?log\<rparr>"
    by (metis pushEvent_dlog)
  with assms show ?thesis by (simp add: read_line_def handleLine_def)
qed

lemma read_block:
  "epan_buf d = Some buf \<Longrightarrow> list_all starts_indented ls \<Longrightarrow>
     fold read_line ls d =
       d\<lparr>epan_buf := Some (buf @ ls), dlog := dlog d @ map redactCredential ls\<rparr>"
  by (induction ls arbitrary: d buf) (simp_all add: read_line_def handleLine_def)

lemma read_line_header:
  assumes "epan_buf d = None"
  shows "read_line ''EPANDESC'' d =
    d\<lparr>epan_buf := Some [''EPANDESC''], dlog := dlog d @ [''EPANDESC'']\<rparr>"
  using assms by (simp add: read_line_def handleLine_def dispatch_line_def is_ok_line_def
      redactCredential_def has_prefix_def)

lemma read_line_async:
  assumes "epan_buf d = None" "async_line l" "\<not> terminal_line l"
  shows "read_line l d =
    pushEvent (async_event l) (d\<lparr>dlog := dlog d @ [redactCredential l]\<rparr>)"
proof -
  have "l \<noteq> ''EPANDESC''" using assms(2) by (auto simp: async_line_def has_prefix_def)
  with assms show ?thesis
    by (auto simp: read_line_def handleLine_def dispatch_line_def async_line_def async_event_def
        terminal_line_def)
qed

lemma read_line_response:
  assumes "epan_buf d = None" "\<not> async_line l" "\<not> terminal_line l" "l \<noteq> ''EPANDESC''"
  shows "read_line l d = response_line l (d\<lparr>dlog := dlog d @ [redactCredential l]\<rparr>)"
  using assms
  by (simp add: read_line_def handleLine_def dispatch_line_def async_line_def terminal_line_def)

lemma read_line_terminal:
  assumes "epan_buf d = None" "terminal_line t" "pending d = Some i" "calls d i = Some pc"
    "pc_done pc = None"
  shows "read_line t d = d\<lparr>pending := None, dlog := dlog d @ [redactCredential t],
    calls := (calls d)(i \<mapsto> pc\<lparr>pc_done := Some (term_result t (pc_resp pc))\<rparr>)\<rparr>"
  using assms
  by (auto simp: read_line_def handleLine_def dispatch_line_def terminal_line_def term_result_def
      completePending_def send_done_def call_resp_def)

section \<open>All the lines of a command\<close>

definition answered :: "nat \<Rightarrow> pending_cmd \<Rightarrow> string list \<Rightarrow> string \<Rightarrow> driver \<Rightarrow> driver \<Rightarrow> bool" where
  "answered i pc body t d d' \<longleftrightarrow>
     pending d' = None \<and> epan_buf d' = None \<and> events d' = events d @ events_of body \<and>
     (let resp = pc_resp pc @ response_of (pc_cmd pc) body
      in calls d' = (calls d)(i \<mapsto> pc\<lparr>pc_resp := resp, pc_done := Some (term_result t resp)\<rparr>))"

lemma push_room:
  "length (events d) < event_cap d \<Longrightarrow> events (pushEvent ev d) = events d @ [ev]"
  by (rule event_chan.items_room)

lemma fold_same_head: "f x d = f x d' \<Longrightarrow> fold f (x # xs) d = fold f (x # xs) d'"
  by simp

text \<open>The rows of a block are read, then the block is emitted by the line that follows.\<close>

lemma read_epandesc_block:
  assumes "epan_buf d = None" "terminal_line t"
  shows "\<exists>log. fold read_line (''EPANDESC'' # ls @ [t]) d =
    fold read_line (dropWhile starts_indented ls @ [t])
      (pushEvent (buildEPANDESC (''EPANDESC'' # takeWhile starts_indented ls)) (d\<lparr>dlog := log\<rparr>))"
proof -
  let ?rows = "takeWhile starts_indented ls" and ?rest = "dropWhile starts_indented ls @ [t]"
  let ?d = "(read_line ''EPANDESC'' d)\<lparr>epan_buf := Some (''EPANDESC'' # ?rows),
      dlog := dlog d @ ''EPANDESC'' # map redactCredential ?rows\<rparr>"
  obtain l rest where rest: "?rest = l # rest" "\<not> starts_indented l"
    using terminal_line_cases(1) [OF assms(2)]
    by (cases "dropWhile starts_indented ls") (auto simp: dropWhile_eq_Cons_conv)
  have "''EPANDESC'' # ls @ [t] = ''EPANDESC'' # ?rows @ ?rest"
    by (simp del: append_assoc flip: append_assoc)
  then have "fold read_line (''EPANDESC'' # ls @ [t]) d =
      fold read_line ?rest (fold read_line ?rows (read_line ''EPANDESC'' d))"
    by (simp only: fold_append fold_simps comp_apply)
  also have "fold read_line ?rows (read_line ''EPANDESC'' d) = ?d"
  proof -
    have "list_all starts_indented ?rows"
      by (auto simp: list_all_iff dest: set_takeWhileD)
    then show ?thesis
      using read_block [of "read_line ''EPANDESC'' d" "[''EPANDESC'']" ?rows] assms(1)
      by (simp add: read_line_header)
  qed
  also have "fold read_line ?rest ?d = fold read_line ?rest
      (pushEvent (buildEPANDESC (''EPANDESC'' # ?rows)) (?d\<lparr>epan_buf := None\<rparr>))"
    unfolding rest(1) using rest(2) by (intro fold_same_head read_line_flush) simp_all
  also have "?d\<lparr>epan_buf := None\<rparr> =
      d\<lparr>dlog := dlog d @ ''EPANDESC'' # map redactCredential ?rows\<rparr>"
    using assms(1) by (simp add: read_line_header)
  finally show ?thesis by blast
qed

lemma fold_read_lines:
  assumes "terminal_line t" "list_all (\<lambda>l. \<not> terminal_line l) body"
    and "epan_buf d = None" "pending d = Some i" "calls d i = Some pc" "pc_done pc = None"
    and "length (events d) + length (events_of body) \<le> event_cap d"
  shows "answered i pc body t d (fold read_line (body @ [t]) d)"
  using assms(2-)
proof (induction body arbitrary: d pc rule: events_of.induct)
  case 1
  then show ?case
    using assms(1) by (simp add: answered_def read_line_terminal)
next
  case (2 l ls)
  show ?case
  proof (cases "l = ''EPANDESC''")
    case True
    obtain log where log: "fold read_line (''EPANDESC'' # ls @ [t]) d =
      fold read_line (dropWhile starts_indented ls @ [t])
        (pushEvent (buildEPANDESC (''EPANDESC'' # takeWhile starts_indented ls)) (d\<lparr>dlog := log\<rparr>))"
      using read_epandesc_block [OF "2.prems"(2) assms(1)] by blast
    let ?d = "pushEvent (buildEPANDESC (''EPANDESC'' # takeWhile starts_indented ls)) (d\<lparr>dlog := log\<rparr>)"
    have ev: "events ?d =
        events d @ [buildEPANDESC (''EPANDESC'' # takeWhile starts_indented ls)]"
      using "2.prems"(6) True by (subst push_room) simp_all
    have "answered i pc (dropWhile starts_indented ls) t ?d
        (fold read_line (dropWhile starts_indented ls @ [t]) ?d)"
      using True "2.prems" ev
      by (intro "2.IH"(1)) (auto simp: list_all_iff dest: set_dropWhileD)
    then show ?thesis
      using True log ev by (simp add: answered_def)
  next
    case not_header: False
    show ?thesis
    proof (cases "async_line l")
      case True
      let ?d = "pushEvent (async_event l) (d\<lparr>dlog := dlog d @ [redactCredential l]\<rparr>)"
      have ev: "events ?d = events d @ [async_event l]"
        using "2.prems"(6) True not_header by (subst push_room) simp_all
      have "answered i pc ls t ?d (fold read_line (ls @ [t]) ?d)"
        using True not_header "2.prems" ev by (intro "2.IH"(2)) auto
      moreover have "read_line l d = ?d"
        using True "2.prems" by (intro read_line_async) auto
      ultimately show ?thesis
        using True not_header ev by (simp add: answered_def)
    next
      case False
      define d' pc' where "d' = read_line l d"
        and "pc' = (if l = pc_cmd pc then pc else pc\<lparr>pc_resp := pc_resp pc @ [l]\<rparr>)"
      have d': "calls d' = (calls d)(i \<mapsto> pc')" "pending d' = Some i" "epan_buf d' = None"
        "events d' = events d" "event_cap d' = event_cap d"
        using False not_header "2.prems" unfolding d'_def pc'_def
        by (auto simp: read_line_response response_line_def)
      have "answered i pc' ls t d' (fold read_line (ls @ [t]) d')"
        using False not_header "2.prems" d' by (intro "2.IH"(3)) (auto simp: pc'_def)
      moreover have "fold read_line ((l # ls) @ [t]) d = fold read_line (ls @ [t]) d'"
        by (simp add: d'_def)
      ultimately show ?thesis
        using False not_header d'
        by (cases "l = pc_cmd pc") (simp_all add: answered_def Let_def pc'_def)
    qed
  qed
qed

section \<open>Properties\<close>

text \<open>
  C1: Demultiplexing. While a command waits, let its module answer with any lines that are
  not terminal, interleaved with events and \<open>EPANDESC\<close> blocks in any order, then with
  \<open>OK\<close> or \<open>FAIL\<close>: the events are queued in order of arrival, each block as one
  event, and the call returns exactly the other lines, in order and without the echo of
  the command, with \<open>nil\<close> for \<open>OK\<close> and \<open>FailError\<close> with the module's code for \<open>FAIL\<close>.
\<close>

theorem command_demultiplexed:
  assumes "terminal_line t" "list_all (\<lambda>l. \<not> terminal_line l) body"
    and "epan_buf d = None" "pending d = Some i" "calls d i = Some pc"
    and "pc_done pc = None" "pc_resp pc = []"
    and "length (events d) + length (events_of body) \<le> event_cap d"
  shows "\<exists>r. Option.bind (calls (fold read_line (body @ [t]) d) i) pc_done = Some r
    \<and> phase_of (finish_done i r (fold read_line (body @ [t]) d)) i =
        Some (Returned (response_of (pc_cmd pc) body) (term_error t))
    \<and> events (fold read_line (body @ [t]) d) = events d @ events_of body"
proof -
  let ?d = "fold read_line (body @ [t]) d"
  have "answered i pc body t d ?d" using assms by (intro fold_read_lines)
  then have "calls ?d i = Some (pc\<lparr>pc_resp := response_of (pc_cmd pc) body,
      pc_done := Some (term_result t (response_of (pc_cmd pc) body))\<rparr>)"
    "events ?d = events d @ events_of body"
    using assms(7) by (simp_all add: answered_def Let_def)
  then show ?thesis
    by (simp add: finish_done_def return_cmd_def set_phase_def phase_of_def)
qed

definition demo_lines :: "string list" where
  "demo_lines = [''SKINFO'', ''EVENT 21 FE80'', ''EINFO FE80'']"

lemma demo_lines_eval:
  "events_of demo_lines = [parseEvent ''EVENT'' ''EVENT 21 FE80'']"
  "response_of ''SKINFO'' demo_lines = [''EINFO FE80'']"
  by (simp_all add: demo_lines_def async_line_def async_event_def has_prefix_def)

theorem command_demultiplexed_witness:
  "\<exists>r. phase_of (finish_done 0 r (fold read_line (demo_lines @ [''FAIL ER04'']) demo_waiting)) 0 =
     Some (Returned [''EINFO FE80''] (Some (FailError ''ER04'')))"
proof -
  have "terminal_line ''FAIL ER04''" "term_error ''FAIL ER04'' = Some (FailError ''ER04'')"
    "list_all (\<lambda>l. \<not> terminal_line l) demo_lines"
    by (code_simp)+
  then show ?thesis
    using command_demultiplexed [of "''FAIL ER04''" demo_lines demo_waiting 0
        "\<lparr>pc_cmd = ''SKINFO'', pc_payload = [], pc_resp = [], pc_done = None, pc_phase = Waiting\<rparr>"]
    by (simp add: demo_lines_eval demo_waiting_eval new_driver_def) blast
qed

definition late_answer :: "nat \<Rightarrow> nat \<Rightarrow> string \<Rightarrow> driver \<Rightarrow> driver" where
  "late_answer i j line d =
     finish_done j (term_result ''OK'' [])
       (read_line ''OK''
         (writeCommand j None (register_cmd j (check_closed j
           (acquire_cmd j line [] (finish_timeout i d))))))"

lemma late_answer_step:
  assumes d: "pending d = Some i" "calls d i = Some pc" "epan_buf d = None" "\<not> closed d"
    and j: "calls d j = None"
  shows "late_answer i j line d =
    d\<lparr>pending := None, cmd_mu := None,
      wire := wire d @ [line @ [CHR 0x0D, CHR 0x0A]],
      dlog := dlog d @ [redactCredential line, ''OK''],
      calls := (calls d)(i \<mapsto> pc\<lparr>pc_phase := Returned [] (Some ErrTimeout)\<rparr>,
        j \<mapsto> \<lparr>pc_cmd = line, pc_payload = [], pc_resp = [],
          pc_done = Some (term_result ''OK'' []), pc_phase = Returned [] None\<rparr>)\<rparr>"
proof -
  have ij: "i \<noteq> j" using d j by auto
  let ?d1 = "finish_timeout i d"
  have "writeCommand j None (register_cmd j (check_closed j (acquire_cmd j line [] ?d1))) =
    d\<lparr>pending := Some j, cmd_mu := Some j, wire := wire d @ [line @ [CHR 0x0D, CHR 0x0A]],
      dlog := dlog d @ [redactCredential line],
      calls := (calls d)(i \<mapsto> pc\<lparr>pc_phase := Returned [] (Some ErrTimeout)\<rparr>,
        j \<mapsto> \<lparr>pc_cmd = line, pc_payload = [], pc_resp = [], pc_done = None,
          pc_phase = Waiting\<rparr>)\<rparr>" (is "_ = ?d2")
    using d ij by (simp add: driver_eval finish_timeout_def)
  moreover have "terminal_line ''OK''" "redactCredential ''OK'' = ''OK''"
    "term_error ''OK'' = None" by code_simp+
  ultimately show ?thesis
    using d ij unfolding late_answer_def
    by (simp add: read_line_terminal finish_done_def return_cmd_def set_phase_def)
qed

text \<open>
  C38: A late answer is attributed to the wrong command: when call \<open>i\<close> gives up waiting
  (its context is done) and another caller's command is written before the answer to
  \<open>i\<close> arrives, the \<open>OK\<close> that answers \<open>i\<close> makes call \<open>j\<close> return success, although the
  module has not answered \<open>j\<close> yet. The line carries nothing that would tell them apart.
\<close>

theorem late_answer_misattributed:
  assumes "reachable drv_init drv_step d" "phase_of d i = Some Waiting" "pending d = Some i"
    and "\<not> closed d" "\<not> reader_done d" "epan_buf d = None" "calls d j = None"
  shows "drv_step\<^sup>*\<^sup>* d (late_answer i j line d)
    \<and> phase_of (late_answer i j line d) j = Some (Returned [] None)"
proof
  obtain pc where pc: "calls d i = Some pc" "pc_phase pc = Waiting"
    using assms(2) by (auto simp: phase_of_Some)
  have ij: "i \<noteq> j" using pc assms(7) by auto
  show "phase_of (late_answer i j line d) j = Some (Returned [] None)"
    using late_answer_step [OF assms(3) pc(1) assms(6,4,7), of line] by (simp add: phase_of_def)
  let ?d1 = "finish_timeout i d"
  let ?d2 = "acquire_cmd j line [] ?d1"
  let ?d3 = "check_closed j ?d2"
  let ?d4 = "register_cmd j ?d3"
  let ?d5 = "writeCommand j None ?d4"
  have s1: "drv_step d ?d1" using assms(2) by (rule step_ctx_done)
  have s2: "drv_step ?d1 ?d2"
    using assms pc ij by (intro step_acquire) (simp_all add: finish_timeout_def driver_eval)
  have s3: "drv_step ?d2 ?d3"
    by (rule step_check) (simp add: driver_eval)
  have s4: "drv_step ?d3 ?d4"
    using assms(4) pc by (intro step_register) (simp add: driver_eval finish_timeout_def)
  have s5: "drv_step ?d4 ?d5"
    using assms pc by (intro step_write) (simp add: driver_eval finish_timeout_def)
  have s6: "drv_step ?d5 (read_line ''OK'' ?d5)"
    using assms pc by (intro step_read) (simp add: driver_eval finish_timeout_def)
  have s7: "drv_step (read_line ''OK'' ?d5) (late_answer i j line d)"
  proof -
    have "terminal_line ''OK''" by code_simp
    then show ?thesis
      unfolding late_answer_def using assms pc ij
      by (intro step_result)
        (simp_all add: driver_eval finish_timeout_def read_line_terminal)
  qed
  note step = converse_rtranclp_into_rtranclp [where r = drv_step]
  show "drv_step\<^sup>*\<^sup>* d (late_answer i j line d)"
    by (intro step [OF s1] step [OF s2] step [OF s3] step [OF s4] step [OF s5] step [OF s6]
        step [OF s7] rtranclp.rtrancl_refl)
qed

theorem late_answer_misattributed_witness:
  "phase_of (late_answer 0 1 ''SKTERM'' demo_waiting) 1 = Some (Returned [] None)"
  using late_answer_misattributed [OF reachable_demo_waiting, of 0 1]
  by (simp add: demo_waiting_eval new_driver_def phase_of_def)

end
