(* ===== verification/Sk_Driver_Eof.thy ===== *)
theory Sk_Driver_Eof
  imports Sk_Driver_Safety
begin

text \<open>
  What becomes of the driver of \<open>internal/bp35c2/driver.go\<close> when its reader goroutine has
  ended: after a clean end of the stream nobody completes a command any more, and \<open>Done\<close>
  is not closed.
\<close>

text \<open>What a call can come back with.\<close>

fun dead_return :: "bool \<Rightarrow> phase \<Rightarrow> bool" where
  "dead_return cl (Returned ls e) \<longleftrightarrow>
     e = Some ErrTimeout \<or> (\<exists>w. e = Some (ErrWrite w)) \<or> cl \<and> e = Some ErrClosed"
| "dead_return cl ph \<longleftrightarrow> True"

definition dead_call :: "driver \<Rightarrow> nat \<Rightarrow> pending_cmd \<Rightarrow> bool" where
  "dead_call d i pc \<longleftrightarrow> dead_return (closed d) (pc_phase pc) \<and>
     (\<forall>r. pc_done pc = Some r \<longrightarrow> closed d \<and> r_err r = Some ErrClosed)"

definition dead_reader :: "nat \<Rightarrow> driver \<Rightarrow> bool" where
  "dead_reader i d \<longleftrightarrow> reader_done d \<and> (\<forall>pc. calls d i = Some pc \<longrightarrow> dead_call d i pc)"

lemma dead_readerD: "dead_reader i d \<Longrightarrow> calls d i = Some pc \<Longrightarrow> dead_call d i pc"
  by (simp add: dead_reader_def)

lemma dead_reader_frame:
  "reader_done d' = reader_done d \<Longrightarrow> calls d' i = calls d i \<Longrightarrow> closed d' = closed d \<Longrightarrow>
     dead_reader i d' = dead_reader i d"
  by (simp add: dead_reader_def dead_call_def)

lemma dead_set_phase:
  assumes "dead_reader i d" "dead_return (closed d) ph"
  shows "dead_reader i (set_phase j ph d)"
  using assms by (auto simp: dead_reader_def dead_call_def set_phase_def split: option.split)

lemma dead_return_cmd:
  assumes "dead_reader i d" "i = j \<Longrightarrow> dead_return (closed d) (Returned ls e)"
  shows "dead_reader i (return_cmd j ls e d)"
  using assms by (auto simp: dead_reader_def dead_call_def return_cmd_def set_phase_def split: option.split)

lemma dead_fail_pending: "dead_reader i d \<Longrightarrow> closed d \<Longrightarrow> dead_reader i (fail_pending d)"
  by (auto simp: dead_reader_def dead_call_def fail_pending_def send_done_def split: option.splits)

lemma dead_step:
  assumes "drv_step d d'" "drv_inv d" "dead_reader i d"
  shows "dead_reader i d'"
  using assms
proof (induction rule: drv_step.induct)
  case (step_acquire d j line payload)
  then show ?case by (auto simp: dead_reader_def dead_call_def acquire_cmd_def)
next
  case (step_check d j)
  then show ?case by (auto simp: check_closed_def intro: dead_return_cmd dead_set_phase)
next
  case (step_register d j)
  then have "pending d = None" by (auto simp: drv_inv_def intro: no_pending_when_checked)
  then show ?case
    using step_register dead_reader_frame [of "d\<lparr>pending := Some j\<rparr>" d i]
    by (auto simp: register_cmd_def intro: dead_set_phase)
next
  case (step_write d j werr)
  have same: "dead_reader i (d\<lparr>dlog := l, wire := w\<rparr>)" "dead_reader i (d\<lparr>dlog := l\<rparr>)" for l w
    using step_write(3) by (simp_all add: dead_reader_def dead_call_def)
  then show ?case
    by (auto simp: writeCommand_def Let_def step_write(3) intro!: dead_set_phase dead_return_cmd split: option.split)
next
  case (step_result d j r)
  have "dead_return (closed d) (Returned (fst (result_of r)) (snd (result_of r)))" if "i = j"
  proof -
    obtain pc where "calls d j = Some pc" "pc_done pc = Some r"
      using step_result.hyps by (cases "calls d j") auto
    with that step_result.prems(2) have "closed d" "r_err r = Some ErrClosed"
      using dead_readerD [of i d pc] by (auto simp: dead_call_def)
    then show ?thesis by (simp add: result_of_def)
  qed
  with step_result show ?case by (auto simp: finish_done_def intro: dead_return_cmd)
next
  case (step_ctx_done d j)
  then show ?case by (auto simp: finish_timeout_def intro: dead_return_cmd)
next
  case (step_see_closed d j)
  then show ?case by (auto simp: finish_closed_def intro: dead_return_cmd)
next
  case (step_read d line)
  then show ?case by (simp add: dead_reader_def)
next
  case (step_read_end d err)
  then show ?case by (simp add: dead_reader_def)
next
  case (step_close d)
  have "dead_return True ph" if "dead_return c ph" for c ph using that by (cases ph) auto
  with step_close show ?case
    by (auto simp: close_begin_def dead_reader_def dead_call_def split: option.splits)
next
  case (step_close_fail d)
  then have "closed d" by (simp add: drv_inv_def shared_inv_def)
  with step_close_fail dead_fail_pending [of i d] show ?case
    by (simp add: close_fail_def dead_reader_def dead_call_def)
next
  case (step_receive d ev evs)
  then show ?case by (simp add: dead_reader_def dead_call_def)
qed

lemma dead_reader_steps:
  assumes "reachable drv_init drv_step d" "reader_done d" "calls d i = None" "drv_step\<^sup>*\<^sup>* d d'"
  shows "dead_reader i d'"
proof -
  have "drv_inv d' \<and> dead_reader i d'"
    using assms(4)
  proof (induction rule: rtranclp_induct)
    case base
    then show ?case using drv.reachable_invar [OF assms(1)] assms(2,3) by (simp add: dead_reader_def)
  next
    case (step u v)
    then show ?case using dead_step drv.step_invar by blast
  qed
  then show ?thesis by simp
qed

section \<open>Properties\<close>


text \<open>The stream ends; the next command times out.\<close>

definition demo_eof :: driver where
  "demo_eof = read_end None (new_driver 4)"

definition demo_eof_timeout :: driver where
  "demo_eof_timeout = finish_timeout 0 (writeCommand 0 None (register_cmd 0 (check_closed 0
     (acquire_cmd 0 ''SKVER'' [] demo_eof))))"

lemma new_driver_reachable: "reachable drv_init drv_step (new_driver n)"
  by (rule reachable.start) (auto simp: drv_init_def)

lemma demo_eof_steps: "drv_step\<^sup>*\<^sup>* demo_eof demo_eof_timeout"
proof -
  note ops = demo_eof_def read_end_def fail_pending_def new_driver_def acquire_cmd_def check_closed_def
    register_cmd_def writeCommand_def set_phase_def phase_of_def redactCredential_def has_prefix_def
  let ?a = "acquire_cmd 0 ''SKVER'' [] demo_eof"
  let ?b = "check_closed 0 ?a"
  let ?c = "register_cmd 0 ?b"
  let ?d = "writeCommand 0 None ?c"
  have "drv_step demo_eof ?a" by (rule step_acquire) (simp_all add: ops)
  moreover have "drv_step ?a ?b" by (rule step_check) (simp add: ops)
  moreover have "drv_step ?b ?c" by (rule step_register) (simp add: ops)
  moreover have "drv_step ?c ?d" by (rule step_write) (simp add: ops)
  moreover have "drv_step ?d demo_eof_timeout"
    unfolding demo_eof_timeout_def by (rule step_ctx_done) (simp add: ops)
  ultimately show ?thesis by auto
qed

lemma demo_eof_phase: "phase_of demo_eof_timeout 0 = Some (Returned [] (Some ErrTimeout))"
  by (simp add: demo_eof_timeout_def demo_eof_def read_end_def fail_pending_def new_driver_def acquire_cmd_def
      check_closed_def register_cmd_def writeCommand_def finish_timeout_def return_cmd_def set_phase_def
      phase_of_def)


end
