(* ===== verification/Go_Float.thy ===== *)
theory Go_Float
  imports Bp_Prelude
begin

text \<open>
  Go's \<open>float64\<close>: IEEE 754 binary64, rounding to nearest, ties to even. Every finite
  value is an integer multiple of the smallest subnormal, \<open>2 ^ -1074\<close>, so \<open>Fin m\<close> stands
  for \<open>m * 2 ^ -1074\<close> and the arithmetic below is integer arithmetic followed by one
  rounding, \<open>fl\<close>. The sign of zero is not kept: no operation of the source can tell the
  two zeros apart (it never divides by a computed value that is zero).

  The lemmas are what the measurement code needs: rounding is monotone, does not change
  a value that is already representable, and integers up to \<open>2 ^ 53\<close> are representable,
  so sums of small integers are exact.
\<close>

datatype float64 = Fin int | PosInf | NegInf | NaN

text \<open>The number of smallest subnormals in 1, and the first power of two that overflows.\<close>

definition fscale :: nat where "fscale = 2 ^ 1074"
definition fmax :: nat where "fmax = 2 ^ 2098"

fun nbits :: "nat \<Rightarrow> nat" where
  "nbits n = (if n = 0 then 0 else Suc (nbits (n div 2)))"

declare nbits.simps [simp del]

text \<open>\<open>a / b\<close> rounded to an integer, ties to even.\<close>

definition rne :: "nat \<Rightarrow> nat \<Rightarrow> nat" where
  "rne a b =
     (let q = a div b; r = a mod b in
      if 2 * r < b \<or> 2 * r = b \<and> even q then q else Suc q)"

text \<open>\<open>a / d\<close> rounded to 53 significant bits, but not below the unit.\<close>

definition round_mag :: "nat \<Rightarrow> nat \<Rightarrow> nat" where
  "round_mag a d = (let s = nbits (a div d) - 53 in rne a (d * 2 ^ s) * 2 ^ s)"

definition fl :: "int \<Rightarrow> nat \<Rightarrow> float64" where
  "fl n d =
     (let m = round_mag (nat \<bar>n\<bar>) d in
      if fmax \<le> m then (if n < 0 then NegInf else PosInf) else Fin (sgn n * int m))"

text \<open>The conversion \<open>float64(z)\<close> of an integer, and the literal \<open>n / d\<close>.\<close>

definition f_of_int :: "int \<Rightarrow> float64" where
  "f_of_int z = fl (z * int fscale) 1"

definition f_lit :: "int \<Rightarrow> nat \<Rightarrow> float64" where
  "f_lit n d = fl (n * int fscale) d"

fun f_neg :: "float64 \<Rightarrow> float64" where
  "f_neg (Fin a) = Fin (- a)"
| "f_neg PosInf = NegInf"
| "f_neg NegInf = PosInf"
| "f_neg NaN = NaN"

fun f_add :: "float64 \<Rightarrow> float64 \<Rightarrow> float64" where
  "f_add (Fin a) (Fin b) = fl (a + b) 1"
| "f_add NaN y = NaN"
| "f_add x NaN = NaN"
| "f_add PosInf NegInf = NaN"
| "f_add NegInf PosInf = NaN"
| "f_add PosInf y = PosInf"
| "f_add NegInf y = NegInf"
| "f_add x PosInf = PosInf"
| "f_add x NegInf = NegInf"

fun f_sign :: "float64 \<Rightarrow> int" where
  "f_sign (Fin a) = sgn a"
| "f_sign PosInf = 1"
| "f_sign NegInf = -1"
| "f_sign NaN = 0"

definition f_inf :: "int \<Rightarrow> float64" where
  "f_inf s = (if s = 0 then NaN else if s < 0 then NegInf else PosInf)"

fun f_mul :: "float64 \<Rightarrow> float64 \<Rightarrow> float64" where
  "f_mul (Fin a) (Fin b) = fl (a * b) fscale"
| "f_mul NaN y = NaN"
| "f_mul x NaN = NaN"
| "f_mul x y = f_inf (f_sign x * f_sign y)"

fun f_div :: "float64 \<Rightarrow> float64 \<Rightarrow> float64" where
  "f_div (Fin a) (Fin b) =
     (if b = 0 then f_inf (sgn a) else fl (sgn b * a * int fscale) (nat \<bar>b\<bar>))"
| "f_div NaN y = NaN"
| "f_div x NaN = NaN"
| "f_div (Fin a) y = Fin 0"
| "f_div x (Fin b) = f_inf (f_sign x * (if b < 0 then -1 else 1))"
| "f_div x y = NaN"

fun f_less :: "float64 \<Rightarrow> float64 \<Rightarrow> bool" where
  "f_less (Fin a) (Fin b) \<longleftrightarrow> a < b"
| "f_less NaN y \<longleftrightarrow> False"
| "f_less x NaN \<longleftrightarrow> False"
| "f_less x NegInf \<longleftrightarrow> False"
| "f_less NegInf y \<longleftrightarrow> True"
| "f_less PosInf y \<longleftrightarrow> False"
| "f_less x PosInf \<longleftrightarrow> True"

fun f_le :: "float64 \<Rightarrow> float64 \<Rightarrow> bool" where
  "f_le (Fin a) (Fin b) \<longleftrightarrow> a \<le> b"
| "f_le NaN y \<longleftrightarrow> False"
| "f_le x NaN \<longleftrightarrow> False"
| "f_le NegInf y \<longleftrightarrow> True"
| "f_le x PosInf \<longleftrightarrow> True"
| "f_le x y \<longleftrightarrow> False"

definition is_num :: "float64 \<Rightarrow> bool" where
  "is_num x \<longleftrightarrow> x \<noteq> NaN"

lemma fscale_pos [simp]: "0 < fscale" "fscale \<noteq> 0"
  by (simp_all add: fscale_def)

section \<open>Order\<close>

lemma f_le_refl: "is_num x \<Longrightarrow> f_le x x"
  by (cases x) (simp_all add: is_num_def)

lemma f_le_trans: "f_le x y \<Longrightarrow> f_le y z \<Longrightarrow> f_le x z"
  by (cases x; cases y; cases z) simp_all

lemma f_less_not_le: "is_num x \<Longrightarrow> is_num y \<Longrightarrow> f_less x y \<longleftrightarrow> \<not> f_le y x"
  by (cases x; cases y) (auto simp: is_num_def)

lemma f_le_num: "f_le x y \<Longrightarrow> is_num x \<and> is_num y"
  by (cases x; cases y) (simp_all add: is_num_def)

lemma f_less_imp_le: "f_less x y \<Longrightarrow> f_le x y"
  by (cases x; cases y) simp_all

section \<open>Rounding to an integer\<close>

lemma nbits_le_iff: "nbits n \<le> k \<longleftrightarrow> n < 2 ^ k"
proof (induction n arbitrary: k rule: nbits.induct)
  case (1 n)
  show ?case
  proof (cases "n = 0")
    case True
    then show ?thesis by (simp add: nbits.simps)
  next
    case False
    show ?thesis
    proof (cases k)
      case 0
      with False show ?thesis by (simp add: nbits.simps [of n])
    next
      case (Suc j)
      have "nbits n \<le> k \<longleftrightarrow> n div 2 < 2 ^ j"
        using "1.IH" [OF False, of j] False Suc by (simp add: nbits.simps [of n])
      also have "\<dots> \<longleftrightarrow> n < 2 ^ k"
        by (simp add: Suc div_less_iff_less_mult mult.commute)
      finally show ?thesis .
    qed
  qed
qed

lemma nbits_bounds: "n \<noteq> 0 \<Longrightarrow> 2 ^ (nbits n - 1) \<le> n" "n < 2 ^ nbits n"
proof -
  show "n < 2 ^ nbits n" using nbits_le_iff [of n "nbits n"] by simp
  assume "n \<noteq> 0"
  then have "\<not> nbits n \<le> nbits n - 1"
    using nbits_le_iff [of n 0] by simp
  then show "2 ^ (nbits n - 1) \<le> n"
    using nbits_le_iff [of n "nbits n - 1"] by simp
qed

lemma nbits_mono: "m \<le> n \<Longrightarrow> nbits m \<le> nbits n"
  using nbits_bounds(2) [of n] by (simp add: nbits_le_iff)

lemma rne_exact: "0 < b \<Longrightarrow> rne (c * b) b = c"
  by (simp add: rne_def)

lemma rne_cancel: "0 < c \<Longrightarrow> rne (a * c) (b * c) = rne a b"
proof -
  assume c: "0 < c"
  have "(a * c) div (b * c) = a div b" using c by simp
  moreover have "(a * c) mod (b * c) = (a mod b) * c"
    by (simp add: mult_mod_left)
  moreover have "2 * (a mod b * c) < b * c \<longleftrightarrow> 2 * (a mod b) < b"
    using c mult_less_cancel2 [of "2 * (a mod b)" c b] by (simp add: mult.assoc)
  moreover have "2 * (a mod b * c) = b * c \<longleftrightarrow> 2 * (a mod b) = b"
    using c mult_cancel2 [of "2 * (a mod b)" c b] by (simp add: mult.assoc)
  ultimately show ?thesis
    by (simp only: rne_def Let_def)
qed

lemma div_mono_ratio:
  fixes a b a' b' :: nat
  assumes "0 < b" "0 < b'" "a * b' \<le> a' * b"
  shows "a div b \<le> a' div b'"
proof -
  have "(a div b) * b' * b \<le> a * b'"
    by (metis div_times_less_eq_dividend mult.commute mult.left_commute mult_le_mono1)
  also have "\<dots> \<le> a' * b" by (fact assms)
  finally have "(a div b) * b' \<le> a'" using assms(1) by simp
  then show ?thesis using assms(2) by (simp add: less_eq_div_iff_mult_less_eq)
qed

lemma rne_mono:
  assumes "0 < b" "0 < b'" "a * b' \<le> a' * b"
  shows "rne a b \<le> rne a' b'"
proof -
  let ?q = "a div b" and ?q' = "a' div b'" and ?r = "a mod b" and ?r' = "a' mod b'"
  have le: "?q \<le> ?q'" by (rule div_mono_ratio [OF assms])
  show ?thesis
  proof (cases "?q < ?q'")
    case True
    then show ?thesis by (simp add: rne_def Let_def)
  next
    case False
    with le have eq: "?q = ?q'" by simp
    have "(?q * b + ?r) * b' \<le> (?q' * b' + ?r') * b"
      using assms(3) by simp
    then have r: "?r * b' \<le> ?r' * b"
      unfolding eq by (simp only: add_mult_distrib mult.assoc mult.commute [of b b']
          add_le_cancel_left)
    have up: "2 * ?r' \<ge> b'" if "2 * ?r \<ge> b"
    proof -
      have "b * b' \<le> 2 * ?r * b'" using that by simp
      also have "\<dots> \<le> 2 * ?r' * b" using r by simp
      finally have "b' * b \<le> (2 * ?r') * b" by (simp add: mult.commute)
      then show ?thesis using assms(1) by simp
    qed
    have up': "2 * ?r' > b'" if "2 * ?r > b"
    proof -
      have "b * b' < 2 * ?r * b'" using that assms(2) by simp
      also have "\<dots> \<le> 2 * ?r' * b" using r by simp
      finally have "b' * b < (2 * ?r') * b" by (simp add: mult.commute)
      then show ?thesis using assms(1) by simp
    qed
    show ?thesis
      using up up' eq by (auto simp: rne_def Let_def not_less le_less)
  qed
qed

section \<open>Rounding to 53 bits\<close>

lemma round_mag_cancel: "0 < c \<Longrightarrow> round_mag (a * c) (d * c) = round_mag a d"
  using rne_cancel [of c a "d * 2 ^ s" for s]
  by (simp add: round_mag_def Let_def mult.assoc mult.left_commute [of _ c] mult.commute [of _ c])

lemma round_mag_upper:
  assumes "0 < d" "53 \<le> k" "a < 2 ^ k * d"
  shows "round_mag a d \<le> 2 ^ k"
proof -
  define s where "s = nbits (a div d) - 53"
  have "a div d < 2 ^ k" using assms by (simp add: div_less_iff_less_mult)
  then have "nbits (a div d) \<le> k" by (simp add: nbits_le_iff)
  with assms(2) have s: "s \<le> k" by (simp add: s_def)
  have "rne a (d * 2 ^ s) \<le> rne (2 ^ (k - s) * (d * 2 ^ s)) (d * 2 ^ s)"
  proof (rule rne_mono)
    have "(2 :: nat) ^ (k - s) * 2 ^ s = 2 ^ k"
      using s by (simp flip: power_add)
    then have "2 ^ (k - s) * (d * 2 ^ s) = 2 ^ k * d"
      by (simp add: ac_simps)
    with assms(3) show "a * (d * 2 ^ s) \<le> 2 ^ (k - s) * (d * 2 ^ s) * (d * 2 ^ s)"
      by (simp only: mult_le_mono1 less_imp_le)
  qed (use assms in simp_all)
  also have "\<dots> = 2 ^ (k - s)" using assms by (intro rne_exact) simp
  finally have "round_mag a d \<le> 2 ^ (k - s) * 2 ^ s"
    by (simp add: round_mag_def Let_def flip: s_def)
  then show ?thesis using s by (simp flip: power_add)
qed

lemma round_mag_lower:
  assumes "0 < d" "2 ^ k * d \<le> a" "nbits (a div d) = Suc k"
  shows "2 ^ k \<le> round_mag a d"
proof -
  define s where "s = nbits (a div d) - 53"
  have s: "s \<le> k" using assms(3) by (simp add: s_def)
  have "2 ^ (k - s) = rne (2 ^ (k - s) * (d * 2 ^ s)) (d * 2 ^ s)"
    using assms by (intro rne_exact [symmetric]) simp
  also have "\<dots> \<le> rne a (d * 2 ^ s)"
  proof (rule rne_mono)
    have "(2 :: nat) ^ (k - s) * 2 ^ s = 2 ^ k"
      using s by (simp flip: power_add)
    then have "2 ^ (k - s) * (d * 2 ^ s) = 2 ^ k * d"
      by (simp add: ac_simps)
    with assms(2) show "2 ^ (k - s) * (d * 2 ^ s) * (d * 2 ^ s) \<le> a * (d * 2 ^ s)"
      by (simp only: mult_le_mono1)
  qed (use assms in simp_all)
  finally have "2 ^ (k - s) * 2 ^ s \<le> round_mag a d"
    by (simp add: round_mag_def Let_def flip: s_def)
  then show ?thesis using s by (simp flip: power_add)
qed

lemma round_mag_mono:
  assumes "0 < d" "0 < d'" "a * d' \<le> a' * d"
  shows "round_mag a d \<le> round_mag a' d'"
proof -
  define k where "k = nbits (a div d)"
  define k' where "k' = nbits (a' div d')"
  have quot: "a div d \<le> a' div d'" by (rule div_mono_ratio [OF assms])
  then have kk: "k \<le> k'" by (simp add: k_def k'_def nbits_mono)
  show ?thesis
  proof (cases "k - 53 = k' - 53")
    case True
    define s where "s = k' - 53"
    have "a * (d' * 2 ^ s) \<le> a' * (d * 2 ^ s)"
      using assms(3) by (simp flip: mult.assoc)
    then have "rne a (d * 2 ^ s) \<le> rne a' (d' * 2 ^ s)"
      using assms(1,2) by (intro rne_mono) simp_all
    with True show ?thesis
      by (simp add: round_mag_def Let_def s_def flip: k_def k'_def)
  next
    case False
    define j where "j = k' - 1"
    with False kk have j: "k' = Suc j" "max k 53 \<le> j"
      by linarith+
    have "a < 2 ^ j * d"
    proof -
      have "a div d < 2 ^ j" using j nbits_le_iff [of "a div d" j] by (simp add: k_def)
      then show ?thesis using assms(1) by (simp add: div_less_iff_less_mult)
    qed
    then have "round_mag a d \<le> 2 ^ j"
      using assms(1) j by (intro round_mag_upper) simp_all
    also have "\<dots> \<le> round_mag a' d'"
    proof (rule round_mag_lower)
      have "nbits (a' div d') \<noteq> nbits 0"
        using j nbits_le_iff [of 0 0] by (simp flip: k'_def)
      then have "a' div d' \<noteq> 0" by metis
      then have "2 ^ j \<le> a' div d'"
        using nbits_bounds(1) [of "a' div d'"] j by (simp flip: k'_def)
      then show "2 ^ j * d' \<le> a'"
        using assms(2) by (simp add: less_eq_div_iff_mult_less_eq)
    qed (use assms j in \<open>simp_all flip: k'_def\<close>)
    finally show ?thesis .
  qed
qed

lemma round_mag_exact:
  assumes "0 < d" "m = c * 2 ^ e" "c \<le> 2 ^ 53"
  shows "round_mag (m * d) d = m"
proof -
  define s where "s = nbits m - 53"
  have "2 ^ s dvd m"
  proof (cases "c = 2 ^ 53")
    case True
    then have "m = 2 ^ (53 + e)" using assms(2) by (simp only: power_add)
    moreover have "m < 2 ^ (54 + e)" using calculation by simp
    then have "nbits m \<le> 54 + e" by (simp only: nbits_le_iff)
    then have "s \<le> 53 + e" by (simp add: s_def)
    ultimately show ?thesis by (simp add: le_imp_power_dvd)
  next
    case False
    then have "c < 2 ^ 53" using assms(3) by simp
    then have "m < 2 ^ (53 + e)" by (simp add: assms(2) power_add)
    then have "nbits m \<le> 53 + e" by (simp only: nbits_le_iff)
    then have "s \<le> e" by (simp add: s_def)
    then show ?thesis by (simp add: assms(2) le_imp_power_dvd)
  qed
  then obtain u where u: "m = u * 2 ^ s" by (metis dvd_div_mult_self)
  have "round_mag (m * d) d = rne (m * d) (d * 2 ^ s) * 2 ^ s"
    using assms(1) by (simp add: round_mag_def Let_def s_def)
  also have "rne (m * d) (d * 2 ^ s) = rne (u * (d * 2 ^ s)) (d * 2 ^ s)"
    by (simp only: u ac_simps)
  also have "\<dots> = u" using assms(1) by (intro rne_exact) simp
  finally show ?thesis by (simp only: u)
qed

section \<open>Rounding of signed quotients\<close>

lemma fl_num [simp]: "is_num (fl n d)" "fl n d \<noteq> NaN"
  by (simp_all add: fl_def Let_def is_num_def)

lemma fl_nonneg: "0 \<le> n \<Longrightarrow> fl n d \<noteq> NegInf \<and> (\<forall>m. fl n d = Fin m \<longrightarrow> 0 \<le> m)"
  by (cases "n = 0") (simp_all add: fl_def Let_def)

lemma fl_cancel: "0 < c \<Longrightarrow> fl (n * int c) (d * c) = fl n d"
proof -
  assume c: "0 < c"
  have "nat \<bar>n * int c\<bar> = nat \<bar>n\<bar> * c"
    by (simp add: abs_mult nat_mult_distrib)
  moreover have "sgn (n * int c) = sgn n" "n * int c < 0 \<longleftrightarrow> n < 0"
    using c by (simp_all add: sgn_mult mult_less_0_iff)
  ultimately show ?thesis
    using c by (simp only: fl_def Let_def round_mag_cancel)
qed

lemma round_mag_zero [simp]: "round_mag 0 d = 0"
  by (auto simp: round_mag_def rne_def Let_def)

lemma fmax_pos [simp]: "0 < fmax" by (simp add: fmax_def)

lemma fl_zero [simp]: "fl 0 d = Fin 0"
  by (simp add: fl_def Let_def not_le)

lemma fl_mono_pos:
  assumes "0 < d" "0 < d'" "n * int d' \<le> n' * int d" "0 \<le> n"
  shows "f_le (fl n d) (fl n' d')"
proof -
  have "0 \<le> n * int d'" using assms by simp
  with assms have n': "0 \<le> n'"
    by (metis mult_neg_pos not_le of_nat_0_less_iff order_trans)
  have "int (nat n * d') \<le> int (nat n' * d)"
    using assms(3,4) n' by simp
  then have "nat n * d' \<le> nat n' * d" by (simp only: of_nat_le_iff)
  then have "round_mag (nat n) d \<le> round_mag (nat n') d'"
    using assms by (intro round_mag_mono)
  moreover have "sgn n * int (round_mag (nat n) d) = int (round_mag (nat n) d)"
    "sgn n' * int (round_mag (nat n') d') = int (round_mag (nat n') d')"
    using assms(4) n' by (cases "n = 0"; cases "n' = 0"; simp)+
  ultimately show ?thesis
    using assms(4) n' by (auto simp: fl_def Let_def)
qed

lemma fl_neg: "fl (- n) d = f_neg (fl n d)"
  by (cases "n = 0") (auto simp: fl_def Let_def sgn_minus)

lemma f_le_neg: "f_le (f_neg x) (f_neg y) \<longleftrightarrow> f_le y x"
  by (cases x; cases y) simp_all

lemma fl_mono:
  assumes d: "0 < d" "0 < d'" and le: "n * int d' \<le> n' * int d"
  shows "f_le (fl n d) (fl n' d')"
proof -
  consider "0 \<le> n" | "n < 0" "n' \<le> 0" | "n < 0" "0 < n'" by linarith
  then show ?thesis
  proof cases
    case 1
    with assms show ?thesis by (intro fl_mono_pos)
  next
    case 2
    then have "f_le (fl (- n') d') (fl (- n) d)"
      using d le by (intro fl_mono_pos) simp_all
    then show ?thesis by (simp add: fl_neg f_le_neg)
  next
    case 3
    have "f_le (fl 0 d) (fl n' d')"
      using d 3 by (intro fl_mono_pos) simp_all
    moreover have "f_le (fl 0 d) (fl (- n) d)"
      using d 3 by (intro fl_mono_pos) (simp_all add: mult_le_0_iff)
    then have "f_le (fl n d) (fl 0 d)"
      using f_le_neg [of "Fin 0" "fl n d"] by (simp add: fl_neg)
    ultimately show ?thesis by (blast intro: f_le_trans)
  qed
qed

text \<open>Results far below the overflow threshold are finite.\<close>

lemma fl_finite:
  assumes "0 < d" "\<bar>n\<bar> < 2 ^ k * int d" "53 \<le> k" "k < 2098"
  shows "\<exists>m. fl n d = Fin m \<and> \<bar>m\<bar> \<le> 2 ^ k"
proof -
  have "int (nat \<bar>n\<bar>) < int (2 ^ k * d)" using assms(2) by simp
  then have "nat \<bar>n\<bar> < 2 ^ k * d" by (simp only: of_nat_less_iff)
  then have le: "round_mag (nat \<bar>n\<bar>) d \<le> 2 ^ k" using assms by (intro round_mag_upper) simp_all
  also have "(2 :: nat) ^ k < 2 ^ 2098" using assms(4) by (intro power_strict_increasing) simp_all
  finally have "\<not> fmax \<le> round_mag (nat \<bar>n\<bar>) d" by (simp add: fmax_def)
  then have "fl n d = Fin (sgn n * int (round_mag (nat \<bar>n\<bar>) d))" by (simp add: fl_def Let_def)
  moreover have "\<bar>sgn n * int (round_mag (nat \<bar>n\<bar>) d)\<bar> \<le> 2 ^ k"
  proof -
    have "int (round_mag (nat \<bar>n\<bar>) d) \<le> int (2 ^ k)" using le by (simp only: of_nat_le_iff)
    then show ?thesis by (cases "n = 0") (simp_all add: abs_mult)
  qed
  ultimately show ?thesis by blast
qed

lemma f_of_int_lit: "f_of_int z = f_lit z 1"
  by (simp add: f_of_int_def f_lit_def)

lemma f_lit_mono:
  assumes "0 < d" "0 < d'" "n * int d' \<le> n' * int d"
  shows "f_le (f_lit n d) (f_lit n' d')"
  unfolding f_lit_def
proof (rule fl_mono)
  have "(n * int d') * int fscale \<le> (n' * int d) * int fscale"
    using assms(3) by (intro mult_right_mono) simp_all
  then show "n * int fscale * int d' \<le> n' * int fscale * int d"
    by (simp add: ac_simps)
qed (use assms in simp_all)

section \<open>Integers up to 2^53\<close>

lemma f_of_int_exact:
  assumes "\<bar>z\<bar> \<le> 2 ^ 53"
  shows "f_of_int z = Fin (z * int fscale)"
proof -
  have c: "nat \<bar>z\<bar> \<le> 2 ^ 53" using assms by (simp add: nat_le_iff)
  have "round_mag (nat \<bar>z\<bar> * 2 ^ 1074 * 1) 1 = nat \<bar>z\<bar> * 2 ^ 1074"
    using c by (intro round_mag_exact [where e = 1074 and c = "nat \<bar>z\<bar>"]) simp_all
  then have "round_mag (nat \<bar>z\<bar> * fscale) 1 = nat \<bar>z\<bar> * fscale"
    by (simp only: fscale_def mult_1_right)
  moreover have "nat \<bar>z * int fscale\<bar> = nat \<bar>z\<bar> * fscale"
    by (simp add: abs_mult nat_mult_distrib)
  ultimately have m: "round_mag (nat \<bar>z * int fscale\<bar>) 1 = nat \<bar>z\<bar> * fscale"
    by (simp only:)
  have "nat \<bar>z\<bar> * fscale \<le> 2 ^ 53 * fscale" using c by simp
  also have "\<dots> < fmax"
    by (simp add: fscale_def fmax_def flip: power_add)
  finally have "\<not> fmax \<le> nat \<bar>z\<bar> * fscale" by simp
  moreover have "sgn (z * int fscale) * int (nat \<bar>z\<bar> * fscale) = z * int fscale"
    by (simp add: sgn_mult) (metis mult_sgn_abs mult.commute)
  ultimately show ?thesis
    by (simp only: f_of_int_def fl_def Let_def m if_False)
qed

lemma f_add_ints:
  assumes "\<bar>a\<bar> \<le> 2 ^ 53" "\<bar>b\<bar> \<le> 2 ^ 53"
  shows "f_add (f_of_int a) (f_of_int b) = f_of_int (a + b)"
  using assms by (simp add: f_of_int_exact) (simp add: f_of_int_def algebra_simps)

lemma f_div_ints:
  assumes "\<bar>a\<bar> \<le> 2 ^ 53" "0 < n" "n \<le> 2 ^ 53"
  shows "f_div (f_of_int a) (f_of_int (int n)) = f_lit a n"
proof -
  have "int n \<le> 2 ^ 53" using assms(3) by (metis of_nat_le_iff of_nat_numeral of_nat_power)
  then have n: "f_of_int (int n) = Fin (int n * int fscale)"
    using assms(2) by (intro f_of_int_exact) simp
  have "f_div (f_of_int a) (f_of_int (int n)) =
      fl (a * int fscale * int fscale) (n * fscale)"
    using assms(2) by (simp add: f_of_int_exact [OF assms(1)] n nat_mult_distrib)
  also have "\<dots> = f_lit a n"
    by (simp add: fl_cancel f_lit_def)
  finally show ?thesis .
qed

lemma f_sum_ints:
  "\<bar>s\<bar> + sum_list (map abs zs) \<le> 2 ^ 53 \<Longrightarrow>
     foldl f_add (f_of_int s) (map f_of_int zs) = f_of_int (s + sum_list zs)"
proof (induction zs arbitrary: s)
  case (Cons z zs)
  have nonneg: "0 \<le> sum_list (map abs zs)" by (induction zs) simp_all
  have "\<bar>s + z\<bar> \<le> \<bar>s\<bar> + \<bar>z\<bar>" by (rule abs_triangle_ineq)
  with Cons.prems nonneg have "\<bar>s + z\<bar> + sum_list (map abs zs) \<le> 2 ^ 53"
    "\<bar>s\<bar> \<le> 2 ^ 53" "\<bar>z\<bar> \<le> 2 ^ 53"
    by simp_all
  then show ?case
    using Cons.IH [of "s + z"] by (simp add: f_add_ints add.assoc)
qed simp

lemma f_mul_mono:
  assumes "f_le x x'" "f_le (Fin 0) x" "0 < y"
  shows "f_le (f_mul x (Fin y)) (f_mul x' (Fin y))"
proof -
  have "f_le (fl n d) PosInf" for n d
    by (cases "fl n d") auto
  then show ?thesis
    using assms
    by (cases x; cases x') (auto simp: f_inf_def fl_mono mult_right_mono)
qed

lemma f_mul_ints:
  assumes "\<bar>a\<bar> \<le> 2 ^ 53" "\<bar>b\<bar> \<le> 2 ^ 53"
  shows "f_mul (f_of_int a) (f_of_int b) = f_of_int (a * b)"
proof -
  have "f_mul (f_of_int a) (f_of_int b) = fl (a * b * int fscale * int fscale) (1 * fscale)"
    using assms by (simp add: f_of_int_exact ac_simps)
  also have "\<dots> = f_of_int (a * b)"
    by (simp only: fl_cancel fscale_pos f_of_int_def)
  finally show ?thesis .
qed

lemma f_of_int_mono: "a \<le> b \<Longrightarrow> f_le (f_of_int a) (f_of_int b)"
  by (simp add: f_of_int_lit f_lit_mono)

definition finite_float :: "float64 \<Rightarrow> bool" where
  "finite_float x \<longleftrightarrow> (case x of Fin _ \<Rightarrow> True | _ \<Rightarrow> False)"

lemma finite_Fin [simp]: "finite_float (Fin m)"
  by (simp add: finite_float_def)

definition small_float :: "float64 \<Rightarrow> bool" where
  "small_float x \<longleftrightarrow> (\<exists>m. x = Fin m \<and> \<bar>m\<bar> \<le> 2 ^ 1138)"

lemma small_finite: "small_float x \<Longrightarrow> finite_float x"
  by (auto simp: small_float_def)

lemma f_lit_small:
  assumes "0 < d" "\<bar>z\<bar> < 2 ^ 64 * int d"
  shows "small_float (f_lit z d)"
  unfolding f_lit_def small_float_def
proof (rule fl_finite)
  have "\<bar>z * int fscale\<bar> = \<bar>z\<bar> * 2 ^ 1074" by (simp add: abs_mult fscale_def)
  also have "\<dots> < 2 ^ 64 * int d * 2 ^ 1074" using assms(2) by (intro mult_strict_right_mono) simp_all
  finally show "\<bar>z * int fscale\<bar> < 2 ^ 1138 * int d" by simp
qed (use assms in simp_all)

lemma f_mul_finite:
  assumes "small_float x" "small_float y"
  shows "finite_float (f_mul x y)"
proof -
  obtain a b where ab: "x = Fin a" "y = Fin b" "\<bar>a\<bar> \<le> 2 ^ 1138" "\<bar>b\<bar> \<le> 2 ^ 1138"
    using assms by (auto simp: small_float_def)
  have "\<bar>a * b\<bar> \<le> 2 ^ 1138 * 2 ^ 1138" unfolding abs_mult using ab(3,4) by (intro mult_mono) simp_all
  also have "(2 :: int) ^ 1138 * 2 ^ 1138 = 2 ^ 2276" by (simp only: power_add [symmetric]) simp
  also have "(2 :: int) ^ 2276 < 2 ^ 1300 * int fscale"
    by (simp only: fscale_def of_nat_power of_nat_numeral power_add [symmetric]) (rule power_strict_increasing; simp)
  finally obtain m where "fl (a * b) fscale = Fin m" using fl_finite [of fscale "a * b" 1300] by auto
  then show ?thesis by (simp add: ab)
qed

lemma f_of_int_0 [simp]: "f_of_int 0 = Fin 0"
  by (simp add: f_of_int_def)

text \<open>A positive literal that is at most 1 is a positive finite value.\<close>

lemma f_lit_fraction:
  assumes "0 < d" "d \<le> fscale"
  shows "\<exists>m. f_lit 1 d = Fin m \<and> 0 < m"
proof -
  have "round_mag (1 * 1) 1 \<le> round_mag fscale d"
    using assms by (intro round_mag_mono) simp_all
  moreover have "round_mag (1 * 1) 1 = 1"
    by (rule round_mag_exact [where c = 1 and e = 0]) simp_all
  ultimately have pos: "1 \<le> round_mag fscale d" by simp
  have "round_mag fscale d \<le> round_mag (fscale * 1) 1"
    using assms by (intro round_mag_mono) simp_all
  also have "\<dots> = fscale"
    by (rule round_mag_exact [where c = 1 and e = 1074]) (simp_all add: fscale_def)
  also have "\<dots> < fmax" by (simp add: fscale_def fmax_def)
  finally show ?thesis
    using pos by (simp add: f_lit_def fl_def Let_def)
qed

text \<open>A value that arithmetic can produce: \<open>Fin m\<close> with at most 53 significant bits in range.\<close>

definition is_float64 :: "float64 \<Rightarrow> bool" where
  "is_float64 x \<longleftrightarrow> (case x of Fin m \<Rightarrow> fl m 1 = Fin m | _ \<Rightarrow> True)"

text \<open>Results of rounding are values.\<close>

lemma round_mag_idem: "0 < d \<Longrightarrow> round_mag (round_mag a d) 1 = round_mag a d"
proof -
  assume d: "0 < d"
  define s where "s = nbits (a div d) - 53"
  have m: "round_mag a d = rne a (d * 2 ^ s) * 2 ^ s" by (simp add: round_mag_def Let_def s_def)
  have "nbits (a div d) \<le> 53 + s" by (simp add: s_def)
  then have "a div d < 2 ^ (53 + s)" by (simp only: nbits_le_iff)
  then have "a < 2 ^ (53 + s) * d" using d by (simp add: div_less_iff_less_mult)
  then have "round_mag a d \<le> 2 ^ (53 + s)" using d by (intro round_mag_upper) simp_all
  then have "rne a (d * 2 ^ s) * 2 ^ s \<le> 2 ^ 53 * 2 ^ s" by (simp only: m power_add)
  then have "rne a (d * 2 ^ s) \<le> 2 ^ 53" by simp
  then show ?thesis
    using round_mag_exact [of 1 "round_mag a d" "rne a (d * 2 ^ s)" s] by (simp only: m mult_1_right)
qed

lemma fl_is_float64 [simp]:
  assumes "0 < d"
  shows "is_float64 (fl n d)"
proof (cases "fmax \<le> round_mag (nat \<bar>n\<bar>) d")
  case True
  then show ?thesis by (simp add: fl_def Let_def is_float64_def)
next
  case False
  let ?r = "round_mag (nat \<bar>n\<bar>) d"
  have "fl (sgn n * int ?r) 1 = Fin (sgn n * int ?r)"
  proof (cases "n = 0 \<or> ?r = 0")
    case True
    then show ?thesis by auto
  next
    case nz: False
    then have "nat \<bar>sgn n * int ?r\<bar> = ?r" "sgn (sgn n * int ?r) = sgn n"
      by (simp_all add: abs_mult sgn_mult)
    then show ?thesis using False round_mag_idem [OF assms, of "nat \<bar>n\<bar>"] by (simp add: fl_def Let_def)
  qed
  with False show ?thesis by (simp add: fl_def Let_def is_float64_def)
qed

lemma arithmetic_is_float64 [simp]:
  "0 < d \<Longrightarrow> is_float64 (f_lit z d)" "is_float64 (f_of_int z)"
  by (simp_all add: f_lit_def f_of_int_def)

lemma f_mul_is_float64 [simp]: "is_float64 (f_mul x y)"
  by (cases x; cases y) (auto simp: f_inf_def, simp_all add: is_float64_def)

definition proper_float :: "float64 \<Rightarrow> bool" where
  "proper_float x \<longleftrightarrow> finite_float x \<and> is_float64 x"

lemma proper_zero [simp]: "proper_float (Fin 0)"
  by (simp add: proper_float_def is_float64_def)

end
