(* ===== verification/Go_Time.thy ===== *)
theory Go_Time
  imports Bp_Prelude
begin

text \<open>
  The parts of Go's \<open>time\<close> package the source uses. An instant is the number of
  nanoseconds since Go's zero time (January 1 of year 1, 00:00 UTC), the origin of
  \<open>Time.Truncate\<close>; a \<open>time.Duration\<close> is a signed 64-bit number of nanoseconds, modelled
  as an \<open>int\<close> where the source cannot overflow it and as a \<open>64 word\<close> where it can.
  \<open>time.Date\<close> normalises its arguments and asks the local time zone for the offset; the
  zone is a parameter (the host's time-zone database).
\<close>

type_synonym instant = int
type_synonym duration = int

definition nanosecond :: int where "nanosecond = 1"
definition millisecond :: int where "millisecond = 1000000"
definition second :: int where "second = 1000000000"
definition minute :: int where "minute = 60 * second"

text \<open>The Unix epoch: 719162 days after the zero time.\<close>

definition unix_epoch :: instant where
  "unix_epoch = 719162 * 86400 * second"

definition is_zero_time :: "instant \<Rightarrow> bool" where
  "is_zero_time t \<longleftrightarrow> t = 0"

text \<open>\<open>t.Truncate(d)\<close>: rounding down to a multiple of \<open>d\<close> since the zero time.\<close>

definition truncate_time :: "instant \<Rightarrow> duration \<Rightarrow> instant" where
  "truncate_time t d = (if d \<le> 0 then t else t - t mod d)"

lemma truncate_bounds:
  "0 < d \<Longrightarrow> truncate_time t d \<le> t \<and> t < truncate_time t d + d"
  by (simp add: truncate_time_def)

lemma truncate_dvd: "0 < d \<Longrightarrow> d dvd truncate_time t d"
  by (simp add: truncate_time_def minus_mod_eq_mult_div)

lemma truncate_unique:
  assumes "0 < d" "d dvd w" "w \<le> t" "t < w + d"
  shows "truncate_time t d = w"
proof -
  obtain k where k: "w = d * k" using assms(2) by blast
  have "t mod d = (t - w) mod d"
    by (simp add: k mod_diff_right_eq [symmetric])
  also have "\<dots> = t - w" using assms by (intro mod_pos_pos_trivial) simp_all
  finally show ?thesis using assms(1) by (simp add: truncate_time_def)
qed

lemma truncate_idem: "0 < d \<Longrightarrow> truncate_time (truncate_time t d) d = truncate_time t d"
  using truncate_dvd [of d t] by (intro truncate_unique) simp_all

lemma truncate_mono: "0 < d \<Longrightarrow> t \<le> u \<Longrightarrow> truncate_time t d \<le> truncate_time u d"
  by (simp add: truncate_time_def minus_mod_eq_mult_div zdiv_mono1)

section \<open>Civil dates\<close>

text \<open>Days before January 1 of year \<open>y\<close>, counted from January 1 of year 1.\<close>

definition days_before_year :: "int \<Rightarrow> int" where
  "days_before_year y =
     (let p = y - 1 in 365 * p + p div 4 - p div 100 + p div 400)"

definition is_leap :: "int \<Rightarrow> bool" where
  "is_leap y \<longleftrightarrow> 4 dvd y \<and> (\<not> 100 dvd y \<or> 400 dvd y)"

text \<open>Days before the first of month \<open>m\<close> (0 for January) in a common year.\<close>

definition days_before_month :: "nat \<Rightarrow> int" where
  "days_before_month m = [0, 31, 59, 90, 120, 151, 181, 212, 243, 273, 304, 334] ! m"

text \<open>A zone: for a UTC second, the offset in force and the seconds it is valid from and to.\<close>

type_synonym zone = "int \<Rightarrow> int \<times> int \<times> int"

text \<open>
  \<open>time.Date(y, mon, d, h, mi, s, 0, loc)\<close>: the months are normalised into the year, the
  rest is added up, then the zone is asked once or twice, as the package does.
\<close>

definition wall_seconds :: "int \<Rightarrow> int \<Rightarrow> int \<Rightarrow> int \<Rightarrow> int \<Rightarrow> int \<Rightarrow> int" where
  "wall_seconds y mon d h mi s =
     (let m = mon - 1; y' = y + m div 12; m' = nat (m mod 12);
          days = days_before_year y' + days_before_month m'
            + (if is_leap y' \<and> 2 \<le> m' then 1 else 0) + (d - 1)
      in days * 86400 + h * 3600 + mi * 60 + s)"

definition date_in :: "zone \<Rightarrow> int \<Rightarrow> int \<Rightarrow> int \<Rightarrow> int \<Rightarrow> int \<Rightarrow> int \<Rightarrow> instant" where
  "date_in z y mon d h mi s =
     (let unix = wall_seconds y mon d h mi s - 719162 * 86400;
          (offset, st, en) = z unix
      in (if offset = 0 then unix
          else
            let utc = unix - offset in
            if utc < st \<or> en \<le> utc then unix - fst (z utc) else unix - offset)
         * second + unix_epoch)"

text \<open>The zone whose offset is always \<open>off\<close> seconds; an end far in the future.\<close>

definition fixed_zone :: "int \<Rightarrow> zone" where
  "fixed_zone off = (\<lambda>_. (off, - (2 ^ 63), 2 ^ 63 - 1))"

lemma date_fixed_zone:
  assumes "- (2 ^ 60) < wall_seconds y mon d h mi s" "wall_seconds y mon d h mi s < 2 ^ 60"
    and "\<bar>off\<bar> \<le> 86400"
  shows "date_in (fixed_zone off) y mon d h mi s = (wall_seconds y mon d h mi s - off) * second"
  using assms by (auto simp: date_in_def fixed_zone_def unix_epoch_def Let_def algebra_simps)

end
