(* ===== verification/Sink_Core.thy ===== *)
theory Sink_Core
  imports Go_Strings Go_Float Go_Time "HOL-Library.List_Lexorder" "HOL-Library.Char_ord"
begin

text \<open>
  \<open>internal/sink/sink.go\<close> and the helpers of \<open>prometheus.go\<close> and \<open>downsample.go\<close> that
  identify a series: a measurement, the \<open>Multi\<close> fan-out, \<open>seriesKey\<close>, \<open>labelsOrdered\<close> and
  \<open>tagsFingerprint\<close>. A tag map is an association list with distinct keys, in the order in
  which Go happens to iterate over it; that the order does not matter is a theorem.
\<close>

section \<open>Measurements\<close>

type_synonym tags = "(string \<times> string) list"

record measurement =
  Timestamp :: instant
  Name :: string
  Value :: float64
  Unit :: string
  Tags :: tags

section \<open>Series\<close>

definition tag_value :: "tags \<Rightarrow> string \<Rightarrow> string" where
  "tag_value tags k = (case map_of tags k of Some v \<Rightarrow> v | None \<Rightarrow> [])"

text \<open>\<open>sort.Strings\<close> orders bytewise, which is the order of \<open>List_Lexorder\<close> on \<open>char\<close>.\<close>

definition sorted_keys :: "tags \<Rightarrow> string list" where
  "sorted_keys tags = sort (map fst tags)"

definition tag_segments :: "tags \<Rightarrow> string" where
  "tag_segments tags =
     concat (map (\<lambda>k. ''|'' @ k @ ''='' @ tag_value tags k) (sorted_keys tags))"

definition seriesKey :: "string \<Rightarrow> tags \<Rightarrow> string" where
  "seriesKey name tags = (if length tags = 0 then name else name @ tag_segments tags)"

definition key_of :: "measurement \<Rightarrow> string" where
  "key_of m = seriesKey (Name m) (Tags m)"

definition tagsFingerprint :: "tags \<Rightarrow> string" where
  "tagsFingerprint tags = (if length tags = 0 then [] else tag_segments tags)"

definition labelsOrdered :: "tags \<Rightarrow> string list \<times> string list" where
  "labelsOrdered tags =
     (if length tags = 0 then ([], [])
      else (sorted_keys tags, map (tag_value tags) (sorted_keys tags)))"

lemma sorted_keys_order:
  assumes "distinct (map fst ts)" "distinct (map fst us)" "map_of ts = map_of us"
  shows "sorted_keys ts = sorted_keys us"
proof -
  have "set (map fst ts) = set (map fst us)"
    using assms(3) by (metis dom_map_of_conv_image_fst list.set_map)
  with assms(1,2) show ?thesis
    unfolding sorted_keys_def by (metis sorted_list_of_set_sort_remdups distinct_remdups_id)
qed

lemma tag_segments_order:
  assumes "distinct (map fst ts)" "distinct (map fst us)" "map_of ts = map_of us"
  shows "tag_segments ts = tag_segments us"
  using assms sorted_keys_order [OF assms] by (simp add: tag_segments_def tag_value_def)

lemma seriesKey_segments: "seriesKey name ts = name @ tag_segments ts"
  by (simp add: seriesKey_def tag_segments_def sorted_keys_def)

section \<open>Reading a series key back\<close>

text \<open>Text without the two separators.\<close>

definition clean :: "string \<Rightarrow> bool" where
  "clean s \<longleftrightarrow> list_all (\<lambda>c. c \<noteq> CHR ''|'' \<and> c \<noteq> CHR ''='') s"

definition clean_tags :: "tags \<Rightarrow> bool" where
  "clean_tags ts \<longleftrightarrow> distinct (map fst ts) \<and> list_all (\<lambda>(k, v). clean k \<and> clean v) ts"

definition seg_text :: "(string \<times> string) list \<Rightarrow> string" where
  "seg_text kvs = concat (map (\<lambda>(k, v). ''|'' @ k @ ''='' @ v) kvs)"

lemma split_at_separator:
  assumes "list_all (\<lambda>c. c \<noteq> x) a" "list_all (\<lambda>c. c \<noteq> x) b" "a @ r = b @ s"
    and "r = [] \<or> hd r = x" "s = [] \<or> hd s = x"
  shows "a = b \<and> r = s"
proof -
  have take: "takeWhile (\<lambda>c. c \<noteq> x) (u @ w) = u" if "list_all (\<lambda>c. c \<noteq> x) u" "w = [] \<or> hd w = x" for u w
    using that by (cases w) (auto simp: list_all_iff takeWhile_append2 takeWhile_tail)
  have "a = b" using take [OF assms(1,4)] take [OF assms(2,5)] assms(3) by simp
  with assms(3) show ?thesis by simp
qed

lemma seg_text_hd: "seg_text kvs = [] \<or> hd (seg_text kvs) = CHR ''|''"
  by (cases kvs) (auto simp: seg_text_def)

lemma cleanD: "clean s \<Longrightarrow> list_all (\<lambda>c. c \<noteq> CHR ''|'') s" "clean s \<Longrightarrow> list_all (\<lambda>c. c \<noteq> CHR ''='') s"
  by (auto simp: clean_def list_all_iff)

lemma seg_text_inject:
  assumes "list_all (\<lambda>(k, v). clean k \<and> clean v) kvs" "list_all (\<lambda>(k, v). clean k \<and> clean v) lws"
    and "seg_text kvs = seg_text lws"
  shows "kvs = lws"
  using assms
proof (induction kvs arbitrary: lws)
  case Nil
  then show ?case by (cases lws) (auto simp: seg_text_def)
next
  case (Cons kv kvs)
  then obtain lw lws' where lws: "lws = lw # lws'" by (cases lws) (auto simp: seg_text_def)
  obtain k v l w where kv: "kv = (k, v)" "lw = (l, w)" by (cases kv; cases lw) auto
  have clean: "clean k" "clean v" "clean l" "clean w" using Cons.prems kv lws by auto
  have eq: "k @ CHR ''='' # v @ seg_text kvs = l @ CHR ''='' # w @ seg_text lws'"
    using Cons.prems(3) by (simp add: seg_text_def kv lws)
  then have "k = l \<and> CHR ''='' # v @ seg_text kvs = CHR ''='' # w @ seg_text lws'"
    by (intro split_at_separator [of "CHR ''=''"] cleanD clean) simp_all
  then have "k = l" "v @ seg_text kvs = w @ seg_text lws'" by simp_all
  moreover from this(2) have "v = w \<and> seg_text kvs = seg_text lws'"
    by (intro split_at_separator [of "CHR ''|''"] cleanD clean seg_text_hd)
  moreover have "kvs = lws'" using Cons.IH [of lws'] Cons.prems lws calculation by simp
  ultimately show ?case by (simp add: kv lws)
qed

definition tag_pairs :: "tags \<Rightarrow> (string \<times> string) list" where
  "tag_pairs ts = map (\<lambda>k. (k, tag_value ts k)) (sorted_keys ts)"

lemma tag_segments_pairs: "tag_segments ts = seg_text (tag_pairs ts)"
  by (simp add: tag_segments_def seg_text_def tag_pairs_def comp_def)

lemma tag_pairs_clean: "clean_tags ts \<Longrightarrow> list_all (\<lambda>(k, v). clean k \<and> clean v) (tag_pairs ts)"
  by (auto simp: clean_tags_def tag_pairs_def list_all_iff sorted_keys_def tag_value_def
      split: option.split dest: map_of_SomeD)

lemma map_of_tag_pairs: "map_of (tag_pairs ts) = map_of ts"
proof
  fix k
  show "map_of (tag_pairs ts) k = map_of ts k"
    using map_of_eq_None_iff [of ts k]
    by (cases "map_of ts k") (auto simp: tag_pairs_def map_of_map_restrict sorted_keys_def
        tag_value_def restrict_map_def image_iff dest: map_of_SomeD)
qed

section \<open>Multi\<close>

text \<open>
  \<open>Multi.Write\<close> starts one goroutine per child and waits for all of them. A child is a name
  and a write function on its own state; the result is the children's new states and the
  errors handed to \<open>OnError\<close>. \<open>Write\<close> itself always returns \<open>nil\<close>.
\<close>

definition multi_timeout :: "duration \<Rightarrow> duration" where
  "multi_timeout timeout = (if timeout \<le> 0 then 200 * millisecond else timeout)"

type_synonym ('e, 's) child = "string \<times> (measurement \<Rightarrow> 's \<Rightarrow> 'e option \<times> 's) \<times> 's"

definition child_write :: "measurement \<Rightarrow> ('e, 's) child \<Rightarrow> (string \<times> 'e) list \<times> ('e, 's) child" where
  "child_write m c =
     (case c of (name, write, s) \<Rightarrow>
        (case write m s of
           (None, s') \<Rightarrow> ([], (name, write, s'))
         | (Some e, s') \<Rightarrow> ([(name, e)], (name, write, s'))))"

definition multi_write :: "measurement \<Rightarrow> ('e, 's) child list \<Rightarrow> (string \<times> 'e) list \<times> ('e, 's) child list" where
  "multi_write m cs =
     (concat (map (\<lambda>c. fst (child_write m c)) cs), map (\<lambda>c. snd (child_write m c)) cs)"

text \<open>\<open>Multi.Close\<close> closes the children one after the other, whatever they return.\<close>

definition multi_close :: "(string \<times> ('s \<Rightarrow> 'e option \<times> 's) \<times> 's) list \<Rightarrow> (string \<times> 'e) list \<times> 's list" where
  "multi_close cs =
     (List.map_filter (\<lambda>(name, close, s). map_option (Pair name) (fst (close s))) cs,
      map (\<lambda>(name, close, s). snd (close s)) cs)"

text \<open>What one child makes of a series of measurements alone.\<close>

definition child_run :: "measurement list \<Rightarrow> ('e, 's) child \<Rightarrow> ('e, 's) child" where
  "child_run ms c = fold (\<lambda>m c. snd (child_write m c)) ms c"

definition multi_run :: "measurement list \<Rightarrow> ('e, 's) child list \<Rightarrow> ('e, 's) child list" where
  "multi_run ms cs = fold (\<lambda>m cs. snd (multi_write m cs)) ms cs"

section \<open>Properties\<close>

text \<open>
  A series key identifies its series: for tag maps without the separator characters
  two measurements get the same key exactly when they have the same name and the same
  tags, in whatever order Go iterates over the maps. So windows and scrape values of
  different series never mix.
\<close>

theorem seriesKey_identifies:
  assumes "clean n" "clean_tags ts" "clean n'" "clean_tags ts'"
  shows "seriesKey n ts = seriesKey n' ts' \<longleftrightarrow> n = n' \<and> map_of ts = map_of ts'"
proof
  assume "seriesKey n ts = seriesKey n' ts'"
  then have "n @ seg_text (tag_pairs ts) = n' @ seg_text (tag_pairs ts')"
    by (simp add: seriesKey_segments tag_segments_pairs)
  then have "n = n' \<and> seg_text (tag_pairs ts) = seg_text (tag_pairs ts')"
    by (intro split_at_separator [of "CHR ''|''"] cleanD assms seg_text_hd)
  moreover from this have "tag_pairs ts = tag_pairs ts'"
    by (intro seg_text_inject tag_pairs_clean assms) simp
  ultimately show "n = n' \<and> map_of ts = map_of ts'" by (metis map_of_tag_pairs)
next
  assume "n = n' \<and> map_of ts = map_of ts'"
  moreover from this have "tag_segments ts = tag_segments ts'"
    using assms by (intro tag_segments_order) (auto simp: clean_tags_def)
  ultimately show "seriesKey n ts = seriesKey n' ts'" by (simp add: seriesKey_segments)
qed

theorem seriesKey_identifies_witness:
  "seriesKey ''volt'' [(''phase'', ''r''), (''a'', ''b'')] = seriesKey ''volt'' [(''a'', ''b''), (''phase'', ''r'')]"
  using seriesKey_identifies [of "''volt''" "[(''phase'', ''r''), (''a'', ''b'')]" "''volt''"
      "[(''a'', ''b''), (''phase'', ''r'')]"]
  by (simp add: clean_def clean_tags_def fun_eq_iff)

text \<open>
  The fan-out isolates its sinks: over any series of measurements each child ends in
  the state it would reach alone, so every measurement reaches every child in order,
  whatever the other children return.
\<close>

theorem multi_isolates:
  "multi_run ms cs = map (child_run ms) cs"
proof (induction ms arbitrary: cs)
  case Nil
  then show ?case by (simp add: multi_run_def child_run_def)
next
  case (Cons m ms)
  then show ?case by (simp add: multi_run_def child_run_def multi_write_def)
qed

end
