(* ===== verification/Sink_Downsample.thy ===== *)
theory Sink_Downsample
  imports Sink_Core
begin

text \<open>
  \<open>internal/sink/downsample.go\<close>: the \<open>Downsampler\<close>, a sink that aggregates the samples of a
  series over aligned windows before it forwards them. \<open>emitted\<close> logs what it writes to the
  inner sink. Go iterates over the buffer map in no fixed order; the order is an argument
  of the operations that iterate. \<open>Sink_Downsample_Safety\<close> shows what it computes.
\<close>

section \<open>Aggregations\<close>

datatype aggregation = AggMean | AggMax | AggMin | AggLast | AggSum

text \<open>The Go type is a string; \<open>None\<close> is what \<open>Valid\<close> rejects.\<close>

definition agg_of_string :: "string \<Rightarrow> aggregation option" where
  "agg_of_string s =
     (if s = ''mean'' then Some AggMean
      else if s = ''max'' then Some AggMax
      else if s = ''min'' then Some AggMin
      else if s = ''last'' then Some AggLast
      else if s = ''sum'' then Some AggSum
      else None)"

definition agg_valid :: "string \<Rightarrow> bool" where
  "agg_valid s \<longleftrightarrow> agg_of_string s \<noteq> None"

section \<open>State\<close>

record ds_config =
  ds_Window :: duration
  ds_Aggregation :: string
  ds_CounterNames :: "string list"
  ds_IdleFlush :: duration

record window_buf =
  wb_name :: string
  wb_unit :: string
  wb_tags :: tags
  winStart :: instant
  samples :: "float64 list"
  lastVal :: float64
  lastTS :: instant
  updated :: instant

record downsampler =
  window :: duration
  agg :: aggregation
  counters :: "string set"
  idleFlush :: duration
  bufs :: "string \<rightharpoonup> window_buf"
  emitted :: "measurement list"

datatype ds_error = BadWindow | UnknownAggregation string

definition NewDownsampler :: "ds_config \<Rightarrow> ds_error + downsampler" where
  "NewDownsampler cfg =
     (if ds_Window cfg \<le> 0 then Inl BadWindow
      else
        let name = (if ds_Aggregation cfg = [] then ''mean'' else ds_Aggregation cfg) in
        (case agg_of_string name of
           None \<Rightarrow> Inl (UnknownAggregation name)
         | Some a \<Rightarrow>
             Inr \<lparr>window = ds_Window cfg, agg = a, counters = set (ds_CounterNames cfg),
                  idleFlush = (if ds_IdleFlush cfg \<le> 0 then ds_Window cfg else ds_IdleFlush cfg),
                  bufs = Map.empty, emitted = []\<rparr>))"

section \<open>Aggregates\<close>

definition f_sum :: "float64 list \<Rightarrow> float64" where
  "f_sum vs = foldl f_add (f_of_int 0) vs"

definition f_max :: "float64 list \<Rightarrow> float64" where
  "f_max vs = foldl (\<lambda>value v. if f_less value v then v else value) (hd vs) (tl vs)"

definition f_min :: "float64 list \<Rightarrow> float64" where
  "f_min vs = foldl (\<lambda>value v. if f_less v value then v else value) (hd vs) (tl vs)"

definition aggregate :: "aggregation \<Rightarrow> float64 list \<Rightarrow> float64 \<Rightarrow> float64" where
  "aggregate a vs lst =
     (case a of
        AggMean \<Rightarrow> f_div (f_sum vs) (f_of_int (int (length vs)))
      | AggMax \<Rightarrow> f_max vs
      | AggMin \<Rightarrow> f_min vs
      | AggSum \<Rightarrow> f_sum vs
      | AggLast \<Rightarrow> lst)"

definition agg_for :: "downsampler \<Rightarrow> string \<Rightarrow> aggregation" where
  "agg_for d name = (if name \<in> counters d then AggLast else agg d)"

definition finishLocked :: "downsampler \<Rightarrow> window_buf \<Rightarrow> measurement option" where
  "finishLocked d buf =
     (if samples buf = [] then None
      else Some \<lparr>Timestamp = winStart buf, Name = wb_name buf,
                 Value = aggregate (agg_for d (wb_name buf)) (samples buf) (lastVal buf),
                 Unit = wb_unit buf, Tags = wb_tags buf\<rparr>)"

section \<open>Operations\<close>

text \<open>Emitting and deleting one window.\<close>

definition emit_window :: "string \<Rightarrow> downsampler \<Rightarrow> downsampler" where
  "emit_window key d =
     (case bufs d key of
        None \<Rightarrow> d
      | Some buf \<Rightarrow>
          d\<lparr>bufs := (bufs d)(key := None),
            emitted := emitted d @ (case finishLocked d buf of None \<Rightarrow> [] | Some m \<Rightarrow> [m])\<rparr>)"

definition stamp :: "instant \<Rightarrow> measurement \<Rightarrow> measurement" where
  "stamp now m = (if is_zero_time (Timestamp m) then m\<lparr>Timestamp := now\<rparr> else m)"

text \<open>
  The two critical sections of \<open>Write\<close>: emitting the previous window, then recording the
  sample, in a fresh buffer if there is none.
\<close>

definition write_roll :: "string \<Rightarrow> instant \<Rightarrow> downsampler \<Rightarrow> downsampler" where
  "write_roll key start d =
     (case bufs d key of
        Some buf \<Rightarrow> if winStart buf \<noteq> start then emit_window key d else d
      | None \<Rightarrow> d)"

definition new_buf :: "measurement \<Rightarrow> instant \<Rightarrow> window_buf" where
  "new_buf m start =
     \<lparr>wb_name = Name m, wb_unit = Unit m, wb_tags = Tags m, winStart = start, samples = [],
      lastVal = Fin 0, lastTS = 0, updated = 0\<rparr>"

definition add_sample :: "instant \<Rightarrow> measurement \<Rightarrow> window_buf \<Rightarrow> window_buf" where
  "add_sample now m buf =
     buf\<lparr>samples := samples buf @ [Value m], lastVal := Value m, lastTS := Timestamp m, updated := now\<rparr>"

definition write_record :: "instant \<Rightarrow> string \<Rightarrow> instant \<Rightarrow> measurement \<Rightarrow> downsampler \<Rightarrow> downsampler" where
  "write_record now key start m d =
     (let buf = (case bufs d key of Some buf \<Rightarrow> buf | None \<Rightarrow> new_buf m start)
      in d\<lparr>bufs := (bufs d)(key \<mapsto> add_sample now m buf)\<rparr>)"

definition ds_write :: "instant \<Rightarrow> measurement \<Rightarrow> downsampler \<Rightarrow> downsampler" where
  "ds_write now m d =
     (let m = stamp now m; start = truncate_time (Timestamp m) (window d);
          key = seriesKey (Name m) (Tags m)
      in write_record now key start m (write_roll key start d))"

text \<open>A tick of \<open>backgroundFlush\<close>, iterating over the keys in the order given.\<close>

definition flush_key :: "instant \<Rightarrow> string \<Rightarrow> downsampler \<Rightarrow> downsampler" where
  "flush_key cutoff key d =
     (case bufs d key of
        Some buf \<Rightarrow> if updated buf < cutoff then emit_window key d else d
      | None \<Rightarrow> d)"

definition flush_cutoff :: "instant \<Rightarrow> duration \<Rightarrow> instant" where
  "flush_cutoff now w = now - w - w div 2"

definition ds_flush :: "instant \<Rightarrow> string list \<Rightarrow> downsampler \<Rightarrow> downsampler" where
  "ds_flush now keys d = fold (flush_key (flush_cutoff now (window d))) keys d"

definition ds_close :: "string list \<Rightarrow> downsampler \<Rightarrow> downsampler" where
  "ds_close keys d = (fold emit_window keys d)\<lparr>bufs := Map.empty\<rparr>"

text \<open>
  A history: writes and ticks at given times. A tick iterates over all buffers, in some
  order.
\<close>

datatype ds_event = DsWrite instant measurement | DsTick instant

definition legal_order :: "string list \<Rightarrow> downsampler \<Rightarrow> bool" where
  "legal_order keys d \<longleftrightarrow> distinct keys \<and> set keys = dom (bufs d)"

inductive ds_exec :: "downsampler \<Rightarrow> ds_event list \<Rightarrow> downsampler \<Rightarrow> bool" where
  ds_start: "ds_exec d [] d"
| ds_wrote: "ds_exec d es e \<Longrightarrow> ds_exec d (es @ [DsWrite now m]) (ds_write now m e)"
| ds_ticked: "ds_exec d es e \<Longrightarrow> legal_order keys e \<Longrightarrow>
    ds_exec d (es @ [DsTick now]) (ds_flush now keys e)"

end
