(* ===== verification/Sink_Downsample_Safety.thy ===== *)
theory Sink_Downsample_Safety
  imports Sink_Downsample
begin

text \<open>
  What the \<open>Downsampler\<close> computes: it refines a specification in which each series is a
  sequence of groups of samples, so no sample is lost, duplicated, or counted in another
  window or series; and what the aggregates of a group are.
\<close>

section \<open>The specification\<close>

text \<open>
  A series as its finished groups and the group being collected. A sample of another
  window starts a new group; a flush ends the group.
\<close>

record series_state =
  finished :: "measurement list list"
  current :: "measurement list"
  touched :: instant

definition series_init :: series_state where
  "series_init = \<lparr>finished = [], current = [], touched = 0\<rparr>"

definition spec_end :: "series_state \<Rightarrow> series_state" where
  "spec_end s =
     (if current s = [] then s else s\<lparr>finished := finished s @ [current s], current := []\<rparr>)"

definition spec_add :: "instant \<Rightarrow> duration \<Rightarrow> measurement \<Rightarrow> series_state \<Rightarrow> series_state" where
  "spec_add now w m s =
     (let s = (if current s \<noteq> [] \<and>
                  truncate_time (Timestamp (hd (current s))) w \<noteq> truncate_time (Timestamp m) w
               then spec_end s else s)
      in s\<lparr>current := current s @ [m], touched := now\<rparr>)"

definition spec_flush :: "instant \<Rightarrow> series_state \<Rightarrow> series_state" where
  "spec_flush cutoff s = (if current s \<noteq> [] \<and> touched s < cutoff then spec_end s else s)"

definition spec_event :: "duration \<Rightarrow> string \<Rightarrow> ds_event \<Rightarrow> series_state \<Rightarrow> series_state" where
  "spec_event w k e s =
     (case e of
        DsWrite now m \<Rightarrow> if key_of m = k then spec_add now w (stamp now m) s else s
      | DsTick now \<Rightarrow> spec_flush (flush_cutoff now w) s)"

definition spec_run :: "duration \<Rightarrow> ds_event list \<Rightarrow> string \<Rightarrow> series_state" where
  "spec_run w es k = fold (spec_event w k) es series_init"

text \<open>What a group is forwarded as.\<close>

definition summary :: "downsampler \<Rightarrow> measurement list \<Rightarrow> measurement" where
  "summary d g =
     \<lparr>Timestamp = truncate_time (Timestamp (hd g)) (window d), Name = Name (hd g),
      Value = aggregate (agg_for d (Name (hd g))) (map Value g) (Value (last g)),
      Unit = Unit (hd g), Tags = Tags (hd g)\<rparr>"

definition emitted_for :: "string \<Rightarrow> downsampler \<Rightarrow> measurement list" where
  "emitted_for k d = filter (\<lambda>m. key_of m = k) (emitted d)"

text \<open>The abstraction relation, series by series.\<close>

definition buf_abs :: "downsampler \<Rightarrow> measurement list \<Rightarrow> instant \<Rightarrow> window_buf option \<Rightarrow> bool" where
  "buf_abs d g t b =
     (case b of
        None \<Rightarrow> g = []
      | Some buf \<Rightarrow>
          g \<noteq> [] \<and> samples buf = map Value g \<and> lastVal buf = Value (last g) \<and> updated buf = t \<and>
          winStart buf = truncate_time (Timestamp (hd g)) (window d) \<and>
          wb_name buf = Name (hd g) \<and> wb_unit buf = Unit (hd g) \<and> wb_tags buf = Tags (hd g))"

definition implements :: "downsampler \<Rightarrow> (string \<Rightarrow> series_state) \<Rightarrow> bool" where
  "implements d A \<longleftrightarrow>
     (\<forall>k. emitted_for k d = map (summary d) (finished (A k)) \<and>
          buf_abs d (current (A k)) (touched (A k)) (bufs d k) \<and>
          list_all (\<lambda>m. key_of m = k) (current (A k)))"

section \<open>The simulation\<close>

lemma emit_window_frame [simp]:
  "window (emit_window k d) = window d" "agg (emit_window k d) = agg d"
  "counters (emit_window k d) = counters d"
  by (simp_all add: emit_window_def split: option.split)

lemma summary_frame:
  "window d' = window d \<Longrightarrow> agg d' = agg d \<Longrightarrow> counters d' = counters d \<Longrightarrow> summary d' = summary d"
  by (simp add: summary_def agg_for_def fun_eq_iff)

lemma buf_abs_frame: "window d' = window d \<Longrightarrow> buf_abs d' g t b = buf_abs d g t b"
  by (simp add: buf_abs_def split: option.split)

text \<open>Finishing the buffer of a group gives the summary of the group.\<close>

lemma finishLocked_summary:
  assumes "buf_abs d g t (Some buf)"
  shows "finishLocked d buf = Some (summary d g)"
  using assms by (simp add: buf_abs_def finishLocked_def summary_def)

lemma key_of_summary: "g \<noteq> [] \<Longrightarrow> key_of (summary d g) = key_of (hd g)"
  by (simp add: key_of_def summary_def)

lemma implements_emit:
  assumes "implements d A"
  shows "implements (emit_window k d) (A(k := spec_end (A k)))"
proof (cases "bufs d k")
  case None
  then have "current (A k) = []" using assms by (auto simp: implements_def buf_abs_def dest: spec [of _ k])
  then have "A(k := spec_end (A k)) = A" by (simp add: spec_end_def)
  with None assms show ?thesis by (simp add: emit_window_def)
next
  case (Some buf)
  let ?d = "emit_window k d"
  have abs: "buf_abs d (current (A k)) (touched (A k)) (Some buf)" and keys: "list_all (\<lambda>m. key_of m = k) (current (A k))"
    and em: "emitted_for k d = map (summary d) (finished (A k))"
    using assms Some by (auto simp: implements_def dest: spec [of _ k])
  have ne: "current (A k) \<noteq> []" using abs by (simp add: buf_abs_def)
  then have key: "key_of (summary d (current (A k))) = k"
    using keys by (simp add: key_of_summary list_all_iff)
  have d: "?d = d\<lparr>bufs := (bufs d)(k := None), emitted := emitted d @ [summary d (current (A k))]\<rparr>"
    using Some abs by (simp add: emit_window_def finishLocked_summary)
  have sum: "summary ?d = summary d" by (rule summary_frame) simp_all
  show ?thesis
    unfolding implements_def
  proof (intro allI conjI)
    fix j
    show "emitted_for j ?d = map (summary ?d) (finished ((A(k := spec_end (A k))) j))"
      using assms em key ne unfolding sum
      by (cases "j = k") (auto simp: d emitted_for_def spec_end_def implements_def dest: spec [of _ j])
    show "buf_abs ?d (current ((A(k := spec_end (A k))) j)) (touched ((A(k := spec_end (A k))) j)) (bufs ?d j)"
      using assms ne buf_abs_frame [of ?d d]
      by (cases "j = k") (auto simp: d spec_end_def implements_def buf_abs_def dest: spec [of _ j])
    show "list_all (\<lambda>m. key_of m = j) (current ((A(k := spec_end (A k))) j))"
      using assms by (auto simp: spec_end_def implements_def)
  qed
qed

text \<open>Recording a sample extends the current group.\<close>

lemma ds_frame [simp]:
  "window (write_record now k st m d) = window d" "agg (write_record now k st m d) = agg d"
  "counters (write_record now k st m d) = counters d" "emitted (write_record now k st m d) = emitted d"
  "window (write_roll k st d) = window d" "agg (write_roll k st d) = agg d"
  "counters (write_roll k st d) = counters d"
  "window (flush_key c k d) = window d" "agg (flush_key c k d) = agg d" "counters (flush_key c k d) = counters d"
  by (simp_all add: write_record_def write_roll_def flush_key_def Let_def split: option.split)

lemma key_of_stamp [simp]: "key_of (stamp now m) = key_of m"
  by (simp add: key_of_def stamp_def)

lemma stamp_frame [simp]: "Name (stamp now m) = Name m" "Tags (stamp now m) = Tags m" "Value (stamp now m) = Value m"
  by (simp_all add: stamp_def)

lemma implements_record:
  assumes "implements d A" "key_of m = k" "start = truncate_time (Timestamp m) (window d)"
    and "current (A k) \<noteq> [] \<Longrightarrow> truncate_time (Timestamp (hd (current (A k)))) (window d) = start"
  shows "implements (write_record now k start m d)
      (A(k := (A k)\<lparr>current := current (A k) @ [m], touched := now\<rparr>))"
proof -
  let ?d = "write_record now k start m d"
  have sum: "summary ?d = summary d" by (rule summary_frame) simp_all
  have em: "emitted_for j ?d = emitted_for j d" for j by (simp add: emitted_for_def)
  have abs: "buf_abs d (current (A j)) (touched (A j)) (bufs d j)"
    and keys: "list_all (\<lambda>m. key_of m = j) (current (A j))" for j
    using assms(1) by (simp_all add: implements_def)
  have new: "buf_abs ?d (current (A k) @ [m]) now (bufs ?d k)"
    using abs [of k] assms(3,4)
    by (cases "current (A k)")
      (auto simp: buf_abs_def write_record_def add_sample_def new_buf_def split: option.splits)
  have other: "bufs ?d j = bufs d j" if "j \<noteq> k" for j
    using that by (simp add: write_record_def Let_def)
  show ?thesis
    unfolding implements_def
    using assms(1,2) new abs keys other by (auto simp: implements_def sum em buf_abs_frame [of ?d d])
qed

lemma implements_roll:
  assumes "implements d A"
  shows "implements (write_roll k start d)
      (A(k := if current (A k) \<noteq> [] \<and> truncate_time (Timestamp (hd (current (A k)))) (window d) \<noteq> start
              then spec_end (A k) else A k))"
proof -
  have abs: "buf_abs d (current (A k)) (touched (A k)) (bufs d k)"
    using assms by (simp add: implements_def)
  show ?thesis
  proof (cases "bufs d k")
    case None
    with abs assms show ?thesis by (simp add: write_roll_def buf_abs_def)
  next
    case (Some buf)
    with abs assms implements_emit [OF assms, of k] show ?thesis
      by (simp add: write_roll_def buf_abs_def)
  qed
qed

lemma implements_write:
  assumes "implements d A"
  shows "implements (ds_write now m d) (\<lambda>k. spec_event (window d) k (DsWrite now m) (A k))"
proof -
  let ?m = "stamp now m" and ?k = "key_of m"
  let ?start = "truncate_time (Timestamp ?m) (window d)"
  let ?A = "A(?k := if current (A ?k) \<noteq> [] \<and> truncate_time (Timestamp (hd (current (A ?k)))) (window d) \<noteq> ?start
              then spec_end (A ?k) else A ?k)"
  have "implements (write_roll ?k ?start d) ?A" by (rule implements_roll [OF assms])
  moreover have "current (?A ?k) \<noteq> [] \<Longrightarrow> truncate_time (Timestamp (hd (current (?A ?k)))) (window d) = ?start"
    by (auto simp: spec_end_def split: if_splits)
  ultimately have "implements (write_record now ?k ?start ?m (write_roll ?k ?start d))
      (?A(?k := (?A ?k)\<lparr>current := current (?A ?k) @ [?m], touched := now\<rparr>))"
    by (intro implements_record) simp_all
  moreover have "?A(?k := (?A ?k)\<lparr>current := current (?A ?k) @ [?m], touched := now\<rparr>)
      = (\<lambda>k. spec_event (window d) k (DsWrite now m) (A k))"
    by (auto simp: spec_event_def spec_add_def Let_def fun_eq_iff)
  moreover have "write_record now ?k ?start ?m (write_roll ?k ?start d) = ds_write now m d"
    by (simp add: ds_write_def key_of_def Let_def)
  ultimately show ?thesis by simp
qed

text \<open>A tick and closing: the keys are visited one after the other.\<close>

lemma implements_flush_key:
  assumes "implements d A"
  shows "implements (flush_key cutoff k d) (A(k := spec_flush cutoff (A k)))"
proof -
  have abs: "buf_abs d (current (A k)) (touched (A k)) (bufs d k)"
    using assms by (simp add: implements_def)
  show ?thesis
  proof (cases "bufs d k")
    case None
    with abs assms show ?thesis by (simp add: flush_key_def spec_flush_def buf_abs_def)
  next
    case (Some buf)
    with abs assms implements_emit [OF assms, of k] show ?thesis
      by (simp add: flush_key_def spec_flush_def buf_abs_def)
  qed
qed

lemma implements_fold:
  assumes step: "\<And>k d A. implements d A \<Longrightarrow> implements (f k d) (A(k := g (A k)))"
    and "implements d A" "distinct keys"
  shows "implements (fold f keys d) (\<lambda>k. if k \<in> set keys then g (A k) else A k)"
  using assms(2,3)
proof (induction keys arbitrary: d A)
  case (Cons k keys)
  have "implements (fold f keys (f k d)) (\<lambda>j. if j \<in> set keys then g ((A(k := g (A k))) j) else (A(k := g (A k))) j)"
    using Cons.prems by (intro Cons.IH step) simp_all
  moreover have "(\<lambda>j. if j \<in> set keys then g ((A(k := g (A k))) j) else (A(k := g (A k))) j)
      = (\<lambda>j. if j \<in> set (k # keys) then g (A j) else A j)"
    using Cons.prems(2) by (auto simp: fun_eq_iff)
  ultimately show ?case by simp
qed simp

lemma implements_idle:
  assumes "implements d A" "bufs d k = None"
  shows "current (A k) = []"
  using assms by (auto simp: implements_def buf_abs_def dest: spec [of _ k])

lemma implements_flush:
  assumes "implements d A" "legal_order keys d"
  shows "implements (ds_flush now keys d) (\<lambda>k. spec_event (window d) k (DsTick now) (A k))"
proof -
  let ?c = "flush_cutoff now (window d)"
  have "implements (ds_flush now keys d) (\<lambda>k. if k \<in> set keys then spec_flush ?c (A k) else A k)"
    using assms unfolding ds_flush_def legal_order_def
    by (intro implements_fold implements_flush_key) simp_all
  moreover have "(\<lambda>k. if k \<in> set keys then spec_flush ?c (A k) else A k)
      = (\<lambda>k. spec_event (window d) k (DsTick now) (A k))"
    using assms implements_idle [OF assms(1)]
    by (auto simp: fun_eq_iff spec_event_def spec_flush_def legal_order_def)
  ultimately show ?thesis by simp
qed

lemma implements_close:
  assumes "implements d A" "legal_order keys d"
  shows "implements (ds_close keys d) (\<lambda>k. spec_end (A k))"
proof -
  have "implements (fold emit_window keys d) (\<lambda>k. if k \<in> set keys then spec_end (A k) else A k)"
    using assms by (intro implements_fold implements_emit) (simp_all add: legal_order_def)
  moreover have "(\<lambda>k. if k \<in> set keys then spec_end (A k) else A k) = (\<lambda>k. spec_end (A k))"
    using assms implements_idle [OF assms(1)] by (auto simp: fun_eq_iff spec_end_def legal_order_def)
  ultimately have impl: "implements (fold emit_window keys d) (\<lambda>k. spec_end (A k))" by simp
  have none: "bufs (fold emit_window keys d) = Map.empty"
  proof
    fix k
    have "buf_abs (fold emit_window keys d) [] (touched (spec_end (A k))) (bufs (fold emit_window keys d) k)"
      using impl by (auto simp: implements_def spec_end_def dest!: spec [of _ k] split: if_splits)
    then show "bufs (fold emit_window keys d) k = None" by (simp add: buf_abs_def split: option.splits)
  qed
  then have "ds_close keys d = fold emit_window keys d" by (simp add: ds_close_def)
  with impl show ?thesis by simp
qed

section \<open>Histories\<close>

lemma NewDownsampler_fields:
  assumes "NewDownsampler cfg = Inr d"
  shows "window d = ds_Window cfg" "0 < window d" "bufs d = Map.empty" "emitted d = []"
  using assms by (auto simp: NewDownsampler_def Let_def split: if_splits option.splits)

lemma implements_new: "NewDownsampler cfg = Inr d \<Longrightarrow> implements d (\<lambda>_. series_init)"
  by (simp add: implements_def NewDownsampler_fields emitted_for_def series_init_def buf_abs_def)

lemma emit_fold_frame:
  "(\<And>k d. window (f k d) = window d \<and> agg (f k d) = agg d \<and> counters (f k d) = counters d) \<Longrightarrow>
     window (fold f keys d) = window d \<and> agg (fold f keys d) = agg d \<and> counters (fold f keys d) = counters d"
  by (induction keys arbitrary: d) auto

lemma ds_ops_frame:
  "summary (ds_write now m d) = summary d" "summary (ds_flush now keys d) = summary d"
  "summary (ds_close keys d) = summary d"
  "window (ds_write now m d) = window d" "window (ds_flush now keys d) = window d"
proof -
  show "summary (ds_write now m d) = summary d"
    by (rule summary_frame) (simp_all add: ds_write_def Let_def)
  show "window (ds_write now m d) = window d" by (simp add: ds_write_def Let_def)
  have flush: "window (ds_flush now keys d) = window d \<and> agg (ds_flush now keys d) = agg d \<and>
      counters (ds_flush now keys d) = counters d"
    unfolding ds_flush_def by (rule emit_fold_frame) simp
  then show "summary (ds_flush now keys d) = summary d" "window (ds_flush now keys d) = window d"
    by (auto intro: summary_frame)
  have "window (fold emit_window keys d) = window d \<and> agg (fold emit_window keys d) = agg d \<and>
      counters (fold emit_window keys d) = counters d"
    by (rule emit_fold_frame) simp
  then show "summary (ds_close keys d) = summary d"
    by (intro summary_frame) (simp_all add: ds_close_def)
qed

lemma exec_implements:
  assumes "ds_exec d0 es d" "NewDownsampler cfg = Inr d0"
  shows "implements d (spec_run (window d0) es) \<and> window d = window d0 \<and> summary d = summary d0"
  using assms
proof (induction rule: ds_exec.induct)
  case (ds_start d)
  then show ?case by (simp add: spec_run_def implements_new)
next
  case (ds_wrote d es e now m)
  then have "implements e (spec_run (window d) es)" "window e = window d" "summary e = summary d" by simp_all
  then show ?case using implements_write [of e "spec_run (window d) es" now m]
    by (simp add: ds_ops_frame spec_run_def)
next
  case (ds_ticked d es e keys now)
  then have "implements e (spec_run (window d) es)" "window e = window d" "summary e = summary d" by simp_all
  then show ?case using implements_flush [of e "spec_run (window d) es" keys now] ds_ticked.hyps
    by (simp add: ds_ops_frame spec_run_def)
qed

text \<open>The samples of a series, in the order written, and the groups the specification makes of them.\<close>

definition samples_of :: "string \<Rightarrow> ds_event list \<Rightarrow> measurement list" where
  "samples_of k es = concat (map (\<lambda>e. case e of
      DsWrite now m \<Rightarrow> if key_of m = k then [stamp now m] else []
    | DsTick now \<Rightarrow> []) es)"

definition write_times :: "string \<Rightarrow> ds_event list \<Rightarrow> instant list" where
  "write_times k es = concat (map (\<lambda>e. case e of
      DsWrite now m \<Rightarrow> if key_of m = k then [now] else []
    | DsTick now \<Rightarrow> []) es)"

definition one_window :: "duration \<Rightarrow> measurement list \<Rightarrow> bool" where
  "one_window w g \<longleftrightarrow> g \<noteq> [] \<and>
     list_all (\<lambda>m. truncate_time (Timestamp m) w = truncate_time (Timestamp (hd g)) w) g"

text \<open>The specification keeps every sample, in groups of one window each.\<close>

definition keeps :: "duration \<Rightarrow> measurement list \<Rightarrow> series_state \<Rightarrow> bool" where
  "keeps w ms s \<longleftrightarrow> concat (finished s) @ current s = ms \<and> list_all (one_window w) (finished s) \<and>
     (current s \<noteq> [] \<longrightarrow> one_window w (current s))"

lemma keeps_end: "keeps w ms s \<Longrightarrow> keeps w ms (spec_end s) \<and> current (spec_end s) = []"
  by (auto simp: keeps_def spec_end_def)

lemma keeps_add:
  assumes "keeps w ms s"
  shows "keeps w (ms @ [m]) (spec_add now w m s)"
proof (cases "current s \<noteq> [] \<and> truncate_time (Timestamp (hd (current s))) w \<noteq> truncate_time (Timestamp m) w")
  case True
  then show ?thesis using keeps_end [OF assms] by (auto simp: keeps_def spec_add_def one_window_def)
next
  case False
  with assms show ?thesis
    by (cases "current s") (auto simp: keeps_def spec_add_def one_window_def)
qed

lemma spec_run_snoc: "spec_run w (es @ [e]) k = spec_event w k e (spec_run w es k)"
  by (simp add: spec_run_def)

lemma spec_run_keeps: "keeps w (samples_of k es) (spec_run w es k)"
proof (induction es rule: rev_induct)
  case Nil
  then show ?case by (simp add: spec_run_def series_init_def keeps_def samples_of_def)
next
  case (snoc e es)
  then show ?case
    by (cases e) (auto simp: spec_run_snoc spec_event_def spec_flush_def samples_of_def intro: keeps_add dest: keeps_end)
qed

lemma spec_run_touched:
  "current (spec_run w es k) \<noteq> [] \<Longrightarrow> touched (spec_run w es k) \<in> set (write_times k es)"
proof (induction es rule: rev_induct)
  case Nil
  then show ?case by (simp add: spec_run_def series_init_def)
next
  case (snoc e es)
  then show ?case
    by (cases e)
      (auto simp: spec_run_snoc spec_event_def spec_flush_def spec_add_def spec_end_def write_times_def Let_def
        split: if_splits)
qed

lemma close_groups:
  assumes "NewDownsampler cfg = Inr d0" "ds_exec d0 es d" "legal_order keys d"
  obtains groups where "concat groups = samples_of k es" "list_all (one_window (ds_Window cfg)) groups"
    "emitted_for k (ds_close keys d) = map (summary d0) groups"
proof -
  let ?s = "spec_end (spec_run (window d0) es k)"
  have run: "implements d (spec_run (window d0) es)" "summary d = summary d0"
    using exec_implements [OF assms(2,1)] by simp_all
  then have "emitted_for k (ds_close keys d) = map (summary d0) (finished ?s)"
    using implements_close [OF run(1) assms(3)] by (simp add: implements_def ds_ops_frame)
  moreover have "keeps (window d0) (samples_of k es) ?s" "current ?s = []"
    using keeps_end [OF spec_run_keeps] by auto
  ultimately show thesis
    using NewDownsampler_fields [OF assms(1)] that [of "finished ?s"] by (simp add: keeps_def)
qed

text \<open>Taking the last of each group of an ordered list keeps the order.\<close>

lemma lasts_sorted:
  assumes "sorted_wrt r (concat gs)" "[] \<notin> set gs"
  shows "sorted_wrt r (map last gs)"
  using assms
proof (induction gs)
  case (Cons g gs)
  then have g: "g \<noteq> []" "sorted_wrt r (map last gs)" by (auto simp: sorted_wrt_append)
  have "r (last g) (last h)" if "h \<in> set gs" for h
  proof -
    have "last g \<in> set g" "last h \<in> set h" using that g(1) Cons.prems(2) by (auto intro: last_in_set)
    then show ?thesis using Cons.prems(1) that by (auto simp: sorted_wrt_append)
  qed
  with g show ?case by simp
qed simp

lemma counter_value:
  "Name (hd g) \<in> counters d \<Longrightarrow> Value (summary d g) = Value (last g)"
  by (simp add: summary_def aggregate_def agg_for_def)

lemma counters_sorted:
  assumes "NewDownsampler cfg = Inr d0" "ds_exec d0 es d" "legal_order keys d"
    and "list_all (\<lambda>m. Name m \<in> counters d0) (samples_of k es)"
    and "sorted_wrt (\<lambda>m m'. f_le (Value m) (Value m')) (samples_of k es)"
  shows "sorted_wrt f_le (map Value (emitted_for k (ds_close keys d)))"
proof -
  obtain groups where g: "concat groups = samples_of k es" "list_all (one_window (ds_Window cfg)) groups"
    and em: "emitted_for k (ds_close keys d) = map (summary d0) groups"
    by (rule close_groups [OF assms(1-3)])
  have ne: "[] \<notin> set groups" using g(2) by (auto simp: list_all_iff one_window_def)
  have "Value (summary d0 x) = Value (last x)" if "x \<in> set groups" for x
  proof (rule counter_value)
    have "hd x \<in> set x" using that ne by (intro hd_in_set) auto
    then have "hd x \<in> set (concat groups)" using that by auto
    then show "Name (hd x) \<in> counters d0" using assms(4) by (simp add: g(1) list_all_iff)
  qed
  then have "map Value (emitted_for k (ds_close keys d)) = map Value (map last groups)" by (simp add: em)
  moreover have "sorted_wrt (\<lambda>m m'. f_le (Value m) (Value m')) (map last groups)"
    using assms(5) ne by (intro lasts_sorted) (simp_all add: g(1))
  ultimately show ?thesis by (simp add: sorted_wrt_map)
qed

section \<open>Properties\<close>



text \<open>
  A series that stops reporting is not held back: the first tick more than one and a
  half windows after its last sample empties its buffer, and everything written to it has
  been forwarded.
\<close>

theorem stale_series_emitted:
  assumes "NewDownsampler cfg = Inr d0" "ds_exec d0 es d" "legal_order keys d"
    and "\<forall>t \<in> set (write_times k es). t < flush_cutoff now (ds_Window cfg)"
  shows "bufs (ds_flush now keys d) k = None \<and>
    (\<exists>groups. concat groups = samples_of k es \<and>
      emitted_for k (ds_flush now keys d) = map (summary d0) groups)"
proof -
  let ?s = "spec_run (window d0) es k" and ?d = "ds_flush now keys d"
  have run: "implements d (spec_run (window d0) es)" "window d = window d0" "summary d = summary d0"
    using exec_implements [OF assms(2,1)] by simp_all
  have w: "ds_Window cfg = window d0" using NewDownsampler_fields [OF assms(1)] by simp
  have ev: "spec_event (window d0) k (DsTick now) ?s = spec_end ?s"
    using assms(4) spec_run_touched [of "window d0" es k]
    by (auto simp: spec_event_def spec_flush_def w spec_end_def)
  have "implements ?d (\<lambda>k. spec_event (window d0) k (DsTick now) (spec_run (window d0) es k))"
    using implements_flush [OF run(1) assms(3), of now] run(2) by simp
  then have "emitted_for k ?d = map (summary ?d) (finished (spec_event (window d0) k (DsTick now) ?s)) \<and>
      buf_abs ?d (current (spec_event (window d0) k (DsTick now) ?s))
        (touched (spec_event (window d0) k (DsTick now) ?s)) (bufs ?d k)"
    by (simp add: implements_def)
  then have impl: "emitted_for k ?d = map (summary d0) (finished (spec_end ?s))"
    "buf_abs ?d (current (spec_end ?s)) (touched (spec_end ?s)) (bufs ?d k)"
    by (simp_all add: ev ds_ops_frame run(3))
  have keep: "keeps (window d0) (samples_of k es) (spec_end ?s)" "current (spec_end ?s) = []"
    using keeps_end [OF spec_run_keeps] by auto
  with impl have "bufs ?d k = None" by (simp add: buf_abs_def split: option.splits)
  with impl(1) keep show ?thesis by (auto simp: keeps_def)
qed

text \<open>A run of the downsampler: one-minute means of a power reading, in three windows.\<close>

definition sampler_config :: ds_config where
  "sampler_config = \<lparr>ds_Window = minute, ds_Aggregation = [], ds_CounterNames = [], ds_IdleFlush = 0\<rparr>"

definition demo_sampler :: downsampler where
  "demo_sampler = \<lparr>window = minute, agg = AggMean, counters = {}, idleFlush = minute,
     bufs = Map.empty, emitted = []\<rparr>"

definition demo_sample :: "int \<Rightarrow> int \<Rightarrow> measurement" where
  "demo_sample t v = \<lparr>Timestamp = t * second, Name = ''power'', Value = f_of_int v, Unit = ''W'', Tags = []\<rparr>"

definition demo_events :: "ds_event list" where
  "demo_events = [DsWrite (10 * second) (demo_sample 10 500), DsWrite (50 * second) (demo_sample 50 700),
     DsWrite (70 * second) (demo_sample 70 900)]"

definition sampler_end :: downsampler where
  "sampler_end = ds_write (70 * second) (demo_sample 70 900)
     (ds_write (50 * second) (demo_sample 50 700) (ds_write (10 * second) (demo_sample 10 500) demo_sampler))"

lemma demo_new: "NewDownsampler sampler_config = Inr demo_sampler"
  by (simp add: NewDownsampler_def sampler_config_def demo_sampler_def agg_of_string_def minute_def second_def)

lemma demo_exec: "ds_exec demo_sampler demo_events sampler_end"
  using ds_wrote [OF ds_wrote [OF ds_wrote [OF ds_start [of demo_sampler],
      of "10 * second" "demo_sample 10 500"], of "50 * second" "demo_sample 50 700"],
      of "70 * second" "demo_sample 70 900"]
  by (simp add: demo_events_def sampler_end_def)

lemma demo_key: "seriesKey ''power'' [] = ''power''" by (simp add: seriesKey_def)

lemma demo_order: "legal_order [''power''] sampler_end"
  by (simp add: legal_order_def sampler_end_def demo_sample_def demo_sampler_def ds_write_def Let_def stamp_def
      is_zero_time_def demo_key write_record_def write_roll_def emit_window_def add_sample_def new_buf_def
      truncate_time_def minute_def second_def)



theorem stale_series_emitted_witness:
  "bufs (ds_flush (200 * second) [''power''] sampler_end) ''power'' = None"
  using stale_series_emitted [OF demo_new demo_exec demo_order, of "''power''" "200 * second"]
  by (simp add: write_times_def demo_events_def key_of_def demo_sample_def demo_key flush_cutoff_def
      sampler_config_def minute_def second_def)

section \<open>Aggregates of whole numbers\<close>

lemma f_less_ints:
  assumes "\<bar>a\<bar> \<le> 2 ^ 53" "\<bar>b\<bar> \<le> 2 ^ 53"
  shows "f_less (f_of_int a) (f_of_int b) \<longleftrightarrow> a < b"
  using assms by (simp add: f_of_int_exact)

lemma f_max_ints:
  assumes "\<forall>x \<in> set (z # zs). \<bar>x\<bar> \<le> 2 ^ 53"
  shows "f_max (map f_of_int (z # zs)) = f_of_int (fold (max) zs z)"
  using assms
proof (induction zs arbitrary: z)
  case (Cons y ys)
  have "f_max (map f_of_int (z # y # ys)) = f_max (map f_of_int ((if z < y then y else z) # ys))"
    using Cons.prems by (simp add: f_max_def f_less_ints)
  also have "\<dots> = f_of_int (fold max ys (if z < y then y else z))" using Cons.prems by (intro Cons.IH) simp
  also have "(if z < y then y else z) = max y z" by simp
  finally show ?case by simp
qed (simp add: f_max_def)

lemma f_min_ints:
  assumes "\<forall>x \<in> set (z # zs). \<bar>x\<bar> \<le> 2 ^ 53"
  shows "f_min (map f_of_int (z # zs)) = f_of_int (fold (min) zs z)"
  using assms
proof (induction zs arbitrary: z)
  case (Cons y ys)
  have "f_min (map f_of_int (z # y # ys)) = f_min (map f_of_int ((if y < z then y else z) # ys))"
    using Cons.prems by (simp add: f_min_def f_less_ints)
  also have "\<dots> = f_of_int (fold min ys (if y < z then y else z))" using Cons.prems by (intro Cons.IH) simp
  also have "(if y < z then y else z) = min y z" by simp
  finally show ?case by simp
qed (simp add: f_min_def)

lemma abs_le_sum: "x \<in> set zs \<Longrightarrow> \<bar>x\<bar> \<le> sum_list (map abs (zs :: int list))"
  by (rule member_le_sum_list) (auto simp: image_iff)

lemma sum_between:
  fixes zs :: "int list"
  shows "(\<And>z. z \<in> set zs \<Longrightarrow> lo \<le> z \<and> z \<le> hi) \<Longrightarrow>
    lo * int (length zs) \<le> sum_list zs \<and> sum_list zs \<le> hi * int (length zs)"
  by (induction zs) (auto simp: algebra_simps intro: add_mono)



section \<open>Alignment\<close>

text \<open>
  Windows are aligned to Go's zero time, January 1 of year 1: the first sample of a
  series always opens a window at a multiple of the window size since then, and these are
  also multiples since the Unix epoch exactly when the window size divides the 719162 days
  between the two. One-minute and one-hour windows do, seven-minute windows do not.
\<close>

theorem window_alignment:
  assumes "NewDownsampler cfg = Inr d"
  shows "(\<forall>now m. ds_Window cfg dvd winStart (the (bufs (ds_write now m d) (key_of m))) \<and>
        winStart (the (bufs (ds_write now m d) (key_of m))) \<le> Timestamp (stamp now m) \<and>
        Timestamp (stamp now m) < winStart (the (bufs (ds_write now m d) (key_of m))) + ds_Window cfg)
    \<and> ((\<forall>now m. ds_Window cfg dvd winStart (the (bufs (ds_write now m d) (key_of m))) - unix_epoch)
       \<longleftrightarrow> ds_Window cfg dvd unix_epoch)"
proof -
  note f = NewDownsampler_fields [OF assms]
  have start: "winStart (the (bufs (ds_write now m d) (key_of m))) = truncate_time (Timestamp (stamp now m)) (ds_Window cfg)"
    for now m
    using f by (simp add: ds_write_def Let_def write_roll_def write_record_def key_of_def add_sample_def new_buf_def)
  have w: "0 < ds_Window cfg" using f by simp
  have "ds_Window cfg dvd truncate_time t (ds_Window cfg) - unix_epoch \<longleftrightarrow> ds_Window cfg dvd unix_epoch" for t
    using truncate_dvd [OF w, of t] by (metis dvd_diff_right_iff)
  with w show ?thesis by (simp add: start truncate_dvd truncate_bounds)
qed

theorem window_alignment_witness:
  "\<not> (\<forall>now m. 7 * minute dvd winStart (the (bufs (ds_write now m
      (demo_sampler\<lparr>window := 7 * minute, idleFlush := 7 * minute\<rparr>)) (key_of m))) - unix_epoch)"
  using window_alignment [of "sampler_config\<lparr>ds_Window := 7 * minute\<rparr>"
      "demo_sampler\<lparr>window := 7 * minute, idleFlush := 7 * minute\<rparr>"]
  by (simp add: NewDownsampler_def sampler_config_def demo_sampler_def agg_of_string_def minute_def second_def
      unix_epoch_def)

end
