(* ===== verification/Go_Number.thy ===== *)
theory Go_Number
  imports Go_Strings Go_Float
begin

text \<open>
  Decimal texts of \<open>float64\<close> values: what \<open>strconv.ParseFloat\<close> reads, the shortest digits
  \<open>strconv.AppendFloat\<close> writes with precision -1, and the two layouts \<open>encoding/json\<close> chooses
  between. The main facts: the text is read back as the same value, and no decimal that is
  rounded further to the left would be.
\<close>

section \<open>Decimals and the values they read as\<close>

text \<open>The value nearest to \<open>k * 10\<^sup>e\<close>.\<close>

definition dec_float :: "int \<Rightarrow> int \<Rightarrow> float64" where
  "dec_float k e =
     (if 0 \<le> e then fl (k * 10 ^ nat e * int fscale) 1 else fl (k * int fscale) (10 ^ nat (- e)))"

lemma dec_float_mono: "k \<le> k' \<Longrightarrow> f_le (dec_float k e) (dec_float k' e)"
  by (auto simp: dec_float_def intro!: fl_mono mult_right_mono)

lemma dec_float_shift: "dec_float (k * 10 ^ n) e = dec_float k (e + int n)"
proof -
  consider "0 \<le> e" | "e < 0" "e + int n < 0" | "e < 0" "0 \<le> e + int n" by linarith
  then show ?thesis
  proof cases
    case 1
    then have "nat (e + int n) = nat e + n" by simp
    with 1 show ?thesis by (simp add: dec_float_def power_add ac_simps)
  next
    case 2
    then have "nat (- e) = nat (- (e + int n)) + n" by simp
    then have "(10 :: nat) ^ nat (- e) = 10 ^ nat (- (e + int n)) * 10 ^ n" by (simp only: power_add)
    moreover have "k * 10 ^ n * int fscale = k * int fscale * int (10 ^ n)" by simp
    ultimately show ?thesis
      using 2 fl_cancel [of "10 ^ n" "k * int fscale" "10 ^ nat (- (e + int n))"]
      by (simp add: dec_float_def ac_simps)
  next
    case 3
    then have n: "n = nat (e + int n) + nat (- e)" by simp
    have eq: "k * 10 ^ n * int fscale = k * 10 ^ nat (e + int n) * int fscale * int (10 ^ nat (- e))"
      by (subst n) (simp add: power_add)
    have "dec_float (k * 10 ^ n) e = fl (k * 10 ^ n * int fscale) (1 * 10 ^ nat (- e))"
      using 3 by (simp add: dec_float_def)
    also have "\<dots> = fl (k * 10 ^ nat (e + int n) * int fscale) 1"
      unfolding eq by (rule fl_cancel) simp
    also have "\<dots> = dec_float k (e + int n)" using 3 by (simp add: dec_float_def)
    finally show ?thesis .
  qed
qed

lemma dec_float_neg: "dec_float (- k) e = f_neg (dec_float k e)"
  by (simp add: dec_float_def flip: fl_neg)

lemma dec_float_zero [simp]: "dec_float 0 e = Fin 0"
  by (simp add: dec_float_def)

section \<open>The shortest decimal\<close>

text \<open>
  The value \<open>m * 2 ^ -1074\<close> in units of \<open>10\<^sup>e\<close>, as a fraction; the whole number below it and the
  next one are the candidates with their last digit at place \<open>e\<close>.
\<close>

definition dec_num :: "nat \<Rightarrow> int \<Rightarrow> nat" where
  "dec_num m e = (if 0 \<le> e then m else m * 10 ^ nat (- e))"

definition dec_den :: "int \<Rightarrow> nat" where
  "dec_den e = (if 0 \<le> e then fscale * 10 ^ nat e else fscale)"

definition reads_as :: "nat \<Rightarrow> int \<Rightarrow> nat \<Rightarrow> bool" where
  "reads_as m e k \<longleftrightarrow> dec_float (int k) e = Fin (int m)"

definition pick :: "nat \<Rightarrow> int \<Rightarrow> nat option" where
  "pick m e =
     (let k = dec_num m e div dec_den e in
      if reads_as m e k \<and> reads_as m e (Suc k) then Some (rne (dec_num m e) (dec_den e))
      else if reads_as m e k then Some k
      else if reads_as m e (Suc k) then Some (Suc k)
      else None)"

text \<open>Places are tried from the leading digit on; at \<open>10 ^ -1074\<close> every value is exact.\<close>

definition lead :: "nat \<Rightarrow> int" where
  "lead m = (if fscale \<le> m then int (length (dec_str (m div fscale))) - 1 else -1)"

function shortest_from :: "nat \<Rightarrow> int \<Rightarrow> nat \<times> int" where
  "shortest_from m e =
     (case pick m e of
        Some k \<Rightarrow> (k, e)
      | None \<Rightarrow> if e \<le> -1074 then (0, e) else shortest_from m (e - 1))"
  by pat_completeness auto
termination by (relation "measure (\<lambda>(m, e). nat (e + 1074))") auto

declare shortest_from.simps [simp del]

text \<open>Without trailing zeros.\<close>

function strip_zeros :: "nat \<Rightarrow> int \<Rightarrow> nat \<times> int" where
  "strip_zeros k e = (if 0 < k \<and> k mod 10 = 0 then strip_zeros (k div 10) (e + 1) else (k, e))"
  by pat_completeness auto
termination by (relation "measure fst") auto

declare strip_zeros.simps [simp del]

definition shortest :: "nat \<Rightarrow> nat \<times> int" where
  "shortest m = (case shortest_from m (lead m) of (k, e) \<Rightarrow> strip_zeros k e)"

lemma dec_den_pos [simp]: "0 < dec_den e"
  by (simp add: dec_den_def)

lemma dec_float_fraction:
  "dec_float (int k) e = fl (int (k * dec_den e)) (if 0 \<le> e then 1 else 10 ^ nat (- e))"
  by (simp add: dec_float_def dec_den_def ac_simps)

lemma value_fraction:
  "fl (int m) 1 = fl (int (dec_num m e)) (if 0 \<le> e then 1 else 10 ^ nat (- e))"
  using fl_cancel [of "10 ^ nat (- e)" "int m" 1] by (simp add: dec_num_def)

text \<open>The candidates lie on the two sides of the value.\<close>

lemma candidate_below: "f_le (dec_float (int (dec_num m e div dec_den e)) e) (fl (int m) 1)"
proof -
  have "dec_num m e div dec_den e * dec_den e \<le> dec_num m e" by (rule div_times_less_eq_dividend)
  then show ?thesis
    unfolding dec_float_fraction value_fraction [of m e]
    by (intro fl_mono mult_right_mono) (simp_all flip: of_nat_mult)
qed

lemma candidate_above: "f_le (fl (int m) 1) (dec_float (int (Suc (dec_num m e div dec_den e))) e)"
proof -
  have "dec_num m e < Suc (dec_num m e div dec_den e) * dec_den e"
    using dividend_less_div_times [of "dec_den e" "dec_num m e"] by (simp add: add.commute)
  then have "dec_num m e \<le> Suc (dec_num m e div dec_den e) * dec_den e" by simp
  then have "int (dec_num m e) \<le> int (Suc (dec_num m e div dec_den e) * dec_den e)" by (simp only: of_nat_le_iff)
  then show ?thesis
    unfolding dec_float_fraction value_fraction [of m e]
    by (intro fl_mono mult_right_mono) simp_all
qed

lemma f_le_antisym: "f_le x y \<Longrightarrow> f_le y x \<Longrightarrow> x = y"
  by (cases x; cases y) simp_all

text \<open>A decimal at place \<open>e\<close> that reads as the value, if any, is one of the candidates or beyond.\<close>

lemma pick_complete:
  assumes "is_float64 (Fin (int m))" "reads_as m e k"
  shows "pick m e \<noteq> None"
proof -
  let ?c = "dec_num m e div dec_den e"
  have m: "fl (int m) 1 = Fin (int m)" using assms(1) by (simp add: is_float64_def)
  consider "k \<le> ?c" | "Suc ?c \<le> k" by linarith
  then have "reads_as m e ?c \<or> reads_as m e (Suc ?c)"
  proof cases
    case 1
    then have "f_le (dec_float (int k) e) (dec_float (int ?c) e)" by (intro dec_float_mono) simp
    then have "dec_float (int ?c) e = Fin (int m)"
      using candidate_below [of m e] assms(2) by (intro f_le_antisym) (simp_all only: m reads_as_def)
    then show ?thesis by (simp add: reads_as_def)
  next
    case 2
    then have "f_le (dec_float (int (Suc ?c)) e) (dec_float (int k) e)" by (intro dec_float_mono) simp
    then have "dec_float (int (Suc ?c)) e = Fin (int m)"
      using candidate_above [of m e] assms(2) by (intro f_le_antisym) (simp_all only: m reads_as_def)
    then show ?thesis by (simp add: reads_as_def)
  qed
  then show ?thesis by (auto simp: pick_def Let_def)
qed

lemma pick_reads: "pick m e = Some k \<Longrightarrow> reads_as m e k"
  by (auto simp: pick_def Let_def rne_def split: if_splits)

text \<open>At the last place the value is a decimal exactly.\<close>

lemma pick_exact:
  assumes "is_float64 (Fin (int m))"
  shows "pick m (-1074) \<noteq> None"
proof (rule pick_complete [OF assms])
  define N :: nat where "N = 1074"
  have "fscale = 2 ^ N" by (simp only: fscale_def N_def)
  moreover have "(10 :: nat) ^ N = (5 * 2) ^ N" by simp
  ultimately have ten: "(10 :: nat) ^ N = 5 ^ N * fscale" by (simp only: power_mult_distrib)
  have "dec_float (int (m * 5 ^ N)) (- int N) = fl (int (m * 5 ^ N) * int fscale) (10 ^ N)"
    by (cases "N = 0") (simp_all add: dec_float_def)
  also have "\<dots> = fl (int m * int (10 ^ N)) (1 * 10 ^ N)"
    by (simp only: ten of_nat_mult mult.assoc mult_1_left)
  also have "\<dots> = Fin (int m)"
    using assms fl_cancel [of "10 ^ N" "int m" 1] by (simp add: is_float64_def)
  finally show "reads_as m (-1074) (m * 5 ^ N)"
    by (simp only: reads_as_def N_def of_nat_numeral)
qed

lemma shortest_from_reads:
  assumes "is_float64 (Fin (int m))" "-1074 \<le> e" "shortest_from m e = (k, e')"
  shows "reads_as m e' k \<and> e' \<le> e \<and> (\<forall>p k'. e' < p \<and> p \<le> e \<longrightarrow> \<not> reads_as m p k')"
  using assms
proof (induction m e rule: shortest_from.induct)
  case (1 m e)
  show ?case
  proof (cases "pick m e")
    case (Some k0)
    with "1.prems"(3) have "k0 = k" "e' = e" by (simp_all add: shortest_from.simps [of m e])
    with Some show ?thesis by (auto dest: pick_reads)
  next
    case None
    then have "e \<noteq> -1074" using pick_exact [OF "1.prems"(1)] by auto
    with "1.prems"(2) have e: "\<not> e \<le> -1074" "-1074 \<le> e - 1" by simp_all
    then have "shortest_from m (e - 1) = (k, e')"
      using "1.prems"(3) None by (simp add: shortest_from.simps [of m e])
    then have IH: "reads_as m e' k \<and> e' \<le> e - 1 \<and> (\<forall>p k'. e' < p \<and> p \<le> e - 1 \<longrightarrow> \<not> reads_as m p k')"
      using "1.IH" [OF None e(1) "1.prems"(1) e(2)] by blast
    have "\<not> reads_as m e k'" for k' using pick_complete [OF "1.prems"(1), of e k'] None by auto
    moreover have "p \<le> e - 1 \<or> p = e" if "p \<le> e" for p using that by linarith
    ultimately show ?thesis using IH by force
  qed
qed

lemma strip_zeros_value:
  "strip_zeros k e = (k', e') \<Longrightarrow> dec_float (int k') e' = dec_float (int k) e"
proof (induction k e rule: strip_zeros.induct)
  case (1 k e)
  show ?case
  proof (cases "0 < k \<and> k mod 10 = 0")
    case True
    then have "k = k div 10 * 10" by presburger
    then have "int k = int (k div 10) * 10 ^ 1"
      by (metis of_nat_mult of_nat_numeral power_one_right)
    then have "dec_float (int k) e = dec_float (int (k div 10)) (e + 1)"
      using dec_float_shift [of "int (k div 10)" 1 e] by (simp only: of_nat_1)
    moreover have "strip_zeros (k div 10) (e + 1) = (k', e')"
      using 1(2) True by (simp add: strip_zeros.simps [of k e])
    ultimately show ?thesis using 1(1) [OF True] by simp
  next
    case False
    with 1 show ?thesis by (simp add: strip_zeros.simps [of k e])
  qed
qed

lemma strip_zeros_pos: "strip_zeros k e = (k', e') \<Longrightarrow> 0 < k' \<longleftrightarrow> 0 < k"
proof (induction k e rule: strip_zeros.induct)
  case (1 k e)
  then show ?case by (auto simp: strip_zeros.simps [of k e] split: if_splits)
qed

lemma lead_ge: "-1 \<le> lead m"
  by (simp add: lead_def)

lemma shortest_reads:
  assumes "is_float64 (Fin (int m))" "shortest m = (k, e)"
  shows "dec_float (int k) e = Fin (int m)"
proof -
  obtain k0 e0 where from0: "shortest_from m (lead m) = (k0, e0)" by (cases "shortest_from m (lead m)")
  moreover from this have "strip_zeros k0 e0 = (k, e)" using assms(2) by (simp add: shortest_def)
  ultimately show ?thesis
    using shortest_from_reads [OF assms(1) _ from0] strip_zeros_value lead_ge [of m] by (simp add: reads_as_def)
qed

section \<open>Digits\<close>

text \<open>The value of a string of decimal digits.\<close>

definition is_digit :: "char \<Rightarrow> bool" where
  "is_digit c \<longleftrightarrow> 48 \<le> (of_char c :: nat) \<and> (of_char c :: nat) \<le> 57"

definition digits_value :: "string \<Rightarrow> nat" where
  "digits_value s = foldl (\<lambda>a c. 10 * a + (of_char c - 48)) 0 s"

lemma digits_foldl:
  "foldl (\<lambda>a c. 10 * a + ((of_char c :: nat) - 48)) a s = a * 10 ^ length s + digits_value s"
proof (induction s rule: rev_induct)
  case (snoc c s)
  then show ?case by (simp add: digits_value_def algebra_simps)
qed (simp add: digits_value_def)

lemma digits_value_append: "digits_value (s @ t) = digits_value s * 10 ^ length t + digits_value t"
  using digits_foldl [of "digits_value s" t] by (simp add: digits_value_def)

lemma digits_value_zeros [simp]: "digits_value (replicate n (CHR ''0'')) = 0"
  by (induction n) (simp_all add: digits_value_append [of "[CHR ''0'']", simplified] digits_value_def)

lemma hex_digit_decimal: "n < 10 \<Longrightarrow> is_digit (hex_digit n) \<and> (of_char (hex_digit n) :: nat) = n + 48"
proof -
  have "\<forall>n \<in> set [0 ..< 10]. is_digit (hex_digit n) \<and> (of_char (hex_digit n) :: nat) = n + 48"
    by code_simp
  then show "n < 10 \<Longrightarrow> ?thesis" by simp
qed

lemma dec_str_digits: "list_all is_digit (dec_str n)"
proof (induction n rule: dec_str.induct)
  case (1 n)
  then show ?case by (subst dec_str.simps) (auto simp: hex_digit_decimal)
qed

lemma dec_str_value [simp]: "digits_value (dec_str n) = n"
proof (induction n rule: dec_str.induct)
  case (1 n)
  have "digits_value [hex_digit (n mod 10)] = n mod 10"
    by (simp add: digits_value_def hex_digit_decimal)
  with 1 show ?case
    by (subst dec_str.simps) (auto simp: digits_value_append digits_value_def hex_digit_decimal)
qed

lemma dec_str_nonempty [simp]: "dec_str n \<noteq> []"
  by (subst dec_str.simps) simp

text \<open>No leading zero.\<close>

lemma dec_str_hd: "0 < n \<Longrightarrow> hd (dec_str n) \<noteq> CHR ''0''"
proof (induction n rule: dec_str.induct)
  case (1 n)
  show ?case
  proof (cases "n < 10")
    case True
    with "1.prems" hex_digit_decimal [of n] have "hex_digit n \<noteq> CHR ''0''" by auto
    with True show ?thesis by (simp add: dec_str.simps [of n])
  next
    case False
    then have "0 < n div 10" by simp
    with False 1 show ?thesis by (simp add: dec_str.simps [of n])
  qed
qed

section \<open>The texts\<close>

text \<open>
  The layout \<open>f\<close>: digits \<open>ds\<close> with the last one at place \<open>e\<close>, and the layout \<open>e\<close> after
  \<open>encoding/json\<close> has turned \<open>e-09\<close> into \<open>e-9\<close>, which leaves the exponent unpadded.
\<close>

definition layout_f :: "string \<Rightarrow> int \<Rightarrow> string" where
  "layout_f ds e =
     (if 0 \<le> e then ds @ replicate (nat e) (CHR ''0'')
      else
        let frac = nat (- e) in
        if frac < length ds then take (length ds - frac) ds @ ''.'' @ drop (length ds - frac) ds
        else ''0.'' @ replicate (frac - length ds) (CHR ''0'') @ ds)"

definition layout_e :: "string \<Rightarrow> int \<Rightarrow> string" where
  "layout_e ds e =
     (let x = e + int (length ds) - 1 in
      [hd ds] @ (if tl ds = [] then [] else ''.'' @ tl ds) @ ''e'' @
      (if x < 0 then ''-'' else ''+'') @ dec_str (nat \<bar>x\<bar>))"

text \<open>
  \<open>floatEncoder\<close>: absolute values below 1e-6 and from 1e21 on are written with an exponent.
  NaN and the infinities have no text; the encoder returns an error for them.
\<close>

definition uses_exponent :: "nat \<Rightarrow> bool" where
  "uses_exponent m \<longleftrightarrow> m \<noteq> 0 \<and>
     (f_less (Fin (int m)) (f_lit 1 (10 ^ 6)) \<or> f_le (f_lit (10 ^ 21) 1) (Fin (int m)))"

definition magnitude_text :: "nat \<Rightarrow> string" where
  "magnitude_text m =
     (if m = 0 then ''0''
      else case shortest m of (k, e) \<Rightarrow>
        if uses_exponent m then layout_e (dec_str k) e else layout_f (dec_str k) e)"

fun number_text :: "float64 \<Rightarrow> string" where
  "number_text (Fin m) = (if m < 0 then ''-'' else []) @ magnitude_text (nat \<bar>m\<bar>)"
| "number_text x = []"

section \<open>Reading a number\<close>

text \<open>
  The reference: the grammar of JSON numbers (no leading zeros, digits on both sides of the
  point, an exponent with an optional sign), valued as \<open>strconv.ParseFloat\<close> does, by the
  nearest \<open>float64\<close>.
\<close>

definition read_digits :: "string \<Rightarrow> nat option" where
  "read_digits s = (if s \<noteq> [] \<and> list_all is_digit s then Some (digits_value s) else None)"

definition read_int :: "string \<Rightarrow> nat option" where
  "read_int s = (if hd s = CHR ''0'' \<and> length s \<noteq> 1 then None else read_digits s)"

definition read_exponent :: "string \<Rightarrow> int option" where
  "read_exponent s =
     (if s = [] then Some 0
      else
        (case tl s of
           [] \<Rightarrow> None
         | c # t \<Rightarrow>
             if c = CHR ''-'' then map_option (\<lambda>n. - int n) (read_digits t)
             else if c = CHR ''+'' then map_option int (read_digits t)
             else map_option int (read_digits (c # t))))"

definition read_magnitude :: "string \<Rightarrow> (int \<times> int) option" where
  "read_magnitude s =
     (let mant = takeWhile (\<lambda>c. c \<noteq> CHR ''e'' \<and> c \<noteq> CHR ''E'') s; ex = drop (length mant) s;
          ip = takeWhile (\<lambda>c. c \<noteq> CHR ''.'') mant; fp = drop (length ip) mant in
      (case (read_int ip, read_exponent ex) of
         (Some n, Some x) \<Rightarrow>
           if fp = [] then Some (int n, x)
           else
             (case read_digits (tl fp) of
                None \<Rightarrow> None
              | Some f \<Rightarrow> Some (int (n * 10 ^ length (tl fp) + f), x - int (length (tl fp))))
       | _ \<Rightarrow> None))"

definition read_number :: "string \<Rightarrow> float64 option" where
  "read_number s =
     (let neg = (s \<noteq> [] \<and> hd s = CHR ''-''); t = (if neg then tl s else s) in
      map_option (\<lambda>(k, e). dec_float (if neg then - k else k) e) (read_magnitude t))"

section \<open>The text is read back\<close>

lemma digit_not_mark: "is_digit c \<Longrightarrow> c \<noteq> CHR ''e'' \<and> c \<noteq> CHR ''E'' \<and> c \<noteq> CHR ''.'' \<and> c \<noteq> CHR ''-'' \<and> c \<noteq> CHR ''+''"
  by (auto simp: is_digit_def)

lemma takeWhile_digits:
  assumes "list_all is_digit ds" "r = [] \<or> \<not> P (hd r)" "\<And>c. is_digit c \<Longrightarrow> P c"
  shows "takeWhile P (ds @ r) = ds"
  using assms by (cases r) (auto simp: list_all_iff takeWhile_append2 takeWhile_tail)

lemma read_magnitude_parts:
  assumes ip: "list_all is_digit ip" "ip \<noteq> []" "hd ip = CHR ''0'' \<longrightarrow> length ip = 1"
    and fp: "list_all is_digit fp" and ex: "ex = [] \<or> hd ex = CHR ''e''" "read_exponent ex = Some x"
  shows "read_magnitude (ip @ (if fp = [] then [] else ''.'' @ fp) @ ex) =
    Some (int (digits_value (ip @ fp)), x - int (length fp))"
proof -
  let ?mid = "if fp = [] then [] else ''.'' @ fp"
  let ?P = "\<lambda>c. c \<noteq> CHR ''e'' \<and> c \<noteq> CHR ''E''"
  have fpr: "takeWhile ?P (fp @ ex) = fp"
    using fp ex(1) by (intro takeWhile_digits) (auto dest: digit_not_mark)
  have "takeWhile ?P (?mid @ ex) = ?mid"
    using fpr ex(1) by (cases ex) auto
  moreover have "takeWhile ?P (ip @ ?mid @ ex) = ip @ takeWhile ?P (?mid @ ex)"
    using ip(1) by (intro takeWhile_append2) (auto simp: list_all_iff dest: digit_not_mark)
  ultimately have mant: "takeWhile ?P (ip @ ?mid @ ex) = ip @ ?mid" by (simp only:)
  have int: "takeWhile (\<lambda>c. c \<noteq> CHR ''.'') (ip @ ?mid) = ip"
    using ip(1) by (intro takeWhile_digits) (auto dest: digit_not_mark)
  have "read_int ip = Some (digits_value ip)" using ip by (simp add: read_int_def read_digits_def)
  then show ?thesis
    using ex(2) fp ip unfolding read_magnitude_def Let_def mant int
    by (cases "fp = []") (simp_all add: read_digits_def digits_value_append)
qed

lemmas read_magnitude_int = read_magnitude_parts [where fp = "[]", simplified]

lemma read_layout_f:
  assumes "0 < k"
  shows "\<exists>k' e'. read_magnitude (layout_f (dec_str k) e) = Some (k', e') \<and> dec_float k' e' = dec_float (int k) e"
proof -
  let ?ds = "dec_str k" and ?frac = "nat (- e)"
  have zeros: "list_all is_digit (replicate n (CHR ''0''))" for n by (simp add: list_all_length is_digit_def)
  have hd0: "hd ?ds \<noteq> CHR ''0''" by (rule dec_str_hd [OF assms])
  have ex: "read_exponent [] = Some 0" by (simp add: read_exponent_def)
  consider "0 \<le> e" | "e < 0" "?frac < length ?ds" | "e < 0" "length ?ds \<le> ?frac" by linarith
  then show ?thesis
  proof cases
    case 1
    have "read_magnitude ((?ds @ replicate (nat e) (CHR ''0'')) @ []) =
        Some (int (digits_value (?ds @ replicate (nat e) (CHR ''0''))), 0)"
      by (rule read_magnitude_int [OF _ _ _ _ ex]) (simp_all add: dec_str_digits zeros hd0)
    moreover have "dec_float (int k * 10 ^ nat e) 0 = dec_float (int k) e"
      using dec_float_shift [of "int k" "nat e" 0] 1 by simp
    ultimately show ?thesis using 1 by (simp add: layout_f_def digits_value_append)
  next
    case 2
    let ?n = "length ?ds - ?frac"
    have "take ?n ?ds \<noteq> []" "drop ?n ?ds \<noteq> []" using 2 by auto
    moreover from this have "hd (take ?n ?ds) \<noteq> CHR ''0''" using hd0 by (metis hd_append2 append_take_drop_id)
    ultimately have "read_magnitude (take ?n ?ds @ (if drop ?n ?ds = [] then [] else ''.'' @ drop ?n ?ds) @ []) =
        Some (int (digits_value (take ?n ?ds @ drop ?n ?ds)), 0 - int (length (drop ?n ?ds)))"
      using dec_str_digits [of k]
      by (intro read_magnitude_parts [OF _ _ _ _ _ ex])
        (auto simp: list_all_iff dest: in_set_takeD in_set_dropD)
    moreover have "length (drop ?n ?ds) = ?frac" using 2 by simp
    ultimately show ?thesis
      using 2 \<open>drop ?n ?ds \<noteq> []\<close> by (simp add: layout_f_def Let_def del: length_drop)
  next
    case 3
    let ?fp = "replicate (?frac - length ?ds) (CHR ''0'') @ ?ds"
    have "read_magnitude (''0'' @ (if ?fp = [] then [] else ''.'' @ ?fp) @ []) =
        Some (int (digits_value (''0'' @ ?fp)), 0 - int (length ?fp))"
      by (intro read_magnitude_parts [OF _ _ _ _ _ ex]) (simp_all add: dec_str_digits zeros is_digit_def)
    moreover have "digits_value (''0'' @ ?fp) = k"
      by (simp only: digits_value_append digits_value_zeros dec_str_value) (simp add: digits_value_def)
    moreover have "int (length ?fp) = - e" using 3 by simp
    ultimately show ?thesis using 3 by (simp add: layout_f_def Let_def del: length_append)
  qed
qed

lemma read_layout_e:
  assumes "0 < k"
  shows "\<exists>k' e'. read_magnitude (layout_e (dec_str k) e) = Some (k', e') \<and> dec_float k' e' = dec_float (int k) e"
proof -
  let ?ds = "dec_str k"
  let ?x = "e + int (length ?ds) - 1"
  let ?ex = "''e'' @ (if ?x < 0 then ''-'' else ''+'') @ dec_str (nat \<bar>?x\<bar>)"
  obtain d ds where ds: "?ds = d # ds" by (cases ?ds) simp_all
  have "read_exponent ?ex = Some ?x"
    by (auto simp: read_exponent_def read_digits_def dec_str_digits)
  then have "read_magnitude ([d] @ (if ds = [] then [] else ''.'' @ ds) @ ?ex) =
      Some (int (digits_value ([d] @ ds)), ?x - int (length ds))"
    using dec_str_digits [of k] dec_str_hd [OF assms] by (intro read_magnitude_parts) (simp_all add: ds)
  moreover have "digits_value ([d] @ ds) = k" using dec_str_value [of k] by (simp add: ds)
  moreover have "layout_e ?ds e = [d] @ (if ds = [] then [] else ''.'' @ ds) @ ?ex"
    by (simp only: layout_e_def Let_def ds list.sel)
  moreover have "?x - int (length ds) = e" by (simp add: ds)
  ultimately show ?thesis by (simp only:) blast
qed

lemma shortest_pos:
  assumes "is_float64 (Fin (int m))" "m \<noteq> 0" "shortest m = (k, e)"
  shows "0 < k"
  using shortest_reads [OF assms(1,3)] assms(2) by (cases k) auto

lemma read_magnitude_text:
  assumes "is_float64 (Fin (int m))"
  shows "\<exists>k e. read_magnitude (magnitude_text m) = Some (k, e) \<and> dec_float k e = Fin (int m)"
proof (cases "m = 0")
  case True
  have "read_magnitude (''0'' @ []) = Some (int (digits_value ''0''), 0)"
    by (rule read_magnitude_int) (simp_all add: is_digit_def read_exponent_def)
  then show ?thesis using True by (simp add: magnitude_text_def digits_value_def)
next
  case False
  obtain k e where ke: "shortest m = (k, e)" by (cases "shortest m")
  then have "0 < k" "dec_float (int k) e = Fin (int m)"
    using shortest_pos [OF assms False] shortest_reads [OF assms] by auto
  then show ?thesis
    using read_layout_e [of k e] read_layout_f [of k e] False ke by (auto simp: magnitude_text_def)
qed

lemma is_float64_abs: "is_float64 (Fin m) \<Longrightarrow> is_float64 (Fin \<bar>m\<bar>)"
  using fl_neg [of m 1] by (cases "m < 0") (auto simp: is_float64_def)

lemma magnitude_text_start: "magnitude_text m \<noteq> [] \<and> hd (magnitude_text m) \<noteq> CHR ''-''"
proof -
  have "hd (dec_str k) \<noteq> CHR ''-''" for k
    using dec_str_digits [of k] by (cases "dec_str k") (auto dest: digit_not_mark)
  moreover have "hd (take n (dec_str k)) \<noteq> CHR ''-''" "take n (dec_str k) \<noteq> []" if "0 < n" for k n
    using that calculation [of k] by (cases "dec_str k"; cases n; simp)+
  ultimately show ?thesis
    by (auto simp: magnitude_text_def layout_e_def layout_f_def Let_def split: prod.split)
qed

text \<open>What is written for a value is read as that value.\<close>

theorem number_text_read:
  assumes "is_float64 (Fin m)"
  shows "read_number (number_text (Fin m)) = Some (Fin m)"
proof -
  let ?a = "nat \<bar>m\<bar>"
  have "is_float64 (Fin (int ?a))" using is_float64_abs [OF assms] by simp
  then obtain k e where "read_magnitude (magnitude_text ?a) = Some (k, e)" "dec_float k e = Fin \<bar>m\<bar>"
    using read_magnitude_text [of ?a] by auto
  then show ?thesis
    using magnitude_text_start [of ?a] by (auto simp: read_number_def Let_def dec_float_neg)
qed

text \<open>The digits are the shortest: no decimal that ends further left reads as the value.\<close>

theorem number_text_shortest:
  assumes "is_float64 (Fin (int m))" "shortest_from m (lead m) = (k, e)" "e < p" "p \<le> lead m"
  shows "dec_float (int k') p \<noteq> Fin (int m)"
  using shortest_from_reads [OF assms(1) _ assms(2)] lead_ge [of m] assms(3,4) by (auto simp: reads_as_def)

end
