(* ===== verification/Go_Json.thy ===== *)
theory Go_Json
  imports Go_Number
begin

text \<open>
  \<open>encoding/json\<close> as far as the source uses it: strings, numbers and objects, written by
  \<open>Encoder\<close> with its default HTML escaping, and a reader for what it writes. The main fact:
  the text of a value is read back as that value, with bytes that are no UTF-8 replaced.
\<close>

section \<open>UTF-8\<close>

definition cont_byte :: "nat \<Rightarrow> nat \<Rightarrow> char \<Rightarrow> bool" where
  "cont_byte lo hi c \<longleftrightarrow> lo \<le> (of_char c :: nat) \<and> (of_char c :: nat) \<le> hi"

definition second_low :: "nat \<Rightarrow> nat" where
  "second_low a = (if a = 0xE0 then 0xA0 else if a = 0xF0 then 0x90 else 0x80)"

definition second_high :: "nat \<Rightarrow> nat" where
  "second_high a = (if a = 0xED then 0x9F else if a = 0xF4 then 0x8F else 0xBF)"

text \<open>How long a rune is by its first byte; 0 for a byte that starts none.\<close>

definition rune_width :: "nat \<Rightarrow> nat" where
  "rune_width a =
     (if a < 0x80 then 1 else if a < 0xC2 then 0 else if a < 0xE0 then 2
      else if a < 0xF0 then 3 else if a < 0xF5 then 4 else 0)"

text \<open>\<open>utf8.DecodeRuneInString\<close>: the length of the rune at the start; 0 for a bad byte.\<close>

definition rune_len :: "string \<Rightarrow> nat" where
  "rune_len s =
     (case s of
        [] \<Rightarrow> 0
      | c # t \<Rightarrow>
          let a = of_char c; n = rune_width a in
          if n \<le> 1 then n
          else if length t < n - 1 then 0
          else if cont_byte (second_low a) (second_high a) (hd t)
              \<and> list_all (cont_byte 0x80 0xBF) (take (n - 2) (tl t)) then n
          else 0)"

datatype rune = Rune string | Bad char

function runes :: "string \<Rightarrow> rune list" where
  "runes s =
     (if s = [] then []
      else if rune_len s = 0 then Bad (hd s) # runes (tl s)
      else Rune (take (rune_len s) s) # runes (drop (rune_len s) s))"
  by pat_completeness auto
termination by (relation "measure length") auto

declare runes.simps [simp del]

text \<open>What a reader gets: a bad byte becomes the replacement character U+FFFD.\<close>

definition repl_char :: string where
  "repl_char = map char_of [0xEF, 0xBF, 0xBD :: nat]"

fun rune_text :: "rune \<Rightarrow> string" where
  "rune_text (Rune r) = r"
| "rune_text (Bad c) = repl_char"

definition to_utf8 :: "string \<Rightarrow> string" where
  "to_utf8 s = concat (map rune_text (runes s))"

section \<open>Strings\<close>

definition BACKSLASH :: char where "BACKSLASH = CHR 0x5C"
definition QUOTE :: char where "QUOTE = CHR 0x22"

definition hex_lower :: "nat \<Rightarrow> char" where
  "hex_lower n = ''0123456789abcdef'' ! n"

text \<open>\<open>appendString\<close> on an ASCII byte: those of \<open>htmlSafeSet\<close> stand for themselves.\<close>

definition html_safe :: "char \<Rightarrow> bool" where
  "html_safe c \<longleftrightarrow> 0x20 \<le> (of_char c :: nat) \<and> (of_char c :: nat) < 0x80 \<and>
     c \<notin> {QUOTE, BACKSLASH, CHR ''&'', CHR ''<'', CHR ''>''}"

definition escape_ascii :: "char \<Rightarrow> string" where
  "escape_ascii c =
     (if html_safe c then [c]
      else if c = BACKSLASH \<or> c = QUOTE then [BACKSLASH, c]
      else if c = CHR 0x08 then [BACKSLASH, CHR ''b'']
      else if c = CHR 0x0C then [BACKSLASH, CHR ''f'']
      else if c = CHR 0x0A then [BACKSLASH, CHR ''n'']
      else if c = CHR 0x0D then [BACKSLASH, CHR ''r'']
      else if c = CHR 0x09 then [BACKSLASH, CHR ''t'']
      else [BACKSLASH] @ ''u00'' @ [hex_lower (of_char c div 16), hex_lower (of_char c mod 16)])"

text \<open>U+2028 and U+2029 are escaped, other runes stand for themselves.\<close>

definition line_sep :: "nat \<Rightarrow> string" where
  "line_sep n = map char_of [0xE2, 0x80, 0xA8 + n]"

fun escape_rune :: "rune \<Rightarrow> string" where
  "escape_rune (Bad c) = [BACKSLASH] @ ''ufffd''"
| "escape_rune (Rune r) =
     (if length r = 1 then escape_ascii (hd r)
      else if r = line_sep 0 then [BACKSLASH] @ ''u2028''
      else if r = line_sep 1 then [BACKSLASH] @ ''u2029''
      else r)"

definition quote :: "string \<Rightarrow> string" where
  "quote s = [QUOTE] @ concat (map escape_rune (runes s)) @ [QUOTE]"

text \<open>Reading a string, after its opening quote: the text and what follows the closing quote.\<close>

definition utf8_encode :: "nat \<Rightarrow> string" where
  "utf8_encode n =
     map char_of
       (if n < 0x80 then [n]
        else if n < 0x800 then [0xC0 + n div 64, 0x80 + n mod 64]
        else [0xE0 + n div 4096, 0x80 + n div 64 mod 64, 0x80 + n mod 64])"

definition simple_escape :: "char \<Rightarrow> char option" where
  "simple_escape c =
     (if c \<in> {QUOTE, BACKSLASH, CHR ''/''} then Some c
      else if c = CHR ''b'' then Some (CHR 0x08)
      else if c = CHR ''f'' then Some (CHR 0x0C)
      else if c = CHR ''n'' then Some (CHR 0x0A)
      else if c = CHR ''r'' then Some (CHR 0x0D)
      else if c = CHR ''t'' then Some (CHR 0x09)
      else None)"

definition prepend :: "string \<Rightarrow> (string \<times> 'a) option \<Rightarrow> (string \<times> 'a) option" where
  "prepend p r = map_option (\<lambda>(s, t). (p @ s, t)) r"

function unquote :: "string \<Rightarrow> (string \<times> string) option" where
  "unquote s =
     (case s of
        [] \<Rightarrow> None
      | c # t \<Rightarrow>
          if c = QUOTE then Some ([], t)
          else if c = BACKSLASH then
            (if t = [] then None
             else if hd t = CHR ''u'' then
               (case hex_value 0 (take 4 (tl t)) of
                  Some n \<Rightarrow>
                    if length (tl t) < 4 then None else prepend (utf8_encode n) (unquote (drop 4 (tl t)))
                | None \<Rightarrow> None)
             else
               (case simple_escape (hd t) of
                  Some x \<Rightarrow> prepend [x] (unquote (tl t))
                | None \<Rightarrow> None))
          else if (of_char c :: nat) < 0x20 then None
          else prepend [c] (unquote t))"
  by pat_completeness auto
termination by (relation "measure length") auto

declare unquote.simps [simp del]

lemma prepend_Some [simp]: "prepend p (Some (s, t)) = Some (p @ s, t)"
  by (simp add: prepend_def)

lemma prepend_append [simp]: "prepend p (prepend q r) = prepend (p @ q) r"
  by (cases r) (auto simp: prepend_def)

lemma unquote_char:
  "c \<noteq> QUOTE \<Longrightarrow> c \<noteq> BACKSLASH \<Longrightarrow> 0x20 \<le> (of_char c :: nat) \<Longrightarrow> unquote (c # t) = prepend [c] (unquote t)"
  by (simp add: unquote.simps [of "c # t"])

lemma unquote_end: "unquote (QUOTE # t) = Some ([], t)"
  by (simp add: unquote.simps [of "QUOTE # t"])

lemma unquote_simple:
  "simple_escape x = Some y \<Longrightarrow> unquote (BACKSLASH # x # t) = prepend [y] (unquote t)"
  by (subst unquote.simps) (auto simp: simple_escape_def QUOTE_def BACKSLASH_def split: if_splits)

lemma unquote_hex:
  "hex_value 0 [a, b, c, d] = Some n \<Longrightarrow>
     unquote (BACKSLASH # CHR ''u'' # a # b # c # d # t) = prepend (utf8_encode n) (unquote t)"
  by (subst unquote.simps) (simp add: QUOTE_def BACKSLASH_def numeral_eq_Suc)

section \<open>A string is read back\<close>

definition rune_ok :: "rune \<Rightarrow> bool" where
  "rune_ok r \<longleftrightarrow>
     (case r of
        Bad c \<Rightarrow> True
      | Rune s \<Rightarrow> length s = 1 \<and> (of_char (hd s) :: nat) < 0x80 \<or>
          1 < length s \<and> list_all (\<lambda>c. 0x80 \<le> (of_char c :: nat)) s)"

lemma rune_len_le: "rune_len s \<le> length s"
  by (cases s) (auto simp: rune_len_def Let_def)

lemma rune_len_cases:
  assumes "rune_len s \<noteq> 0"
  shows "rune_ok (Rune (take (rune_len s) s))"
proof -
  obtain c t where s: "s = c # t" using assms by (cases s) (simp_all add: rune_len_def)
  show ?thesis
  proof (cases "(of_char c :: nat) < 0x80")
    case True
    then have "rune_len s = 1" by (simp add: rune_len_def rune_width_def s)
    with True show ?thesis by (simp add: rune_ok_def s)
  next
    case False
    define n where "n = rune_len s"
    have "rune_width (of_char c) \<noteq> 1" using False by (simp add: rune_width_def)
    then have n: "1 < n" "n \<le> length s" "0x80 \<le> (of_char c :: nat)"
      "cont_byte (second_low (of_char c)) (second_high (of_char c)) (hd t)"
      "list_all (cont_byte 0x80 0xBF) (take (n - 2) (tl t))" "length t \<ge> n - 1"
      using assms False by (simp_all add: n_def rune_len_def s Let_def not_less split: if_splits)
    then obtain b u where t: "t = b # u" by (cases t) auto
    have b: "0x80 \<le> (of_char b :: nat)"
      using n(4) by (auto simp: t cont_byte_def second_low_def split: if_splits)
    obtain k where k: "n = Suc (Suc k)" using n(1) by (metis less_natE add_2_eq_Suc' plus_1_eq_Suc)
    have "list_all (\<lambda>c. 0x80 \<le> (of_char c :: nat)) (take k u)"
      using n(5) by (auto simp: t k list_all_iff cont_byte_def)
    then have "rune_ok (Rune (take n s))"
      using b n(3,6) by (simp add: rune_ok_def s t k)
    then show ?thesis by (simp only: n_def)
  qed
qed

lemma runes_ok: "list_all rune_ok (runes s)"
proof (induction s rule: runes.induct)
  case (1 s)
  then show ?case
    by (subst runes.simps) (auto simp: rune_len_cases, simp_all add: rune_ok_def)
qed

lemma runes_concat: "list_all (\<lambda>r. case r of Rune s \<Rightarrow> True | Bad c \<Rightarrow> False) (runes s) \<Longrightarrow> to_utf8 s = s"
proof (induction s rule: runes.induct)
  case (1 s)
  then show ?case
    by (cases "s = []"; cases "rune_len s = 0") (simp_all add: to_utf8_def runes.simps [of s] runes.simps [of "[]"])
qed

lemma hexval_lower: "n < 16 \<Longrightarrow> hexval (hex_lower n) = Some n"
proof -
  have "\<forall>n \<in> set [0 ..< 16]. hexval (hex_lower n) = Some n" by code_simp
  then show "n < 16 \<Longrightarrow> ?thesis" by simp
qed

lemma unquote_ascii:
  assumes "(of_char c :: nat) < 0x80"
  shows "unquote (escape_ascii c @ t) = prepend [c] (unquote t)"
proof (cases "html_safe c")
  case True
  then show ?thesis by (simp add: escape_ascii_def html_safe_def unquote_char)
next
  case unsafe: False
  let ?n = "of_char c :: nat"
  show ?thesis
  proof (cases "c \<in> {BACKSLASH, QUOTE, CHR 0x08, CHR 0x0C, CHR 0x0A, CHR 0x0D, CHR 0x09}")
    case True
    with unsafe show ?thesis
      by (auto simp: escape_ascii_def simple_escape_def intro!: unquote_simple)
        (simp_all add: QUOTE_def BACKSLASH_def)
  next
    case False
    have "hex_value 0 [CHR ''0'', CHR ''0'', hex_lower (?n div 16), hex_lower (?n mod 16)] = Some ?n"
      using assms by (simp add: hexval_lower hexval_def [of "CHR ''0''"])
    moreover have "utf8_encode ?n = [c]" using assms by (simp add: utf8_encode_def)
    ultimately show ?thesis
      using False unsafe unquote_hex [of "CHR ''0''" "CHR ''0''" "hex_lower (?n div 16)" "hex_lower (?n mod 16)" ?n t]
      by (simp add: escape_ascii_def)
  qed
qed

lemma unquote_high:
  "list_all (\<lambda>c. 0x80 \<le> (of_char c :: nat)) s \<Longrightarrow> unquote (s @ t) = prepend s (unquote t)"
proof (induction s)
  case Nil
  then show ?case by (cases "unquote t") (auto simp: prepend_def)
next
  case (Cons c s)
  then have "c \<noteq> QUOTE" "c \<noteq> BACKSLASH" by (auto simp: QUOTE_def BACKSLASH_def)
  with Cons show ?case by (simp add: unquote_char)
qed

lemma unquote_rune:
  assumes "rune_ok r"
  shows "unquote (escape_rune r @ t) = prepend (rune_text r) (unquote t)"
proof (cases r)
  case (Bad c)
  have "hex_value 0 ''fffd'' = Some 0xFFFD" by (simp add: hexval_def)
  moreover have "utf8_encode 0xFFFD = repl_char" by (simp add: utf8_encode_def repl_char_def)
  ultimately show ?thesis using Bad unquote_hex [of "CHR ''f''" "CHR ''f''" "CHR ''f''" "CHR ''d''" "0xFFFD" t] by simp
next
  case (Rune s)
  have seps: "hex_value 0 ''2028'' = Some 0x2028" "hex_value 0 ''2029'' = Some 0x2029"
    "utf8_encode 0x2028 = line_sep 0" "utf8_encode 0x2029 = line_sep 1"
    by (simp_all add: hexval_def utf8_encode_def line_sep_def)
  consider "length s = 1" "(of_char (hd s) :: nat) < 0x80"
    | "1 < length s" "list_all (\<lambda>c. 0x80 \<le> (of_char c :: nat)) s"
    using assms Rune by (auto simp: rune_ok_def)
  then show ?thesis
  proof cases
    case 1
    then obtain c where "s = [c]" by (cases s) auto
    with 1 Rune show ?thesis by (simp add: unquote_ascii)
  next
    case 2
    then show ?thesis
      using Rune unquote_high [of s t] seps
        unquote_hex [of "CHR ''2''" "CHR ''0''" "CHR ''2''" "CHR ''8''" "0x2028" t]
        unquote_hex [of "CHR ''2''" "CHR ''0''" "CHR ''2''" "CHR ''9''" "0x2029" t]
      by auto
  qed
qed

lemma unquote_runes:
  "list_all rune_ok rs \<Longrightarrow>
     unquote (concat (map escape_rune rs) @ QUOTE # t) = Some (concat (map rune_text rs), t)"
  by (induction rs) (simp_all add: unquote_rune unquote_end)

theorem unquote_quote: "\<exists>s'. quote s @ t = QUOTE # s' \<and> unquote s' = Some (to_utf8 s, t)"
  using unquote_runes [OF runes_ok, of s t] by (simp add: quote_def to_utf8_def)

text \<open>ASCII text is UTF-8.\<close>

lemma to_utf8_ascii: "list_all (\<lambda>c. (of_char c :: nat) < 0x80) s \<Longrightarrow> to_utf8 s = s"
proof (induction s)
  case Nil
  then show ?case by (simp add: to_utf8_def runes.simps [of "[]"])
next
  case (Cons c s)
  then have "rune_len (c # s) = 1" by (simp add: rune_len_def rune_width_def)
  with Cons show ?case by (simp add: to_utf8_def runes.simps [of "c # s"])
qed

section \<open>Values\<close>

datatype json = JString string | JNumber float64 | JObject "(string \<times> json) list"

fun emit :: "json \<Rightarrow> string" and emit_members :: "(string \<times> json) list \<Rightarrow> string" where
  "emit (JString s) = quote s"
| "emit (JNumber x) = number_text x"
| "emit (JObject ms) = ''{'' @ emit_members ms @ ''}''"
| "emit_members [] = []"
| "emit_members ((k, v) # ms) =
     quote k @ '':'' @ emit v @ (if ms = [] then [] else '','' @ emit_members ms)"

text \<open>
  The reader, for the values above; \<open>n\<close> bounds the depth and the number of members (the
  length of the text is always enough).
\<close>

definition number_char :: "char \<Rightarrow> bool" where
  "number_char c \<longleftrightarrow> is_digit c \<or> c \<in> set ''+-.eE''"

definition read_scalar :: "string \<Rightarrow> (json \<times> string) option" where
  "read_scalar s =
     map_option (\<lambda>x. (JNumber x, dropWhile number_char s)) (read_number (takeWhile number_char s))"

fun read_json :: "nat \<Rightarrow> string \<Rightarrow> (json \<times> string) option"
  and read_members :: "nat \<Rightarrow> string \<Rightarrow> ((string \<times> json) list \<times> string) option" where
  "read_json 0 s = None"
| "read_json (Suc n) s =
     (if s = [] then None
      else if hd s = QUOTE then map_option (\<lambda>(x, r). (JString x, r)) (unquote (tl s))
      else if hd s = CHR ''{'' then
        (if tl s \<noteq> [] \<and> hd (tl s) = CHR ''}'' then Some (JObject [], tl (tl s))
         else map_option (\<lambda>(ms, r). (JObject ms, r)) (read_members n (tl s)))
      else read_scalar s)"
| "read_members 0 s = None"
| "read_members (Suc n) s =
     (if s = [] \<or> hd s \<noteq> QUOTE then None
      else
        (case unquote (tl s) of
           None \<Rightarrow> None
         | Some (k, r) \<Rightarrow>
             if r = [] \<or> hd r \<noteq> CHR '':'' then None
             else
               (case read_json n (tl r) of
                  None \<Rightarrow> None
                | Some (v, u) \<Rightarrow>
                    if u = [] then None
                    else if hd u = CHR ''}'' then Some ([(k, v)], tl u)
                    else if hd u = CHR '','' then
                      map_option (\<lambda>(ms, w). ((k, v) # ms, w)) (read_members n (tl u))
                    else None)))"

text \<open>What a reader gets for a value, and the values that can be written.\<close>

fun as_read :: "json \<Rightarrow> json" where
  "as_read (JString s) = JString (to_utf8 s)"
| "as_read (JNumber x) = JNumber x"
| "as_read (JObject ms) = JObject (map (\<lambda>(k, v). (to_utf8 k, as_read v)) ms)"

fun writable :: "json \<Rightarrow> bool" where
  "writable (JString s) = True"
| "writable (JNumber x) = (finite_float x \<and> is_float64 x)"
| "writable (JObject ms) = list_all (\<lambda>(k, v). writable v) ms"

section \<open>A value is read back\<close>

lemma is_digit_number_char: "is_digit c \<Longrightarrow> number_char c"
  by (simp add: number_char_def)

lemma digits_number_chars: "list_all number_char (dec_str n)"
  using dec_str_digits [of n] by (auto simp: list_all_iff is_digit_number_char)

lemma zeros_number_chars: "list_all number_char (replicate n (CHR ''0''))"
  by (simp add: list_all_length number_char_def is_digit_def)

lemma magnitude_number_chars: "list_all number_char (magnitude_text m)"
proof -
  have f: "list_all number_char (layout_f ds e)" if "list_all number_char ds" for ds e
    using that zeros_number_chars
    by (auto simp: layout_f_def Let_def list_all_iff number_char_def is_digit_def
        dest: in_set_takeD in_set_dropD)
  have e: "list_all number_char (layout_e (dec_str k) e)" for k e
    using digits_number_chars [of k] digits_number_chars [of "nat \<bar>e + int (length (dec_str k)) - 1\<bar>"]
    by (cases "dec_str k") (auto simp: layout_e_def Let_def number_char_def)
  show ?thesis
    using f [OF digits_number_chars] e
    by (auto simp: magnitude_text_def number_char_def is_digit_def split: prod.split)
qed

lemma read_scalar_number:
  assumes "finite_float x" "is_float64 x" "r = [] \<or> \<not> number_char (hd r)"
  shows "read_scalar (number_text x @ r) = Some (JNumber x, r)"
proof -
  obtain m where m: "x = Fin m" using assms(1) by (cases x) (simp_all add: finite_float_def)
  have chars: "list_all number_char (number_text x)"
    using magnitude_number_chars by (simp add: m number_char_def)
  have "takeWhile number_char (number_text x @ r) = number_text x"
    using chars assms(3) by (cases r) (auto simp: list_all_iff takeWhile_append2 takeWhile_tail)
  moreover have "dropWhile number_char (number_text x @ r) = r"
    using chars assms(3) by (cases r) (auto simp: list_all_iff dropWhile_append2)
  ultimately show ?thesis
    using number_text_read [of m] assms(2) by (simp add: read_scalar_def m)
qed

lemma number_text_hd:
  assumes "finite_float x"
  shows "number_text x \<noteq> [] \<and> hd (number_text x) \<noteq> QUOTE \<and> hd (number_text x) \<noteq> CHR ''{''"
proof -
  obtain m where m: "x = Fin m" using assms by (cases x) (simp_all add: finite_float_def)
  have "list_all number_char (number_text x)"
    using magnitude_number_chars by (simp add: m number_char_def)
  moreover have ne: "number_text x \<noteq> []" using magnitude_text_start by (simp add: m)
  ultimately have "number_char (hd (number_text x))" by (cases "number_text x") simp_all
  then show ?thesis using ne by (auto simp: number_char_def is_digit_def QUOTE_def)
qed

text \<open>What may stand after a value.\<close>

definition ends_value :: "string \<Rightarrow> bool" where
  "ends_value r \<longleftrightarrow> r = [] \<or> \<not> number_char (hd r)"

lemma ends_value_marks [simp]: "ends_value (CHR ''}'' # r)" "ends_value (CHR '','' # r)" "ends_value [CHR 0x0A]"
  by (simp_all add: ends_value_def number_char_def is_digit_def)

lemma emit_members_start: "ms \<noteq> [] \<Longrightarrow> \<exists>s. emit_members ms = QUOTE # s"
  by (cases ms) (auto simp: quote_def)

lemma read_emit:
  "writable j \<Longrightarrow> size j < n \<Longrightarrow> ends_value r \<Longrightarrow> read_json n (emit j @ r) = Some (as_read j, r)"
  "ms \<noteq> [] \<Longrightarrow> list_all (\<lambda>(k, v). writable v) ms \<Longrightarrow> size_list (size_prod (\<lambda>_. 0) size) ms \<le> n \<Longrightarrow>
     read_members n (emit_members ms @ CHR ''}'' # r) = Some (map (\<lambda>(k, v). (to_utf8 k, as_read v)) ms, r)"
proof (induction j and ms arbitrary: n r and n r rule: emit_emit_members.induct)
  case (1 s)
  then obtain k where n: "n = Suc k" by (cases n) auto
  obtain s' where s': "quote s @ r = QUOTE # s'" "unquote s' = Some (to_utf8 s, r)"
    using unquote_quote [of s r] by blast
  then show ?case by (simp add: n)
next
  case (2 x)
  then obtain k where n: "n = Suc k" by (cases n) auto
  have hd: "number_text x \<noteq> []" "hd (number_text x @ r) \<noteq> QUOTE" "hd (number_text x @ r) \<noteq> CHR ''{''"
    using number_text_hd [of x] 2 by auto
  then show ?case using read_scalar_number [of x r] 2 by (simp add: n ends_value_def)
next
  case (3 ms)
  then obtain k where n: "n = Suc k" "size_list (size_prod (\<lambda>_. 0) size) ms \<le> k" by (cases n) auto
  show ?case
  proof (cases "ms = []")
    case True
    then show ?thesis by (simp add: n(1) QUOTE_def)
  next
    case False
    then obtain s where "emit_members ms = QUOTE # s" using emit_members_start by blast
    with False show ?thesis
      using "3.IH" [OF False _ n(2), of r] "3.prems"(1) by (simp add: n(1) QUOTE_def)
  qed
next
  case 4
  then show ?case by simp
next
  case (5 k v ms)
  then obtain i where n: "n = Suc i" "size v < i" "size_list (size_prod (\<lambda>_. 0) size) ms \<le> i"
    by (cases n) auto
  let ?rest = "(if ms = [] then [] else '','' @ emit_members ms) @ CHR ''}'' # r"
  obtain s' where s': "quote k @ '':'' @ emit v @ ?rest = QUOTE # s'"
      "unquote s' = Some (to_utf8 k, '':'' @ emit v @ ?rest)"
    using unquote_quote [of k "'':'' @ emit v @ ?rest"] by blast
  have "read_json i (emit v @ ?rest) = Some (as_read v, ?rest)"
    using "5.IH"(1) [of i ?rest] "5.prems"(2) n(2) by simp
  moreover have "read_members i (emit_members ms @ CHR ''}'' # r) =
      Some (map (\<lambda>(k, v). (to_utf8 k, as_read v)) ms, r)" if "ms \<noteq> []"
    using "5.IH"(2) [OF that that _ n(3)] "5.prems"(2) that by simp
  moreover have "emit_members ((k, v) # ms) @ CHR ''}'' # r = QUOTE # s'"
    using s'(1) by simp
  ultimately show ?case
    using s'(2) by (simp add: n(1) del: emit_members.simps)
qed

text \<open>The bound: as many steps as the text has characters are enough.\<close>

lemma size_emit: "size j \<le> length (emit j)" "size_list (size_prod (\<lambda>_. 0) size) ms \<le> length (emit_members ms)"
  by (induction j and ms rule: emit_emit_members.induct) (auto simp: quote_def)

definition read_document :: "string \<Rightarrow> (json \<times> string) option" where
  "read_document s = read_json (Suc (length s)) s"

theorem read_document_emit:
  assumes "writable j" "ends_value r"
  shows "read_document (emit j @ r) = Some (as_read j, r)"
proof -
  have "size j < Suc (length (emit j @ r))" using size_emit(1) [of j] by simp
  then show ?thesis by (simp only: read_document_def read_emit(1) [OF assms(1) _ assms(2)])
qed

text \<open>The text of a value is one line.\<close>

definition one_line :: "string \<Rightarrow> bool" where
  "one_line s \<longleftrightarrow> CHR 0x0A \<notin> set s"

lemma hex_lower_not_newline: "n < 16 \<Longrightarrow> hex_lower n \<noteq> CHR 0x0A"
  using hexval_lower [of n] by (auto simp: hexval_def)

lemma escape_ascii_one_line: "(of_char c :: nat) < 0x80 \<Longrightarrow> one_line (escape_ascii c)"
proof -
  assume "(of_char c :: nat) < 0x80"
  then have "hex_lower (of_char c div 16) \<noteq> CHR 0x0A" "hex_lower (of_char c mod 16) \<noteq> CHR 0x0A"
    by (intro hex_lower_not_newline; simp)+
  then show ?thesis
    by (auto simp: one_line_def escape_ascii_def html_safe_def BACKSLASH_def QUOTE_def)
qed

lemma escape_rune_one_line: "rune_ok r \<Longrightarrow> one_line (escape_rune r)"
proof (cases r)
  case (Rune s)
  assume "rune_ok r"
  with Rune show ?thesis
    using escape_ascii_one_line [of "hd s"]
    by (auto simp: rune_ok_def one_line_def BACKSLASH_def list_all_iff)
qed (simp add: one_line_def BACKSLASH_def)

lemma quote_one_line: "one_line (quote s)"
  using runes_ok [of s] escape_rune_one_line by (auto simp: quote_def one_line_def QUOTE_def list_all_iff)

lemma number_text_one_line: "one_line (number_text x)"
proof (cases x)
  case (Fin m)
  then show ?thesis
    using magnitude_number_chars [of "nat \<bar>m\<bar>"]
    by (auto simp: one_line_def list_all_iff number_char_def is_digit_def)
qed (simp_all add: one_line_def)

lemma emit_one_line: "one_line (emit j)" "one_line (emit_members ms)"
  by (induction j and ms rule: emit_emit_members.induct)
    (use quote_one_line number_text_one_line in \<open>auto simp: one_line_def\<close>)

end
