(* ===== verification/Sink_Exporters.thy ===== *)
theory Sink_Exporters
  imports Sink_Core
begin

text \<open>
  \<open>internal/sink/stdout.go\<close>, \<open>influxdb.go\<close> and \<open>prometheus.go\<close>: the three outputs, up to the
  libraries they call. The InfluxDB client and the HTTP exposition of a metric are those
  libraries' business; the state of a sink is what it hands to them. The JSON text of a record
  is in \<open>Sink_Json\<close>.
\<close>

section \<open>Stdout\<close>

text \<open>
  The layout \<open>2006-01-02T15:04:05.000Z\<close> of a UTC instant, as \<open>Time.Format\<close> writes it: the
  Gregorian date, found by cycles of 400, 100, 4 and 1 years, and the time of day, with the
  fraction cut off after the milliseconds.
\<close>

definition year_of_day :: "int \<Rightarrow> int \<times> int" where
  "year_of_day d =
     (let n400 = d div 146097; d = d - 146097 * n400;
          n100 = d div 36524; n100 = n100 - n100 div 4; d = d - 36524 * n100;
          n4 = d div 1461; d = d - 1461 * n4;
          n1 = d div 365; n1 = n1 - n1 div 4; d = d - 365 * n1
      in (400 * n400 + 100 * n100 + 4 * n4 + n1 + 1, d))"

definition month_start :: "int \<Rightarrow> nat \<Rightarrow> int" where
  "month_start y m = days_before_month m + (if is_leap y \<and> 2 \<le> m then 1 else 0)"

definition month_of_day :: "int \<Rightarrow> int \<Rightarrow> nat" where
  "month_of_day y d = length (filter (\<lambda>m. month_start y m \<le> d) [1 ..< 12])"

definition civil :: "instant \<Rightarrow> int \<times> int \<times> int \<times> int \<times> int \<times> int \<times> int" where
  "civil t =
     (let s = t div second; d = s div 86400; r = s mod 86400; (y, yd) = year_of_day d;
          m = month_of_day y yd
      in (y, int m + 1, yd - month_start y m + 1, r div 3600, r mod 3600 div 60, r mod 60,
          (t mod second) div millisecond))"

text \<open>The package's \<open>appendInt\<close>: at least \<open>w\<close> digits, after the sign.\<close>

definition append_int :: "nat \<Rightarrow> int \<Rightarrow> string" where
  "append_int w n =
     (let s = dec_str (nat \<bar>n\<bar>) in
      (if n < 0 then ''-'' else []) @ replicate (w - length s) (CHR ''0'') @ s)"

definition format_utc :: "instant \<Rightarrow> string" where
  "format_utc t =
     (case civil t of (y, mo, d, h, mi, s, ms) \<Rightarrow>
        append_int 4 y @ ''-'' @ append_int 2 mo @ ''-'' @ append_int 2 d @ ''T'' @
        append_int 2 h @ '':'' @ append_int 2 mi @ '':'' @ append_int 2 s @ ''.'' @
        append_int 3 ms @ ''Z'')"

record stdout_record =
  js_ts :: string
  js_metric :: string
  js_value :: float64
  js_unit :: string
  js_tags :: tags

definition stdout_rec :: "measurement \<Rightarrow> stdout_record" where
  "stdout_rec m =
     \<lparr>js_ts = format_utc (Timestamp m), js_metric = Name m, js_value = Value m, js_unit = Unit m,
      js_tags = Tags m\<rparr>"

text \<open>\<open>encoding/json\<close> has no text for NaN and the infinities and writes nothing for them.\<close>

datatype json_error = UnsupportedValue float64

definition stdout_write :: "measurement \<Rightarrow> stdout_record list \<Rightarrow> json_error option \<times> stdout_record list" where
  "stdout_write m out =
     (case Value m of
        Fin _ \<Rightarrow> (None, out @ [stdout_rec m])
      | v \<Rightarrow> (Some (UnsupportedValue v), out))"

section \<open>InfluxDB\<close>

record influx_config =
  ix_URL :: string
  ix_Token :: string
  ix_Org :: string
  ix_Bucket :: string
  ix_Measurement :: string
  ix_BatchSize :: nat
  ix_FlushInterval :: duration

datatype influx_error = UrlRequired | OrgBucketRequired | NameEmpty | CloseExpired

text \<open>The options set on the client; \<open>None\<close> leaves the client's default.\<close>

record influx_options =
  opt_batch :: "nat option"
  opt_flush_ms :: "nat option"
  opt_retry_ms :: nat
  opt_max_retry_ms :: nat
  opt_retry_buffer :: nat

record influx_point =
  pt_measurement :: string
  pt_tags :: tags
  pt_fields :: "(string \<times> float64) list"
  pt_time :: instant

record influx_sink =
  ix_options :: influx_options
  ix_target :: "string \<times> string \<times> string \<times> string"
  ix_measurement :: string
  ix_points :: "influx_point list"
  ix_flushed :: bool
  ix_done :: bool

definition NewInfluxDB :: "influx_config \<Rightarrow> influx_error + influx_sink" where
  "NewInfluxDB cfg =
     (if ix_URL cfg = [] then Inl UrlRequired
      else if ix_Bucket cfg = [] \<or> ix_Org cfg = [] then Inl OrgBucketRequired
      else Inr
        \<lparr>ix_options =
           \<lparr>opt_batch = (if 0 < ix_BatchSize cfg then Some (ix_BatchSize cfg) else None),
            opt_flush_ms =
              (if 0 < ix_FlushInterval cfg then Some (nat (ix_FlushInterval cfg div millisecond)) else None),
            opt_retry_ms = 5000, opt_max_retry_ms = 60000, opt_retry_buffer = 5000\<rparr>,
         ix_target = (ix_URL cfg, ix_Token cfg, ix_Org cfg, ix_Bucket cfg),
         ix_measurement = (if ix_Measurement cfg = [] then ''smartmeter'' else ix_Measurement cfg),
         ix_points = [], ix_flushed = False, ix_done = False\<rparr>)"

definition influx_write :: "measurement \<Rightarrow> influx_sink \<Rightarrow> influx_error option \<times> influx_sink" where
  "influx_write m i =
     (if length (Name m) = 0 then (Some NameEmpty, i)
      else (None, i\<lparr>ix_points := ix_points i @
        [\<lparr>pt_measurement = ix_measurement i, pt_tags = Tags m, pt_fields = [(Name m, Value m)],
          pt_time = Timestamp m\<rparr>]\<rparr>))"

text \<open>
  Closing flushes, ends the error pump, then waits for the client or the context, whichever
  comes first; a second close panics on the closed channel.
\<close>

definition influx_close :: "bool \<Rightarrow> influx_sink \<Rightarrow> unit + influx_error option \<times> influx_sink" where
  "influx_close client_first i =
     (if ix_done i then Inl ()
      else Inr (if client_first then None else Some CloseExpired, i\<lparr>ix_flushed := True, ix_done := True\<rparr>))"

section \<open>Prometheus\<close>

record prom_sample =
  ps_name :: string
  ps_value :: float64
  ps_tags :: tags
  ps_unit :: string

record prom_config =
  pc_Listen :: string
  pc_CounterNames :: "string list"

record prom_sink =
  pm_listen :: string
  pm_counterNames :: "string set"
  pm_latest :: "string \<rightharpoonup> prom_sample"

definition NewPrometheus :: "prom_config \<Rightarrow> string + prom_sink" where
  "NewPrometheus cfg =
     (if pc_Listen cfg = [] then Inl ''prometheus: Listen required''
      else Inr \<lparr>pm_listen = pc_Listen cfg, pm_counterNames = set (pc_CounterNames cfg),
                pm_latest = Map.empty\<rparr>)"

definition to_sample :: "measurement \<Rightarrow> prom_sample" where
  "to_sample m = \<lparr>ps_name = Name m, ps_value = Value m, ps_tags = Tags m, ps_unit = Unit m\<rparr>"

definition prom_write :: "measurement \<Rightarrow> prom_sink \<Rightarrow> prom_sink" where
  "prom_write m p = p\<lparr>pm_latest := (pm_latest p)(seriesKey (Name m) (Tags m) \<mapsto> to_sample m)\<rparr>"

datatype value_type = GaugeValue | CounterValue

record prom_metric =
  mt_name :: string
  mt_help :: string
  mt_labels :: "string list"
  mt_type :: value_type
  mt_value :: float64
  mt_vals :: "string list"

definition prom_metric_of :: "prom_sink \<Rightarrow> prom_sample \<Rightarrow> prom_metric" where
  "prom_metric_of p s =
     (let (keys, vals) = labelsOrdered (ps_tags s) in
      \<lparr>mt_name = ps_name s, mt_help = ''BP35C2 collector: '' @ ps_name s, mt_labels = keys,
       mt_type = (if ps_name s \<in> pm_counterNames p then CounterValue else GaugeValue),
       mt_value = ps_value s, mt_vals = vals\<rparr>)"

text \<open>
  \<open>Collect\<close>, iterating over the cache in the order of \<open>keys\<close>. Whether the client library
  accepts a metric (valid names, as many values as labels) is the parameter \<open>accepts\<close>.
\<close>

definition prom_collect :: "(prom_metric \<Rightarrow> bool) \<Rightarrow> string list \<Rightarrow> prom_sink \<Rightarrow> prom_metric list" where
  "prom_collect accepts keys p =
     filter accepts (map (prom_metric_of p) (List.map_filter (pm_latest p) keys))"

end
