(* ===== verification/Sink_Exporters_Safety.thy ===== *)
theory Sink_Exporters_Safety
  imports Sink_Exporters
begin

text \<open>
  What the outputs show: a scrape is the last measurement of every series, and the time of a
  JSON record is the measurement's time to the millisecond.
\<close>

section \<open>A store of the last measurement\<close>

locale series_store =
  fixes put :: "measurement \<Rightarrow> 's \<Rightarrow> 's"
    and get :: "'s \<Rightarrow> string \<Rightarrow> 'v option"
    and item :: "measurement \<Rightarrow> 'v"
  assumes get_put: "get (put m s) k = (if k = key_of m then Some (item m) else get s k)"
begin

lemma get_fold:
  "get (fold put ms s) k =
     (if \<exists>m \<in> set ms. key_of m = k then Some (item (last (filter (\<lambda>m. key_of m = k) ms))) else get s k)"
proof (induction ms rule: rev_induct)
  case (snoc m ms)
  then show ?case by (auto simp: get_put)
qed simp

lemma dom_fold: "dom (get (fold put ms s)) = key_of ` set ms \<union> dom (get s)"
  by (auto simp: get_fold dom_def)

end

interpretation prom: series_store prom_write pm_latest to_sample
  by unfold_locales (simp add: prom_write_def key_of_def)

lemma prom_fold_frame: "pm_counterNames (fold prom_write ms p) = pm_counterNames p"
  by (induction ms arbitrary: p) (simp_all add: prom_write_def)

section \<open>Calendar\<close>

text \<open>Four periods of \<open>N\<close> days and a leap day, which belongs to the last of them.\<close>

lemma four_periods:
  fixes x N :: int
  assumes "0 < N" "0 \<le> x" "x \<le> 4 * N" "q = x div N - x div N div 4"
  shows "0 \<le> q" "q \<le> 3" "0 \<le> x - N * q" "x - N * q \<le> N" "x - N * q = N \<longrightarrow> q = 3 \<and> x = 4 * N"
proof -
  have bounds: "0 \<le> x div N" "x div N \<le> 4"
    using assms(1-3) zdiv_mono1 [of x "4 * N" N] by (simp_all add: pos_imp_zdiv_nonneg_iff)
  have x: "x = N * (x div N) + x mod N" "0 \<le> x mod N" "x mod N < N" using assms(1) by simp_all
  have "x = 4 * N" if "x div N = 4"
  proof -
    have "x = N * 4 + x mod N" using x(1) that by simp
    with x(2) assms(3) show ?thesis by linarith
  qed
  then have last: "q = 3 \<and> x = 4 * N" if "\<not> x div N \<le> 3"
    using that bounds assms(4) by auto
  have "q = x div N" if "x div N \<le> 3" using that bounds assms(4) by simp
  then have other: "N * q = x - x mod N" if "x div N \<le> 3"
    using that by (simp add: minus_mod_eq_mult_div)
  have "0 \<le> q \<and> q \<le> 3 \<and> 0 \<le> x - N * q \<and> x - N * q \<le> N \<and> (x - N * q = N \<longrightarrow> q = 3 \<and> x = 4 * N)"
  proof (cases "x div N \<le> 3")
    case True
    then have "x - N * q = x mod N" "0 \<le> q" "q \<le> 3"
      using other bounds \<open>x div N \<le> 3 \<Longrightarrow> q = x div N\<close> by linarith+
    with x(2,3) show ?thesis by linarith
  next
    case False
    with last show ?thesis using assms(1) by simp
  qed
  then show "0 \<le> q" "q \<le> 3" "0 \<le> x - N * q" "x - N * q \<le> N" "x - N * q = N \<longrightarrow> q = 3 \<and> x = 4 * N"
    by blast+
qed

lemma year_of_day_correct:
  assumes "year_of_day d = (y, yd)"
  shows "days_before_year y + yd = d" "0 \<le> yd" "yd < 365 + of_bool (is_leap y)"
proof -
  define a where "a = d div 146097"
  define d0 where "d0 = d - 146097 * a"
  define b where "b = d0 div 36524 - d0 div 36524 div 4"
  define d1 where "d1 = d0 - 36524 * b"
  define c where "c = d1 div 1461"
  define d2 where "d2 = d1 - 1461 * c"
  define e where "e = d2 div 365 - d2 div 365 div 4"
  have y: "y = 400 * a + 100 * b + 4 * c + e + 1" and yd: "yd = d2 - 365 * e"
    using assms
    unfolding year_of_day_def Let_def a_def [symmetric] d0_def [symmetric] b_def [symmetric]
      d1_def [symmetric] c_def [symmetric] d2_def [symmetric] e_def [symmetric]
    by simp_all
  have "d0 = d mod 146097" by (simp add: d0_def a_def minus_mult_div_eq_mod)
  then have d0: "0 \<le> d0" "d0 < 146097" by simp_all
  note four_b = four_periods [of 36524 d0 b, OF _ d0(1) _ b_def, folded d1_def]
  have b: "0 \<le> b" "b \<le> 3" and d1: "0 \<le> d1" "d1 \<le> 36524" "d1 = 36524 \<longrightarrow> b = 3"
    using four_b d0 by simp_all
  have c: "0 \<le> c" "c \<le> 24" and d2: "0 \<le> d2" "d2 < 1461"
    using d1 by (simp_all add: c_def d2_def pos_imp_zdiv_nonneg_iff minus_mult_div_eq_mod)
  note four_e = four_periods [of 365 d2 e, OF _ d2(1) _ e_def, folded yd]
  have e: "0 \<le> e" "e \<le> 3" and yd_bounds: "0 \<le> yd" "yd \<le> 365" "yd = 365 \<longrightarrow> e = 3 \<and> d2 = 1460"
    using four_e d2 by simp_all
  show "0 \<le> yd" by (rule yd_bounds)
  have q: "(y - 1) div 4 = 100 * a + 25 * b + c" "(y - 1) div 100 = 4 * a + b" "(y - 1) div 400 = a"
  proof -
    have r4: "y - 1 = 4 * (100 * a + 25 * b + c) + e" and r100: "y - 1 = 100 * (4 * a + b) + (4 * c + e)"
      and r400: "y - 1 = 400 * a + (100 * b + 4 * c + e)" using y by simp_all
    show "(y - 1) div 4 = 100 * a + 25 * b + c" by (rule int_div_pos_eq [OF r4]) (use e in linarith)+
    show "(y - 1) div 100 = 4 * a + b" by (rule int_div_pos_eq [OF r100]) (use c e in linarith)+
    show "(y - 1) div 400 = a" by (rule int_div_pos_eq [OF r400]) (use b c e in linarith)+
  qed
  show "days_before_year y + yd = d"
    by (simp add: days_before_year_def Let_def q) (simp add: y yd d2_def d1_def d0_def)
  show "yd < 365 + of_bool (is_leap y)"
  proof (cases "yd = 365")
    case True
    then have "e = 3" "d1 = 1461 * c + 1460" using yd_bounds by (simp_all add: d2_def)
    then have "c = 24 \<longrightarrow> b = 3" using d1 by simp
    have "y = 400 * a + 100 * b + 4 * (c + 1)" using y \<open>e = 3\<close> by simp
    then have "4 dvd y" by simp
    moreover have "400 dvd y" if "100 dvd y"
    proof -
      have "100 dvd y - 100 * (4 * a + b)" by (rule dvd_diff [OF that dvd_triv_left])
      also have "y - 100 * (4 * a + b) = 4 * (c + 1)" using \<open>y = 400 * a + 100 * b + 4 * (c + 1)\<close> by simp
      finally obtain k where "4 * (c + 1) = 100 * k" by blast
      moreover from this have "k = 1" using c by presburger
      ultimately have "c = 24" by simp
      with \<open>c = 24 \<longrightarrow> b = 3\<close> \<open>y = 400 * a + 100 * b + 4 * (c + 1)\<close> show ?thesis by simp
    qed
    ultimately have "is_leap y" by (auto simp: is_leap_def)
    with True show ?thesis by simp
  qed (use yd_bounds in simp)
qed

text \<open>Counting a downward closed property finds where it ends.\<close>

lemma filter_prefix:
  assumes down: "\<And>i j. i \<le> j \<Longrightarrow> j < b \<Longrightarrow> P j \<Longrightarrow> P i" and "a \<le> b"
  shows "length (filter P [a ..< b]) \<le> b - a"
    and "a \<le> m \<Longrightarrow> m < b \<Longrightarrow> P m \<longleftrightarrow> m < a + length (filter P [a ..< b])"
proof -
  have both: "length (filter P [a ..< b]) \<le> b - a \<and>
      (\<forall>m. a \<le> m \<and> m < b \<longrightarrow> (P m \<longleftrightarrow> m < a + length (filter P [a ..< b])))"
    using assms(2) down
  proof (induction b rule: dec_induct)
    case (step b)
    have IH: "length (filter P [a ..< b]) \<le> b - a \<and>
        (\<forall>m. a \<le> m \<and> m < b \<longrightarrow> (P m \<longleftrightarrow> m < a + length (filter P [a ..< b])))"
      by (rule step.IH) (meson less_SucI step.prems)
    show ?case
    proof (cases "P b")
      case True
      then have "P m" if "m < b" for m using step.prems [of m b] that by simp
      then have "filter P [a ..< b] = [a ..< b]" by (simp add: filter_id_conv)
      with True \<open>\<And>m. m < b \<Longrightarrow> P m\<close> step.hyps(1) show ?thesis by (auto simp: less_Suc_eq)
    next
      case False
      define n where "n = length (filter P [a ..< b])"
      have n: "length (filter P [a ..< Suc b]) = n" using False step.hyps(1) by (simp add: n_def)
      have le: "n \<le> b - a" and iff: "\<forall>m. a \<le> m \<and> m < b \<longrightarrow> (P m \<longleftrightarrow> m < a + n)"
        using IH unfolding n_def by blast+
      have "P m \<longleftrightarrow> m < a + n" if "a \<le> m" "m < Suc b" for m
      proof (cases "m = b")
        case True
        with False le step.hyps(1) show ?thesis by simp
      next
        case False
        with iff that show ?thesis by simp
      qed
      with le show ?thesis unfolding n by simp
    qed
  qed auto
  then show "length (filter P [a ..< b]) \<le> b - a" by (rule conjunct1)
  show "a \<le> m \<Longrightarrow> m < b \<Longrightarrow> P m \<longleftrightarrow> m < a + length (filter P [a ..< b])"
    using both by blast
qed

lemma nat_below_12:
  "(m :: nat) < 12 \<longleftrightarrow> m = 0 \<or> m = 1 \<or> m = 2 \<or> m = 3 \<or> m = 4 \<or> m = 5 \<or> m = 6 \<or> m = 7 \<or> m = 8 \<or> m = 9
     \<or> m = 10 \<or> m = 11"
  by presburger

lemma month_start_next: "m < 11 \<Longrightarrow> month_start y m \<le> month_start y (Suc m) \<and> month_start y (Suc m) \<le> month_start y m + 31"
  using nat_below_12 [of m] by (auto simp: month_start_def days_before_month_def)

lemma month_start_mono: "i \<le> j \<Longrightarrow> j < 12 \<Longrightarrow> month_start y i \<le> month_start y j"
proof (induction j rule: dec_induct)
  case (step j)
  then show ?case using month_start_next [of j y] by simp
qed simp

lemma month_of_day_bounds:
  assumes "0 \<le> yd" "yd < 365 + of_bool (is_leap y)"
  shows "month_of_day y yd < 12" "month_start y (month_of_day y yd) \<le> yd"
    "yd < month_start y (month_of_day y yd) + 31"
proof -
  let ?P = "\<lambda>m. month_start y m \<le> yd" and ?k = "month_of_day y yd"
  have down: "?P i" if "i \<le> j" "j < 12" "?P j" for i j
    using month_start_mono [OF that(1,2), of y] that(3) by simp
  have "length (filter ?P [1 ..< 12]) \<le> 12 - 1" by (rule filter_prefix(1)) (rule down, assumption+, simp)
  then have k: "?k < 12" by (simp add: month_of_day_def)
  have count: "?P m \<longleftrightarrow> m < 1 + ?k" if "1 \<le> m" "m < 12" for m
    unfolding month_of_day_def by (rule filter_prefix(2)) (rule down, assumption+, simp, rule that, rule that)
  show "?k < 12" by (rule k)
  show "?P ?k"
    using count [of ?k] k assms(1)
    by (cases "?k = 0") (simp_all add: month_start_def days_before_month_def)
  show "yd < month_start y ?k + 31"
  proof (cases "?k = 11")
    case True
    then show ?thesis
      using assms(2) by (cases "is_leap y") (simp_all add: month_start_def days_before_month_def)
  next
    case False
    then have "\<not> ?P (Suc ?k)" using count [of "Suc ?k"] k by simp
    with False k month_start_next [of ?k y] show ?thesis by simp
  qed
qed

lemma millis_split: "v div millisecond = v div second * 1000 + v mod second div millisecond"
proof -
  have "v div millisecond = (v mod second + (v div second * 1000) * millisecond) div millisecond"
    using div_mult_mod_eq [of v second] by (simp add: second_def millisecond_def)
  also have "\<dots> = v div second * 1000 + v mod second div millisecond"
    by (rule div_mult_self1) (simp add: millisecond_def)
  finally show ?thesis .
qed

lemma millis_parts:
  "v div second = v div millisecond div 1000" "v mod second div millisecond = v div millisecond mod 1000"
proof -
  have "0 \<le> v mod second div millisecond" "v mod second div millisecond < 1000"
    by (simp_all add: second_def millisecond_def pos_imp_zdiv_nonneg_iff)
  then show "v div second = v div millisecond div 1000"
    "v mod second div millisecond = v div millisecond mod 1000"
    by (simp_all add: millis_split [of v])
qed

lemma civil_correct:
  assumes "civil t = (y, mo, d, h, mi, s, ms)"
  shows "wall_seconds y mo d h mi s = t div second"
    "1 \<le> mo \<and> mo \<le> 12 \<and> 1 \<le> d \<and> d \<le> 31 \<and> 0 \<le> h \<and> h < 24 \<and> 0 \<le> mi \<and> mi < 60 \<and> 0 \<le> s \<and> s < 60"
    "ms = t mod second div millisecond \<and> 0 \<le> ms \<and> ms < 1000"
proof -
  define day where "day = t div second div 86400"
  define r where "r = t div second mod 86400"
  obtain yy yd where year: "year_of_day day = (yy, yd)" by (cases "year_of_day day")
  let ?m = "month_of_day yy yd"
  have f: "y = yy" "mo = int ?m + 1" "d = yd - month_start yy ?m + 1" "h = r div 3600" "mi = r mod 3600 div 60"
    "s = r mod 60" "ms = t mod second div millisecond"
    using assms by (auto simp: civil_def Let_def year [unfolded day_def] r_def)
  note yc = year_of_day_correct [OF year] and mc = month_of_day_bounds [OF year_of_day_correct(2,3) [OF year]]
  have r: "0 \<le> r" "r < 86400" by (simp_all add: r_def)
  have "(mo - 1) div 12 = 0" "nat ((mo - 1) mod 12) = ?m" using mc(1) by (simp_all add: f)
  then have "wall_seconds y mo d h mi s = (days_before_year yy + yd) * 86400 + (h * 3600 + mi * 60 + s)"
    by (simp add: wall_seconds_def Let_def f(1,3) month_start_def)
  also have "h * 3600 + mi * 60 + s = r"
  proof -
    have "r div 3600 * 3600 + r mod 3600 = r" by simp
    moreover have "r mod 3600 div 60 * 60 + r mod 60 = r mod 3600"
      using div_mult_mod_eq [of "r mod 3600" 60] by (simp add: mod_mod_cancel)
    ultimately show ?thesis unfolding f by linarith
  qed
  also have "days_before_year yy + yd = day" by (rule yc(1))
  also have "day * 86400 + r = t div second" by (simp add: day_def r_def)
  finally show "wall_seconds y mo d h mi s = t div second" .
  have "0 \<le> h" "h < 24" "0 \<le> mi" "mi < 60" "0 \<le> s" "s < 60"
    using r by (simp_all add: f pos_imp_zdiv_nonneg_iff)
  with mc show "1 \<le> mo \<and> mo \<le> 12 \<and> 1 \<le> d \<and> d \<le> 31 \<and> 0 \<le> h \<and> h < 24 \<and> 0 \<le> mi \<and> mi < 60 \<and> 0 \<le> s \<and> s < 60"
    by (simp add: f(2,3))
  show "ms = t mod second div millisecond \<and> 0 \<le> ms \<and> ms < 1000"
    by (simp add: f second_def millisecond_def pos_imp_zdiv_nonneg_iff)
qed

lemma civil_year_pos: "0 \<le> t \<Longrightarrow> 1 \<le> fst (civil t)"
proof -
  assume t: "0 \<le> t"
  define day where "day = t div second div 86400"
  obtain y yd where year: "year_of_day day = (y, yd)" by (cases "year_of_day day")
  have "0 \<le> day" using t by (simp add: day_def second_def pos_imp_zdiv_nonneg_iff)
  then have "0 < days_before_year y + 366"
    using year_of_day_correct [OF year] by (cases "is_leap y") simp_all
  moreover have "days_before_year y \<le> - 366" if "y \<le> 0"
  proof -
    have "y - 1 \<le> - 1" using that by simp
    then have "(y - 1) div 4 \<le> - 1" "(y - 1) div 400 \<le> - 1"
      using zdiv_mono1 [of "y - 1" "- 1" 4] zdiv_mono1 [of "y - 1" "- 1" 400] by simp_all
    moreover have "y - 1 \<le> 100 * ((y - 1) div 100) + 99"
      using mult_div_mod_eq [of 100 "y - 1"] pos_mod_bound [of 100 "y - 1"] by linarith
    moreover have "365 * p + q - q' + q'' \<le> - 366"
      if "p \<le> - 1" "q \<le> - 1" "q'' \<le> - 1" "p \<le> 100 * q' + 99" for p q q' q'' :: int
      using that by linarith
    ultimately have "365 * (y - 1) + (y - 1) div 4 - (y - 1) div 100 + (y - 1) div 400 \<le> - 366"
      using \<open>y - 1 \<le> - 1\<close> by blast
    then show ?thesis by (simp add: days_before_year_def Let_def)
  qed
  ultimately have "1 \<le> y" by fastforce
  then show "1 \<le> fst (civil t)" by (simp add: civil_def Let_def year [unfolded day_def])
qed

section \<open>Decimals\<close>

definition dec_val :: "string \<Rightarrow> nat" where
  "dec_val s = foldl (\<lambda>a c. 10 * a + (of_char c - 48)) 0 s"

lemma dec_val_snoc: "dec_val (s @ [c]) = 10 * dec_val s + (of_char c - 48)"
  by (simp add: dec_val_def)

lemma digit_val: "n < 10 \<Longrightarrow> (of_char (hex_digit n) :: nat) - 48 = n"
proof -
  assume "n < 10"
  then have "n = 0 \<or> n = 1 \<or> n = 2 \<or> n = 3 \<or> n = 4 \<or> n = 5 \<or> n = 6 \<or> n = 7 \<or> n = 8 \<or> n = 9" by presburger
  then show ?thesis by (auto simp: hex_digit_def)
qed

lemma dec_val_str: "dec_val (dec_str n) = n"
proof (induction n rule: dec_str.induct)
  case (1 n)
  show ?case
  proof (cases "n < 10")
    case True
    then show ?thesis by (simp add: dec_str.simps [of n] dec_val_def digit_val)
  next
    case False
    then show ?thesis using 1 [OF False] by (simp add: dec_str.simps [of n] dec_val_snoc digit_val)
  qed
qed

lemma dec_val_zeros: "dec_val (replicate k (CHR ''0'') @ s) = dec_val s"
  by (induction k) (simp_all add: dec_val_def)

lemma length_dec_str: "0 < w \<Longrightarrow> n < 10 ^ w \<Longrightarrow> length (dec_str n) \<le> w"
proof (induction n arbitrary: w rule: dec_str.induct)
  case (1 n)
  show ?case
  proof (cases "n < 10")
    case True
    then show ?thesis using 1(2) by (simp add: dec_str.simps [of n])
  next
    case False
    with 1(3) obtain v where v: "w = Suc v" "0 < v" by (cases w; cases "w - 1") auto
    then have "length (dec_str (n div 10)) \<le> v"
      using 1(1) [OF False, of v] 1(3) by (simp add: less_mult_imp_div_less mult.commute)
    then show ?thesis using False v by (simp add: dec_str.simps [of n])
  qed
qed

lemma append_int_inject: "0 \<le> a \<Longrightarrow> 0 \<le> b \<Longrightarrow> append_int w a = append_int w b \<Longrightarrow> a = b"
  using dec_val_zeros dec_val_str by (simp add: append_int_def Let_def) (metis nat_eq_iff)

lemma length_append_int:
  assumes "0 \<le> n" "0 < w" "n < 10 ^ w"
  shows "length (append_int w n) = w"
proof -
  have "nat n < 10 ^ w" using assms by (simp add: nat_less_iff)
  then show ?thesis using assms length_dec_str [of w "nat n"] by (simp add: append_int_def Let_def)
qed

lemma append_int_append:
  assumes "0 \<le> a" "a < 10 ^ w" "0 \<le> b" "b < 10 ^ w" "0 < w"
  shows "append_int w a @ s = append_int w b @ t \<longleftrightarrow> a = b \<and> s = t"
  using assms append_int_inject [of a b w] by (auto simp: append_eq_append_conv length_append_int)

text \<open>Two readings of one series.\<close>

definition demo_prom :: prom_sink where
  "demo_prom = \<lparr>pm_listen = '':9101'', pm_counterNames = {''e''}, pm_latest = Map.empty\<rparr>"

definition demo_reading :: "int \<Rightarrow> measurement" where
  "demo_reading v = \<lparr>Timestamp = 1, Name = ''e'', Value = Fin v, Unit = ''kWh'', Tags = []\<rparr>"

section \<open>Properties\<close>

text \<open>
  The time of a JSON record is the measurement's time to the millisecond: it shows the
  Gregorian date and time of day of the instant, cut off to milliseconds, and two instants
  after the zero time get the same text exactly when they fall in the same millisecond.
\<close>

theorem stdout_timestamp_exact:
  assumes "0 \<le> t" "0 \<le> u" "civil t = (y, mo, d, h, mi, s, ms)"
  shows "date_in (fixed_zone 0) y mo d h mi s + ms * millisecond = t - t mod millisecond
    \<and> (js_ts (stdout_rec (m\<lparr>Timestamp := t\<rparr>)) = js_ts (stdout_rec (m'\<lparr>Timestamp := u\<rparr>))
        \<longleftrightarrow> t div millisecond = u div millisecond)"
proof
  note c = civil_correct [OF assms(3)]
  have "t mod second div millisecond * millisecond = t mod second - t mod millisecond"
    by (simp add: minus_mod_eq_div_mult [symmetric] second_def millisecond_def mod_mod_cancel)
  moreover have "t div second * second + t mod second = t" by simp
  moreover have "date_in (fixed_zone 0) y mo d h mi s = wall_seconds y mo d h mi s * second"
    by (simp add: date_in_def fixed_zone_def Let_def unix_epoch_def algebra_simps)
  ultimately show "date_in (fixed_zone 0) y mo d h mi s + ms * millisecond = t - t mod millisecond"
    using c by simp
next
  obtain y' mo' d' h' mi' s' ms' where civ: "civil u = (y', mo', d', h', mi', s', ms')"
    by (cases "civil u") auto
  note c = civil_correct [OF assms(3)] and c' = civil_correct [OF civ]
  have pos: "1 \<le> y" "1 \<le> y'"
    using civil_year_pos [OF assms(1)] civil_year_pos [OF assms(2)] assms(3) civ by simp_all
  have "format_utc t = format_utc u \<longleftrightarrow> civil t = civil u"
  proof
    define rest where "rest mo d h mi s ms = ''-'' @ append_int 2 mo @ ''-'' @ append_int 2 d @ ''T'' @
        append_int 2 h @ '':'' @ append_int 2 mi @ '':'' @ append_int 2 s @ ''.'' @ append_int 3 ms @ ''Z''"
      for mo d h mi s ms
    assume "format_utc t = format_utc u"
    then have eq: "append_int 4 y @ rest mo d h mi s ms = append_int 4 y' @ rest mo' d' h' mi' s' ms'"
      by (simp add: format_utc_def assms(3) civ rest_def)
    have "length (rest mo d h mi s ms) = length (rest mo' d' h' mi' s' ms')"
      using c(2,3) c'(2,3) by (simp add: rest_def length_append_int)
    with eq have "append_int 4 y = append_int 4 y'" "rest mo d h mi s ms = rest mo' d' h' mi' s' ms'"
      by simp_all
    then show "civil t = civil u"
      using c(2,3) c'(2,3) pos append_int_inject [of y y' 4] append_int_inject [of ms ms' 3]
      by (simp add: assms(3) civ rest_def append_int_append)
  qed (simp add: format_utc_def)
  also have "\<dots> \<longleftrightarrow> t div millisecond = u div millisecond"
  proof
    assume "civil t = civil u"
    then show "t div millisecond = u div millisecond"
      using c c' by (simp add: millis_split [of t] millis_split [of u] assms(3) civ)
  next
    assume eq: "t div millisecond = u div millisecond"
    then have "t div second = u div second" "t mod second div millisecond = u mod second div millisecond"
      using millis_parts [of t] millis_parts [of u] by simp_all
    then show "civil t = civil u" by (simp add: civil_def)
  qed
  finally show "js_ts (stdout_rec (m\<lparr>Timestamp := t\<rparr>)) = js_ts (stdout_rec (m'\<lparr>Timestamp := u\<rparr>))
        \<longleftrightarrow> t div millisecond = u div millisecond"
    by (simp add: stdout_rec_def)
qed

theorem stdout_timestamp_exact_witness:
  "js_ts (stdout_rec (demo_reading 1\<lparr>Timestamp := 1500000\<rparr>)) = js_ts (stdout_rec (demo_reading 1\<lparr>Timestamp := 1900000\<rparr>))"
proof -
  have "civil 1500000 = (1, 1, 1, 0, 0, 0, 1)" by code_simp
  from stdout_timestamp_exact [OF _ _ this, of 1900000 "demo_reading 1" "demo_reading 1"]
  show ?thesis by (simp add: millisecond_def)
qed

text \<open>
  C31: A scrape shows the last measurement of every series: after any writes, \<open>Collect\<close> emits,
  for each series written and for no other, one metric built from the last measurement of
  that series (a counter exactly when its name was configured as one), unless the client
  library rejects it.
\<close>

theorem scrape_is_last_write:
  assumes "NewPrometheus cfg = Inr p0" "p = fold prom_write ms p0" "set keys = dom (pm_latest p)"
  shows "set keys = key_of ` set ms
    \<and> prom_collect accepts keys p =
        filter accepts (map (\<lambda>k. prom_metric_of p0 (to_sample (last (filter (\<lambda>m. key_of m = k) ms)))) keys)
    \<and> (mt_type (prom_metric_of p0 x) = CounterValue \<longleftrightarrow> ps_name x \<in> set (pc_CounterNames cfg))"
proof (intro conjI)
  have p0: "pm_latest p0 = Map.empty" "pm_counterNames p0 = set (pc_CounterNames cfg)"
    using assms(1) by (auto simp: NewPrometheus_def split: if_splits)
  show keys: "set keys = key_of ` set ms"
    using assms(2,3) by (simp add: prom.dom_fold p0)
  have "List.map_filter (pm_latest p) keys = map (\<lambda>k. to_sample (last (filter (\<lambda>m. key_of m = k) ms))) keys"
  proof -
    have "pm_latest p k = Some (to_sample (last (filter (\<lambda>m. key_of m = k) ms)))" if "k \<in> set keys" for k
      using that keys by (auto simp: assms(2) prom.get_fold)
    then show ?thesis by (induction keys) (simp_all add: List.map_filter_simps)
  qed
  moreover have "prom_metric_of p = prom_metric_of p0"
    by (simp add: fun_eq_iff prom_metric_of_def assms(2) prom_fold_frame)
  ultimately show "prom_collect accepts keys p =
      filter accepts (map (\<lambda>k. prom_metric_of p0 (to_sample (last (filter (\<lambda>m. key_of m = k) ms)))) keys)"
    by (simp add: prom_collect_def comp_def)
  show "mt_type (prom_metric_of p0 x) = CounterValue \<longleftrightarrow> ps_name x \<in> set (pc_CounterNames cfg)"
    by (simp add: prom_metric_of_def p0 split: prod.split)
qed

theorem scrape_is_last_write_witness:
  "map mt_value (prom_collect (\<lambda>_. True) [''e''] (fold prom_write [demo_reading 1, demo_reading 2] demo_prom)) = [Fin 2]"
proof -
  have "NewPrometheus \<lparr>pc_Listen = '':9101'', pc_CounterNames = [''e'']\<rparr> = Inr demo_prom"
    by (simp add: NewPrometheus_def demo_prom_def)
  moreover have "set [''e''] = dom (pm_latest (fold prom_write [demo_reading 1, demo_reading 2] demo_prom))"
    by (simp add: prom_write_def demo_reading_def demo_prom_def seriesKey_def)
  ultimately show ?thesis
    using scrape_is_last_write [OF _ refl, of _ demo_prom "[''e'']" "[demo_reading 1, demo_reading 2]" "\<lambda>_. True"]
    by (simp add: prom_metric_of_def to_sample_def demo_reading_def key_of_def seriesKey_def labelsOrdered_def)
qed

end
