(* ===== verification/Sink_Json.thy ===== *)
theory Sink_Json
  imports Go_Json Sink_Exporters_Safety
begin

text \<open>
  The text of \<open>internal/sink/stdout.go\<close>: the JSON line \<open>Write\<close> has the encoder print for a
  record, and that the line is read back as the measurement.
\<close>

section \<open>The line\<close>

text \<open>
  The fields in the order of the struct; \<open>omitempty\<close> drops an empty unit and an empty map of
  tags, and the encoder sorts the keys of a map.
\<close>

definition stdout_json :: "stdout_record \<Rightarrow> json" where
  "stdout_json r =
     JObject
       ([(''ts'', JString (js_ts r)), (''metric'', JString (js_metric r)), (''value'', JNumber (js_value r))] @
        (if js_unit r = [] then [] else [(''unit'', JString (js_unit r))]) @
        (if js_tags r = [] then []
         else [(''tags'', JObject (map (\<lambda>k. (k, JString (tag_value (js_tags r) k))) (sorted_keys (js_tags r))))]))"

text \<open>\<open>Encode\<close> ends the value with a newline.\<close>

definition stdout_line :: "stdout_record \<Rightarrow> string" where
  "stdout_line r = emit (stdout_json r) @ [CHR 0x0A]"

definition stdout_text :: "stdout_record list \<Rightarrow> string" where
  "stdout_text rs = concat (map stdout_line rs)"

section \<open>Reading it\<close>

definition string_field :: "(string \<times> json) list \<Rightarrow> string \<Rightarrow> string option" where
  "string_field ms k = (case map_of ms k of Some (JString s) \<Rightarrow> Some s | _ \<Rightarrow> None)"

definition tags_field :: "(string \<times> json) list \<Rightarrow> tags" where
  "tags_field ms =
     (case map_of ms ''tags'' of
        Some (JObject ts) \<Rightarrow> map (\<lambda>(k, v). (k, case v of JString s \<Rightarrow> s | _ \<Rightarrow> [])) ts
      | _ \<Rightarrow> [])"

fun record_of :: "json \<Rightarrow> stdout_record option" where
  "record_of (JObject ms) =
     (case (string_field ms ''ts'', string_field ms ''metric'', map_of ms ''value'') of
        (Some t, Some n, Some (JNumber v)) \<Rightarrow>
          Some \<lparr>js_ts = t, js_metric = n, js_value = v,
                js_unit = (case string_field ms ''unit'' of Some u \<Rightarrow> u | None \<Rightarrow> []),
                js_tags = tags_field ms\<rparr>
      | _ \<Rightarrow> None)"
| "record_of _ = None"

definition read_json_line :: "string \<Rightarrow> stdout_record option" where
  "read_json_line s =
     (case read_document s of Some (j, r) \<Rightarrow> if r = [CHR 0x0A] then record_of j else None | None \<Rightarrow> None)"

section \<open>The time is plain text\<close>

lemma dec_str_ascii: "list_all (\<lambda>c. (of_char c :: nat) < 0x80) (dec_str n)"
  using dec_str_digits [of n] by (auto simp: list_all_iff is_digit_def)

lemma append_int_ascii: "list_all (\<lambda>c. (of_char c :: nat) < 0x80) (append_int w n)"
  using dec_str_ascii [of "nat \<bar>n\<bar>"] by (auto simp: append_int_def Let_def list_all_iff)

lemma format_utc_utf8: "to_utf8 (format_utc t) = format_utc t"
  by (rule to_utf8_ascii) (auto simp: format_utc_def append_int_ascii split: prod.split)

section \<open>Properties\<close>

definition utf8_texts :: "measurement \<Rightarrow> bool" where
  "utf8_texts m \<longleftrightarrow> to_utf8 (Name m) = Name m \<and> to_utf8 (Unit m) = Unit m \<and>
     list_all (\<lambda>(k, v). to_utf8 k = k \<and> to_utf8 v = v) (Tags m)"

lemma sorted_keys_set: "set (sorted_keys ts) = fst ` set ts"
  by (simp add: sorted_keys_def)

lemma map_of_sorted: "map_of (map (\<lambda>k. (k, tag_value ts k)) (sorted_keys ts)) = map_of ts"
proof
  fix k
  show "map_of (map (\<lambda>k. (k, tag_value ts k)) (sorted_keys ts)) k = map_of ts k"
  proof (cases "k \<in> fst ` set ts")
    case True
    then obtain v where "map_of ts k = Some v" by (metis map_of_eq_None_iff not_Some_eq)
    with True show ?thesis by (simp add: map_of_map_restrict sorted_keys_set tag_value_def)
  next
    case False
    then show ?thesis
      using map_of_eq_None_iff [of ts k] by (simp add: map_of_map_restrict sorted_keys_set)
  qed
qed

lemma stdout_json_read:
  assumes "utf8_texts m" "proper_float (Value m)"
  shows "\<exists>r. read_json_line (stdout_line (stdout_rec m)) = Some r \<and> js_ts r = format_utc (Timestamp m)
    \<and> js_metric r = Name m \<and> js_value r = Value m \<and> js_unit r = Unit m
    \<and> js_tags r = map (\<lambda>k. (k, tag_value (Tags m) k)) (sorted_keys (Tags m))"
proof -
  let ?j = "stdout_json (stdout_rec m)"
  have "writable ?j"
    using assms(2) by (auto simp: stdout_json_def stdout_rec_def proper_float_def list_all_iff)
  then have doc: "read_document (stdout_line (stdout_rec m)) = Some (as_read ?j, [CHR 0x0A])"
    unfolding stdout_line_def by (rule read_document_emit) simp
  have tag: "to_utf8 k = k" "to_utf8 (tag_value (Tags m) k) = tag_value (Tags m) k"
    if "k \<in> set (sorted_keys (Tags m))" for k
  proof -
    obtain v where "map_of (Tags m) k = Some v"
      using \<open>k \<in> set (sorted_keys (Tags m))\<close> by (metis map_of_eq_None_iff not_Some_eq sorted_keys_set)
    moreover from this have "(k, v) \<in> set (Tags m)" by (rule map_of_SomeD)
    ultimately show "to_utf8 k = k" "to_utf8 (tag_value (Tags m) k) = tag_value (Tags m) k"
      using assms(1) by (auto simp: utf8_texts_def list_all_iff tag_value_def)
  qed
  have names: "to_utf8 ''ts'' = ''ts''" "to_utf8 ''metric'' = ''metric''" "to_utf8 ''value'' = ''value''"
    "to_utf8 ''unit'' = ''unit''" "to_utf8 ''tags'' = ''tags''"
    by (rule to_utf8_ascii; simp)+
  have texts: "to_utf8 (Name m) = Name m" "to_utf8 (Unit m) = Unit m"
    using assms(1) by (simp_all add: utf8_texts_def)
  have "read_json_line (stdout_line (stdout_rec m)) = record_of (as_read ?j)"
    by (simp add: read_json_line_def doc)
  also have "\<dots> = Some ((stdout_rec m)\<lparr>js_tags := map (\<lambda>k. (k, tag_value (Tags m) k)) (sorted_keys (Tags m))\<rparr>)"
    using tag texts
    by (cases "Tags m = []"; cases "Unit m = []")
      (simp_all add: stdout_json_def stdout_rec_def names format_utc_utf8 string_field_def tags_field_def
        sorted_keys_def)
  finally show ?thesis by (simp add: stdout_rec_def)
qed

text \<open>
  C14: What stdout prints is read back: whenever \<open>Write\<close> accepts a measurement it appends one
  line to what was printed before, and a JSON reader gets from this line the name, the unit,
  the tags and exactly the value, to the last bit, of the measurement, and a time that is
  the text of exactly the instants in the measurement's millisecond. Texts are UTF-8,
  and the value is one that arithmetic can produce.
\<close>

theorem stdout_line_roundtrip:
  assumes "utf8_texts m" "is_float64 (Value m)" "distinct (map fst (Tags m))"
    and "fst (stdout_write m out) = None"
  shows "\<exists>line r. stdout_text (snd (stdout_write m out)) = stdout_text out @ line @ [CHR 0x0A] \<and> one_line line
    \<and> read_json_line (line @ [CHR 0x0A]) = Some r \<and> js_ts r = format_utc (Timestamp m)
    \<and> (\<forall>u. 0 \<le> Timestamp m \<and> 0 \<le> u \<longrightarrow>
          (js_ts r = format_utc u \<longleftrightarrow> Timestamp m div millisecond = u div millisecond))
    \<and> js_metric r = Name m \<and> js_value r = Value m \<and> js_unit r = Unit m \<and> map_of (js_tags r) = map_of (Tags m)"
proof -
  obtain v where v: "Value m = Fin v" using assms(4) by (cases "Value m") (simp_all add: stdout_write_def)
  then have "proper_float (Value m)" using assms(2) by (simp add: proper_float_def)
  then obtain r where "read_json_line (stdout_line (stdout_rec m)) = Some r" "js_ts r = format_utc (Timestamp m)"
      "js_metric r = Name m" "js_value r = Value m" "js_unit r = Unit m"
      "js_tags r = map (\<lambda>k. (k, tag_value (Tags m) k)) (sorted_keys (Tags m))"
    using stdout_json_read [OF assms(1)] by blast
  moreover have "stdout_text (snd (stdout_write m out)) = stdout_text out @ stdout_line (stdout_rec m)"
    by (simp add: stdout_write_def v stdout_text_def)
  moreover have "one_line (emit (stdout_json (stdout_rec m)))" by (rule emit_one_line)
  moreover have "format_utc (Timestamp m) = format_utc u \<longleftrightarrow> Timestamp m div millisecond = u div millisecond"
    if "0 \<le> Timestamp m" "0 \<le> u" for u
  proof -
    obtain y mo d h mi s ms where "civil (Timestamp m) = (y, mo, d, h, mi, s, ms)" by (cases "civil (Timestamp m)")
    from stdout_timestamp_exact [OF that this, of m m] show ?thesis by (simp add: stdout_rec_def)
  qed
  ultimately show ?thesis
    by (intro exI [of _ "emit (stdout_json (stdout_rec m))"] exI [of _ r])
      (simp add: stdout_line_def map_of_sorted)
qed

definition demo_current :: measurement where
  "demo_current = \<lparr>Timestamp = 1, Name = ''i'', Value = f_lit 21 10, Unit = ''A'', Tags = [(''phase'', ''r'')]\<rparr>"

theorem stdout_line_roundtrip_witness:
  "\<exists>line r. read_json_line (line @ [CHR 0x0A]) = Some r \<and> js_value r = f_lit 21 10 \<and>
     map_of (js_tags r) ''phase'' = Some ''r''"
proof -
  have "finite_float (f_lit 21 10)" by (rule small_finite, rule f_lit_small) simp_all
  then have "fst (stdout_write demo_current []) = None"
    by (auto simp: stdout_write_def demo_current_def finite_float_def split: float64.splits)
  moreover have "utf8_texts demo_current"
    by (simp add: utf8_texts_def demo_current_def to_utf8_ascii)
  ultimately obtain line r where "read_json_line (line @ [CHR 0x0A]) = Some r" "js_value r = Value demo_current"
      "map_of (js_tags r) = map_of (Tags demo_current)"
    using stdout_line_roundtrip [of demo_current "[]"] by (auto simp: demo_current_def)
  then have "read_json_line (line @ [CHR 0x0A]) = Some r \<and> js_value r = f_lit 21 10 \<and>
      map_of (js_tags r) ''phase'' = Some ''r''"
    by (simp add: demo_current_def)
  then show ?thesis by blast
qed

end
