(* ===== verification/Sink_Influx.thy ===== *)
theory Sink_Influx
  imports Sink_Exporters
begin

text \<open>
  The goroutine of \<open>internal/sink/influxdb.go\<close> that hands the client library's asynchronous
  write errors to the callback, next to \<open>Write\<close> and \<open>Close\<close>. The library's error channel is
  an input: it may deliver any errors and may be closed.
\<close>

section \<open>The sink and its error pump\<close>

text \<open>
  \<open>ip_errs\<close> are the errors in the channel \<open>w.Errors()\<close>, \<open>ip_raised\<close> logs all the library has put
  there, \<open>ip_reported\<close> those \<open>onWriteError\<close> was called with.
\<close>

record influx_proc =
  ip_sink :: influx_sink
  ip_errs :: "string list"
  ip_errs_closed :: bool
  ip_pumping :: bool
  ip_reported :: "string list"
  ip_raised :: "string list"

text \<open>The pump is only started with a callback.\<close>

definition startInfluxDB :: "influx_config \<Rightarrow> bool \<Rightarrow> influx_error + influx_proc" where
  "startInfluxDB cfg has_callback =
     (case NewInfluxDB cfg of
        Inl e \<Rightarrow> Inl e
      | Inr i \<Rightarrow> Inr \<lparr>ip_sink = i, ip_errs = [], ip_errs_closed = False, ip_pumping = has_callback,
                      ip_reported = [], ip_raised = []\<rparr>)"

text \<open>The cases of the \<open>select\<close>: an error, the closed channel, the closed sink.\<close>

definition pump_error :: "string \<Rightarrow> string list \<Rightarrow> influx_proc \<Rightarrow> influx_proc" where
  "pump_error e q p = p\<lparr>ip_errs := q, ip_reported := ip_reported p @ [e]\<rparr>"

definition pump_stop :: "influx_proc \<Rightarrow> influx_proc" where
  "pump_stop p = p\<lparr>ip_pumping := False\<rparr>"

definition lib_error :: "string \<Rightarrow> influx_proc \<Rightarrow> influx_proc" where
  "lib_error e p = p\<lparr>ip_errs := ip_errs p @ [e], ip_raised := ip_raised p @ [e]\<rparr>"

inductive influx_step :: "influx_proc \<Rightarrow> influx_proc \<Rightarrow> bool" where
  ix_write: "influx_step p (p\<lparr>ip_sink := snd (influx_write m (ip_sink p))\<rparr>)"
| ix_raise: "\<not> ip_errs_closed p \<Longrightarrow> influx_step p (lib_error e p)"
| ix_lib_close: "influx_step p (p\<lparr>ip_errs_closed := True\<rparr>)"
| ix_error: "ip_pumping p \<Longrightarrow> ip_errs p = e # q \<Longrightarrow> influx_step p (pump_error e q p)"
| ix_errs_end: "ip_pumping p \<Longrightarrow> ip_errs p = [] \<Longrightarrow> ip_errs_closed p \<Longrightarrow> influx_step p (pump_stop p)"
| ix_done_end: "ip_pumping p \<Longrightarrow> ix_done (ip_sink p) \<Longrightarrow> influx_step p (pump_stop p)"
| ix_closing: "influx_close b (ip_sink p) = Inr (r, i) \<Longrightarrow> influx_step p (p\<lparr>ip_sink := i\<rparr>)"

definition influx_init :: "influx_proc \<Rightarrow> bool" where
  "influx_init p \<longleftrightarrow> (\<exists>cfg. startInfluxDB cfg True = Inr p)"

definition influx_inv :: "influx_proc \<Rightarrow> bool" where
  "influx_inv p \<longleftrightarrow>
     ip_reported p @ ip_errs p = ip_raised p \<and>
     (\<not> ip_pumping p \<longrightarrow> ix_done (ip_sink p) \<or> ip_errs_closed p \<and> ip_errs p = [])"

lemma influx_write_done [simp]: "ix_done (snd (influx_write m i)) = ix_done i"
  by (simp add: influx_write_def)

lemma influx_step_inv: "influx_step p q \<Longrightarrow> influx_inv p \<Longrightarrow> influx_inv q"
  by (induction rule: influx_step.induct)
    (auto simp: influx_inv_def lib_error_def pump_error_def pump_stop_def influx_close_def split: if_splits)

lemma influx_start_inv: "influx_init p \<Longrightarrow> influx_inv p"
proof -
  assume "influx_init p"
  then obtain cfg where "startInfluxDB cfg True = Inr p" by (auto simp: influx_init_def)
  then show ?thesis by (cases "NewInfluxDB cfg") (auto simp: startInfluxDB_def influx_inv_def)
qed

interpretation influx: step_system influx_init influx_step influx_inv
  by unfold_locales (auto intro: influx_start_inv influx_step_inv)

section \<open>Properties\<close>

text \<open>
  No write error is lost while the sink is open: what the callback was called with, followed
  by what still waits in the channel, is exactly what the client library reported, in this
  order; and the pump only stops once the sink is closed or the channel is closed and empty.
\<close>

theorem influx_errors_reported:
  assumes "reachable influx_init influx_step p"
  shows "ip_reported p @ ip_errs p = ip_raised p
    \<and> (ip_pumping p \<or> ix_done (ip_sink p) \<or> ip_errs_closed p \<and> ip_reported p = ip_raised p)"
  using influx.reachable_invar [OF assms] by (auto simp: influx_inv_def)

definition demo_influx :: influx_config where
  "demo_influx = \<lparr>ix_URL = ''http://db'', ix_Token = [], ix_Org = ''home'', ix_Bucket = ''meter'',
     ix_Measurement = [], ix_BatchSize = 0, ix_FlushInterval = 0\<rparr>"

theorem influx_errors_reported_witness:
  "\<exists>p. startInfluxDB demo_influx True = Inr p \<and>
     ip_reported (pump_error ''timeout'' [] (lib_error ''timeout'' p)) = [''timeout'']"
proof -
  obtain p where p: "startInfluxDB demo_influx True = Inr p" "ip_errs p = []" "ip_pumping p" "\<not> ip_errs_closed p"
    by (auto simp: startInfluxDB_def NewInfluxDB_def demo_influx_def)
  let ?q = "pump_error ''timeout'' [] (lib_error ''timeout'' p)"
  have "reachable influx_init influx_step p"
    using p(1) by (intro reachable.start) (auto simp: influx_init_def)
  then have "reachable influx_init influx_step (lib_error ''timeout'' p)"
    by (rule reachable.next_state) (rule ix_raise [OF p(4)])
  then have "reachable influx_init influx_step ?q"
    by (rule reachable.next_state) (rule ix_error; simp add: lib_error_def p)
  from influx_errors_reported [OF this] p show ?thesis
    by (auto simp: pump_error_def lib_error_def startInfluxDB_def split: sum.splits)
qed

end
