(* ===== verification/Go_Netip.thy ===== *)
theory Go_Netip
  imports Go_Strings
begin

text \<open>
  \<open>net.ParseIP\<close> and \<open>net.IP.To16\<close> of the Go standard library, as far as the source relies
  on them: \<open>netip.ParseAddr\<close> with dotted IPv4, IPv6 with and without \<open>::\<close>, embedded IPv4,
  and the rejection of zones. An address is the list of its bytes.
\<close>

type_synonym ip_addr = "byte list"

section \<open>IPv4\<close>

text \<open>
  \<open>parseIPv4Fields\<close>: the octets read so far, the value and the number of digits of the
  current one. A dot needs a digit before it and something after it.
\<close>

fun v4_fields :: "byte list \<Rightarrow> nat \<Rightarrow> nat \<Rightarrow> string \<Rightarrow> byte list option" where
  "v4_fields fs val len [] = (if length fs < 3 then None else Some (fs @ [of_nat val]))"
| "v4_fields fs val len (c # s) =
     (let n = (of_char c :: nat) in
      if 48 \<le> n \<and> n \<le> 57 then
        (if len = 1 \<and> val = 0 then None
         else if val * 10 + (n - 48) > 255 then None
         else v4_fields fs (val * 10 + (n - 48)) (len + 1) s)
      else if c = CHR ''.'' then
        (if len = 0 \<or> s = [] then None
         else if length fs = 3 then None
         else v4_fields (fs @ [of_nat val]) 0 0 s)
      else None)"

definition v4_mapped :: "byte list \<Rightarrow> ip_addr" where
  "v4_mapped q = replicate 10 0 @ [0xFF, 0xFF] @ q"

section \<open>IPv6\<close>

text \<open>One group: up to four hexadecimal digits, its value, and what follows.\<close>

definition hex_group :: "string \<Rightarrow> (nat \<times> string) option" where
  "hex_group s =
     (let ds = takeWhile (\<lambda>c. hexval c \<noteq> None) s in
      if ds = [] \<or> length ds > 4 then None
      else map_option (\<lambda>v. (v, drop (length ds) s)) (hex_value 0 ds))"

text \<open>
  The loop of \<open>parseIPv6\<close>: at most \<open>n\<close> more groups, the bytes so far, where the ellipsis
  was, and the rest of the text.
\<close>

fun v6_groups :: "nat \<Rightarrow> byte list \<Rightarrow> nat option \<Rightarrow> string \<Rightarrow>
    (byte list \<times> nat option \<times> string) option" where
  "v6_groups 0 bs ell s = Some (bs, ell, s)"
| "v6_groups (Suc n) bs ell s =
     (case hex_group s of
        None \<Rightarrow> None
      | Some (v, r) \<Rightarrow>
          if r \<noteq> [] \<and> hd r = CHR ''.'' then
            (if ell = None \<and> length bs \<noteq> 12 then None
             else if length bs + 4 > 16 then None
             else map_option (\<lambda>q. (bs @ q, ell, [])) (v4_fields [] 0 0 s))
          else
            let bs = bs @ [of_nat (v div 256), of_nat (v mod 256)] in
            if r = [] then Some (bs, ell, [])
            else if hd r \<noteq> CHR '':'' \<or> tl r = [] then None
            else
              let s = tl r in
              if hd s = CHR '':'' then
                (if ell \<noteq> None then None
                 else if tl s = [] then Some (bs, Some (length bs), [])
                 else v6_groups n bs (Some (length bs)) (tl s))
              else v6_groups n bs ell s)"

definition v6_expand :: "byte list \<times> nat option \<times> string \<Rightarrow> ip_addr option" where
  "v6_expand res =
     (case res of (bs, ell, rest) \<Rightarrow>
        if rest \<noteq> [] then None
        else if length bs < 16 then
          map_option (\<lambda>e. take e bs @ replicate (16 - length bs) 0 @ drop e bs) ell
        else if ell \<noteq> None then None
        else Some bs)"

definition parse_ipv6 :: "string \<Rightarrow> ip_addr option" where
  "parse_ipv6 s =
     (if has_prefix s ''::'' then
        (if drop 2 s = [] then Some (replicate 16 0)
         else Option.bind (v6_groups 8 [] (Some 0) (drop 2 s)) v6_expand)
      else Option.bind (v6_groups 8 [] None s) v6_expand)"

text \<open>
  \<open>net.ParseIP\<close>: the first of \<open>.\<close>, \<open>:\<close> and \<open>%\<close> decides; an address with a zone is
  parsed by \<open>netip\<close> and then refused by \<open>net\<close>, so a \<open>%\<close> anywhere is refused.
\<close>

definition parse_ip :: "string \<Rightarrow> ip_addr option" where
  "parse_ip s =
     (if CHR ''%'' \<in> set s then None
      else
        (case find (\<lambda>c. c = CHR ''.'' \<or> c = CHR '':'') s of
           None \<Rightarrow> None
         | Some c \<Rightarrow>
             if c = CHR ''.'' then map_option v4_mapped (v4_fields [] 0 0 s) else parse_ipv6 s))"

definition to16 :: "ip_addr \<Rightarrow> ip_addr option" where
  "to16 ip =
     (if length ip = 4 then Some (v4_mapped ip)
      else if length ip = 16 then Some ip
      else None)"

section \<open>Fully expanded addresses\<close>

text \<open>Pairs of bytes in four digits, separated by colons.\<close>

fun fmt_groups :: "byte list \<Rightarrow> string" where
  "fmt_groups (a # b # c # r) = fmt_byte a @ fmt_byte b @ CHR '':'' # fmt_groups (c # r)"
| "fmt_groups (a # b # r) = fmt_byte a @ fmt_byte b"
| "fmt_groups r = []"

lemma hexval_fmt_byte: "c \<in> set (fmt_byte b) \<Longrightarrow> hexval c \<noteq> None"
  using unat_byte [of b] by (auto simp: fmt_byte_digits)

lemma hexval_punctuation [simp]:
  "hexval (CHR '':'') = None" "hexval (CHR ''.'') = None" "hexval (CHR ''%'') = None"
  by (simp_all add: hexval_def)

lemma hex_value_2bytes:
  "hex_value 0 (fmt_byte a @ fmt_byte b) = Some (256 * unat a + unat b)"
  using unat_byte [of a] unat_byte [of b] by (simp add: fmt_byte_digits)

lemma hex_group_2bytes:
  assumes "r = [] \<or> hexval (hd r) = None"
  shows "hex_group (fmt_byte a @ fmt_byte b @ r) = Some (256 * unat a + unat b, r)"
proof -
  let ?ds = "fmt_byte a @ fmt_byte b"
  have "takeWhile (\<lambda>c. hexval c \<noteq> None) (?ds @ r) = ?ds @ takeWhile (\<lambda>c. hexval c \<noteq> None) r"
    by (rule takeWhile_append2) (auto dest: hexval_fmt_byte)
  also have "takeWhile (\<lambda>c. hexval c \<noteq> None) r = []"
    using assms by (cases r) auto
  finally have "takeWhile (\<lambda>c. hexval c \<noteq> None) (fmt_byte a @ fmt_byte b @ r) = ?ds" by simp
  moreover have "length ?ds = 4" by (simp add: fmt_byte_digits)
  moreover have "?ds \<noteq> []" by (simp add: fmt_byte_digits)
  ultimately show ?thesis
    unfolding hex_group_def by (simp add: hex_value_2bytes Let_def)
qed

lemma byte_div_mod [simp]: "unat (b :: byte) div 256 = 0" "unat (b :: byte) mod 256 = unat b"
  using unat_byte [of b] by simp_all

lemma fmt_groups_hd: "fmt_groups (a # b # r) \<noteq> [] \<and> hd (fmt_groups (a # b # r)) \<noteq> CHR '':''"
proof -
  have "hd (fmt_byte a) \<noteq> CHR '':''"
    using hexval_fmt_byte [of "hd (fmt_byte a)" a] by (auto simp: fmt_byte_digits)
  then show ?thesis by (cases r) (simp_all add: fmt_byte_digits)
qed

lemma v6_groups_fmt:
  "length ip = 2 * n \<Longrightarrow> 0 < n \<Longrightarrow> n \<le> m \<Longrightarrow>
     v6_groups m bs None (fmt_groups ip) = Some (bs @ ip, None, [])"
proof (induction n arbitrary: m bs ip)
  case (Suc n)
  then obtain a b r where ip: "ip = a # b # r" "length r = 2 * n"
    by (auto simp: length_Suc_conv)
  from Suc.prems obtain k where m: "m = Suc k" by (cases m) auto
  show ?case
  proof (cases r)
    case Nil
    then show ?thesis
      using hex_group_2bytes [of "[]" a b] by (simp add: ip m of_nat_unat)
  next
    case (Cons c r')
    with ip obtain d s where r: "r = c # d # s" by (cases r') auto
    have "v6_groups k (bs @ [a, b]) None (fmt_groups r) = Some ((bs @ [a, b]) @ r, None, [])"
      using Suc.prems ip r m by (intro Suc.IH) auto
    then show ?thesis
      using hex_group_2bytes [of "CHR '':'' # fmt_groups r" a b] fmt_groups_hd [of c d s]
      by (simp add: ip m r of_nat_unat)
  qed
qed simp

lemma set_fmt_groups: "c \<in> set (fmt_groups ip) \<Longrightarrow> c = CHR '':'' \<or> hexval c \<noteq> None"
  by (induction ip rule: fmt_groups.induct) (auto dest: hexval_fmt_byte)

lemma parse_ip_fmt:
  assumes "length ip = 16"
  shows "parse_ip (fmt_groups ip) = Some ip"
proof -
  from assms obtain a b c r where ip: "ip = a # b # c # r"
    by (auto simp: numeral_eq_Suc length_Suc_conv)
  have "CHR ''%'' \<notin> set (fmt_groups ip)" and dot: "CHR ''.'' \<notin> set (fmt_groups ip)"
    using set_fmt_groups by fastforce+
  moreover have "CHR '':'' \<in> set (fmt_groups ip)" by (simp add: ip)
  then have "find (\<lambda>c. c = CHR ''.'' \<or> c = CHR '':'') (fmt_groups ip) = Some (CHR '':'')"
  proof (cases "find (\<lambda>c. c = CHR ''.'' \<or> c = CHR '':'') (fmt_groups ip)")
    case None
    with \<open>CHR '':'' \<in> set (fmt_groups ip)\<close> show ?thesis by (auto simp: find_None_iff)
  next
    case (Some x)
    then have "x \<in> set (fmt_groups ip)" "x = CHR ''.'' \<or> x = CHR '':''"
      by (auto simp: find_Some_iff) (metis nth_mem)+
    with Some dot show ?thesis by auto
  qed
  moreover have "\<not> has_prefix (fmt_groups ip) ''::''"
    using fmt_groups_hd [of a b "c # r"] by (cases "fmt_groups ip") (auto simp: ip has_prefix_def)
  moreover have "v6_groups 8 [] None (fmt_groups ip) = Some (ip, None, [])"
    using v6_groups_fmt [of ip 8 8 "[]"] assms by simp
  ultimately show ?thesis
    using assms by (simp add: parse_ip_def parse_ipv6_def v6_expand_def)
qed

lemma ascii_fmt_byte [simp]: "ascii_text (fmt_byte b)"
  by (simp add: fmt_byte_def)

lemma ascii_fmt_groups [simp]: "ascii_text (fmt_groups ip)"
  by (induction ip rule: fmt_groups.induct) simp_all

interpretation ip_text: codec fmt_groups parse_ip "\<lambda>ip. length ip = 16"
  by unfold_locales (rule parse_ip_fmt)

end
