(* ===== verification/Echonet_Frame.thy ===== *)
theory Echonet_Frame
  imports Bp_Prelude
begin

text \<open>
  \<open>internal/echonet/echonet.go\<close>: ECHONET Lite frames. The record \<open>frame\<close> is the
  struct \<open>Frame\<close>, \<open>encode\<close> and \<open>decode\<close> are \<open>Encode\<close> and \<open>Decode\<close>; the property loop
  of \<open>Decode\<close> keeps its offset and its two bounds checks. The lemmas compare the loop with
  a parser that consumes the list from the front, and show that a buffer decodes exactly
  when it starts with the encoding of a well-formed frame.
\<close>

section \<open>Data\<close>

type_synonym eoj = "byte \<times> byte \<times> byte"

record property =
  EPC :: byte
  EDT :: "byte list"

record frame =
  TID :: u16
  SEOJ :: eoj
  DEOJ :: eoj
  ESV :: byte
  Props :: "property list"

datatype decode_error = ErrTooShort | ErrBadEHD byte byte | ErrTruncated | ErrPropOverflow

definition EHD1 :: byte where "EHD1 = 0x10"
definition EHD2 :: byte where "EHD2 = 0x81"
definition udp_port :: nat where "udp_port = 3610"

definition ESVSetI :: byte where "ESVSetI = 0x60"
definition ESVSetC :: byte where "ESVSetC = 0x61"
definition ESVGet :: byte where "ESVGet = 0x62"
definition ESVINFReq :: byte where "ESVINFReq = 0x63"
definition ESVSetGet :: byte where "ESVSetGet = 0x6E"
definition ESVSetRes :: byte where "ESVSetRes = 0x71"
definition ESVGetRes :: byte where "ESVGetRes = 0x72"
definition ESVINF :: byte where "ESVINF = 0x73"
definition ESVINFC :: byte where "ESVINFC = 0x74"
definition ESVINFCRes :: byte where "ESVINFCRes = 0x7A"
definition ESVSetGetRes :: byte where "ESVSetGetRes = 0x7E"
definition ESVSetISNA :: byte where "ESVSetISNA = 0x50"
definition ESVSetCSNA :: byte where "ESVSetCSNA = 0x51"
definition ESVGetSNA :: byte where "ESVGetSNA = 0x52"
definition ESVINFSNA :: byte where "ESVINFSNA = 0x53"
definition ESVSetGetSNA :: byte where "ESVSetGetSNA = 0x5E"

definition is_sna :: "byte \<Rightarrow> bool" where
  "is_sna e \<longleftrightarrow> 0x50 \<le> e \<and> e \<le> 0x5F"

definition EOJSmartMeter :: eoj where "EOJSmartMeter = (0x02, 0x88, 0x01)"
definition EOJController :: eoj where "EOJController = (0x05, 0xFF, 0x01)"

section \<open>Encode\<close>

fun eoj_bytes :: "eoj \<Rightarrow> byte list" where
  "eoj_bytes (a, b, c) = [a, b, c]"

definition encode_prop :: "property \<Rightarrow> byte list" where
  "encode_prop p = EPC p # of_nat (length (EDT p)) # EDT p"

definition encode :: "frame \<Rightarrow> byte list" where
  "encode f =
     [EHD1, EHD2] @ put_be16 (TID f) @ eoj_bytes (SEOJ f) @ eoj_bytes (DEOJ f)
     @ [ESV f, of_nat (length (Props f))] @ concat (map encode_prop (Props f))"

section \<open>Decode\<close>

fun decode_props :: "byte list \<Rightarrow> nat \<Rightarrow> nat \<Rightarrow> decode_error + property list" where
  "decode_props b off 0 = Inr []"
| "decode_props b off (Suc n) =
     (if off + 2 > length b then Inl ErrTruncated
      else
        let epc = b ! off; pdc = unat (b ! (off + 1)); off = off + 2 in
        if off + pdc > length b then Inl ErrPropOverflow
        else
          (case decode_props b (off + pdc) n of
             Inl e \<Rightarrow> Inl e
           | Inr ps \<Rightarrow> Inr (\<lparr>EPC = epc, EDT = take pdc (drop off b)\<rparr> # ps)))"

definition decode :: "byte list \<Rightarrow> decode_error + frame" where
  "decode b =
     (if length b < 12 then Inl ErrTooShort
      else if b ! 0 \<noteq> EHD1 \<or> b ! 1 \<noteq> EHD2 then Inl (ErrBadEHD (b ! 0) (b ! 1))
      else
        (case decode_props b 12 (unat (b ! 11)) of
           Inl e \<Rightarrow> Inl e
         | Inr ps \<Rightarrow>
             Inr \<lparr>TID = be16 (b ! 2) (b ! 3),
                  SEOJ = (b ! 4, b ! 5, b ! 6),
                  DEOJ = (b ! 7, b ! 8, b ! 9),
                  ESV = b ! 10,
                  Props = ps\<rparr>))"

section \<open>Requests\<close>

definition new_get_request :: "u16 \<Rightarrow> eoj \<Rightarrow> byte list \<Rightarrow> frame" where
  "new_get_request tid dest epcs =
     \<lparr>TID = tid, SEOJ = EOJController, DEOJ = dest, ESV = ESVGet,
      Props = map (\<lambda>e. \<lparr>EPC = e, EDT = []\<rparr>) epcs\<rparr>"

definition new_setc_request :: "u16 \<Rightarrow> eoj \<Rightarrow> byte \<Rightarrow> byte list \<Rightarrow> frame" where
  "new_setc_request tid dest epc edt =
     \<lparr>TID = tid, SEOJ = EOJController, DEOJ = dest, ESV = ESVSetC,
      Props = [\<lparr>EPC = epc, EDT = edt\<rparr>]\<rparr>"

section \<open>The property loop against a consuming parser\<close>

fun parse_props :: "nat \<Rightarrow> byte list \<Rightarrow> decode_error + property list" where
  "parse_props 0 b = Inr []"
| "parse_props (Suc n) (epc # pdc # b) =
     (if length b < unat pdc then Inl ErrPropOverflow
      else
        (case parse_props n (drop (unat pdc) b) of
           Inl e \<Rightarrow> Inl e
         | Inr ps \<Rightarrow> Inr (\<lparr>EPC = epc, EDT = take (unat pdc) b\<rparr> # ps)))"
| "parse_props (Suc n) b = Inl ErrTruncated"

lemma decode_props_parse: "off \<le> length b \<Longrightarrow> decode_props b off n = parse_props n (drop off b)"
proof (induction b off n rule: decode_props.induct)
  case (1 b off)
  show ?case by simp
next
  case (2 b off n)
  show ?case
  proof (cases "off + 2 > length b")
    case True
    then have "length (drop off b) < 2" by simp
    then have "drop off b = [] \<or> (\<exists>x. drop off b = [x])"
      by (cases "drop off b"; cases "tl (drop off b)") auto
    with True show ?thesis by auto
  next
    case False
    then have d: "drop off b = b ! off # b ! (off + 1) # drop (off + 2) b"
      using take_drop_nth2 [of off b] by simp
    show ?thesis
    proof (cases "off + 2 + unat (b ! (off + 1)) > length b")
      case True
      with False have "length (drop (off + 2) b) < unat (b ! (off + 1))" by simp
      then have "parse_props (Suc n) (drop off b) = Inl ErrPropOverflow"
        unfolding d by (simp only: parse_props.simps if_True)
      with False True show ?thesis by (simp add: Let_def)
    next
      case fits: False
      with False have "decode_props b (off + 2 + unat (b ! (off + 1))) n =
          parse_props n (drop (off + 2 + unat (b ! (off + 1))) b)"
        by (intro "2.IH") simp_all
      moreover have "\<not> length (drop (off + 2) b) < unat (b ! (off + 1))"
        using fits by simp
      then have "parse_props (Suc n) (drop off b) =
          (case parse_props n (drop (unat (b ! (off + 1))) (drop (off + 2) b)) of
             Inl e \<Rightarrow> Inl e
           | Inr ps \<Rightarrow> Inr (\<lparr>EPC = b ! off,
               EDT = take (unat (b ! (off + 1))) (drop (off + 2) b)\<rparr> # ps))"
        unfolding d by (simp only: parse_props.simps if_False)
      ultimately show ?thesis
        using False fits by (simp add: Let_def add.commute add.left_commute split: sum.split)
    qed
  qed
qed

section \<open>Well-formed frames\<close>

definition wf_prop :: "property \<Rightarrow> bool" where
  "wf_prop p \<longleftrightarrow> length (EDT p) \<le> 255"

definition wf_frame :: "frame \<Rightarrow> bool" where
  "wf_frame f \<longleftrightarrow> length (Props f) \<le> 255 \<and> list_all wf_prop (Props f)"

lemma unat_of_nat_byte: "unat (of_nat n :: byte) = n mod 256"
  by (simp add: unat_of_nat)

lemma parse_props_encode:
  assumes "list_all wf_prop ps" "n \<le> length ps"
  shows "parse_props n (concat (map encode_prop ps) @ r) = Inr (take n ps)"
  using assms
proof (induction ps arbitrary: n)
  case (Cons p ps)
  show ?case
  proof (cases n)
    case (Suc m)
    have len: "unat (of_nat (length (EDT p)) :: byte) = length (EDT p)"
      using Cons.prems by (simp add: wf_prop_def unat_of_nat_byte)
    have "parse_props m (concat (map encode_prop ps) @ r) = Inr (take m ps)"
      using Cons.prems Suc by (intro Cons.IH) simp_all
    with len Suc show ?thesis
      by (simp add: encode_prop_def [of p])
  qed simp
qed simp

lemma parse_props_exact:
  "parse_props n b = Inr ps \<Longrightarrow>
     length ps = n \<and> list_all wf_prop ps \<and> (\<exists>r. b = concat (map encode_prop ps) @ r)"
proof (induction n b arbitrary: ps rule: parse_props.induct)
  case (2 n epc pdc b)
  from "2.prems" obtain qs where fits: "unat pdc \<le> length b"
    and qs: "parse_props n (drop (unat pdc) b) = Inr qs"
    and ps: "ps = \<lparr>EPC = epc, EDT = take (unat pdc) b\<rparr> # qs"
    by (auto split: if_splits sum.splits)
  then obtain r where IH: "length qs = n" "list_all wf_prop qs"
    "drop (unat pdc) b = concat (map encode_prop qs) @ r"
    using "2.IH" [OF _ qs] by auto
  have "b = take (unat pdc) b @ concat (map encode_prop qs) @ r"
    using IH(3) by (metis append_take_drop_id)
  then have "epc # pdc # b = concat (map encode_prop ps) @ r"
    using fits by (simp add: ps encode_prop_def)
  moreover have "wf_prop \<lparr>EPC = epc, EDT = take (unat pdc) b\<rparr>"
    using unat_byte [of pdc] by (simp add: wf_prop_def)
  ultimately show ?case
    using IH ps by auto
qed auto

lemma encode_header:
  "encode f = [EHD1, EHD2, ucast (drop_bit 8 (TID f)), ucast (TID f),
     fst (SEOJ f), fst (snd (SEOJ f)), snd (snd (SEOJ f)),
     fst (DEOJ f), fst (snd (DEOJ f)), snd (snd (DEOJ f)),
     ESV f, of_nat (length (Props f))] @ concat (map encode_prop (Props f))"
  by (cases "SEOJ f"; cases "DEOJ f") (simp add: encode_def put_be16_def)

lemma decode_parse:
  "decode b =
     (if length b < 12 then Inl ErrTooShort
      else if b ! 0 \<noteq> EHD1 \<or> b ! 1 \<noteq> EHD2 then Inl (ErrBadEHD (b ! 0) (b ! 1))
      else
        map_sum id (\<lambda>ps. \<lparr>TID = be16 (b ! 2) (b ! 3), SEOJ = (b ! 4, b ! 5, b ! 6),
            DEOJ = (b ! 7, b ! 8, b ! 9), ESV = b ! 10, Props = ps\<rparr>)
          (parse_props (unat (b ! 11)) (drop 12 b)))"
  by (simp add: decode_def decode_props_parse split: sum.split)

text \<open>
  What \<open>Decode\<close> makes of any encoded frame, also one with more properties than the
  one-byte count can say: \<open>byte(len(f.Props))\<close> wraps, and that many are read back.
\<close>

lemma decode_encode_take:
  assumes "list_all wf_prop (Props f)"
  shows "decode (encode f @ r) = Inr (f\<lparr>Props := take (length (Props f) mod 256) (Props f)\<rparr>)"
proof -
  have "parse_props (length (Props f) mod 256) (concat (map encode_prop (Props f)) @ r)
      = Inr (take (length (Props f) mod 256) (Props f))"
    using assms by (intro parse_props_encode) simp_all
  then show ?thesis
    by (simp add: decode_parse encode_header unat_of_nat_byte)
qed

lemma wf_frame_take: "wf_frame f \<Longrightarrow> f\<lparr>Props := take (length (Props f) mod 256) (Props f)\<rparr> = f"
  by (simp add: wf_frame_def)

lemma decode_exact:
  assumes "decode b = Inr f"
  shows "wf_frame f \<and> (\<exists>r. b = encode f @ r)"
proof -
  have len: "12 \<le> length b" and ehd: "b ! 0 = EHD1" "b ! 1 = EHD2"
    using assms by (auto simp: decode_parse split: if_splits)
  with assms obtain ps where ps: "parse_props (unat (b ! 11)) (drop 12 b) = Inr ps"
    and f: "f = \<lparr>TID = be16 (b ! 2) (b ! 3), SEOJ = (b ! 4, b ! 5, b ! 6),
      DEOJ = (b ! 7, b ! 8, b ! 9), ESV = b ! 10, Props = ps\<rparr>"
    by (cases "parse_props (unat (b ! 11)) (drop 12 b)") (auto simp: decode_parse)
  from parse_props_exact [OF ps] obtain r where
    n: "length ps = unat (b ! 11)" and wf: "list_all wf_prop ps"
    and rest: "drop 12 b = concat (map encode_prop ps) @ r"
    by auto
  have "b = take 12 b @ drop 12 b" by simp
  also have "take 12 b = [b ! 0, b ! 1, b ! 2, b ! 3, b ! 4, b ! 5, b ! 6, b ! 7, b ! 8,
      b ! 9, b ! 10, b ! 11]"
    using len by (intro nth_equalityI) (auto simp: nth_Cons' less_Suc_eq numeral_eq_Suc)
  finally have "b = encode f @ r"
    using ehd rest n by (simp add: f encode_header of_nat_unat)
  moreover have "wf_frame f"
    using wf n unat_byte [of "b ! 11"] by (simp add: f wf_frame_def)
  ultimately show ?thesis by blast
qed

interpretation echonet: prefix_codec encode "\<lambda>b. ok_of (decode b)" wf_frame
proof
  show "ok_of (decode (encode f @ r)) = Some f" if "wf_frame f" for f r
    using that decode_encode_take [of f r] wf_frame_take [of f] by (simp add: wf_frame_def)
  show "wf_frame f \<and> (\<exists>r. b = encode f @ r)" if "ok_of (decode b) = Some f" for b f
    using that decode_exact [of b f] by simp
qed

section \<open>Properties\<close>

text \<open>
  C4: \<open>Decode\<close> is the exact inverse of \<open>Encode\<close> on every byte string: it returns the
  frame \<open>f\<close> if and only if \<open>f\<close> is well-formed (at most 255 properties of at most 255
  bytes) and the bytes are \<open>Encode(f)\<close> followed by anything. So nothing else is accepted,
  and two frames never share an encoding.
\<close>

theorem echonet_decode_iff:
  "decode b = Inr f \<longleftrightarrow> wf_frame f \<and> (\<exists>r. b = encode f @ r)"
  using echonet.dec_Some_iff by simp

lemma parse_props_error: "parse_props n b = Inl e \<Longrightarrow> e = ErrTruncated \<or> e = ErrPropOverflow"
  by (induction n b rule: parse_props.induct) (auto split: if_splits sum.splits)

lemma decode_error_kind:
  assumes "decode b = Inl e" "12 \<le> length b" "b ! 0 = EHD1" "b ! 1 = EHD2"
  shows "e = ErrTruncated \<or> e = ErrPropOverflow"
proof (cases "parse_props (unat (b ! 11)) (drop 12 b)")
  case (Inl e')
  then have "e' = e" using assms by (simp add: decode_parse)
  with Inl show ?thesis by (simp add: parse_props_error)
next
  case (Inr ps)
  with assms show ?thesis by (simp add: decode_parse)
qed

text \<open>
  A truncated frame is rejected, wherever it is cut: no proper prefix of an encoded
  frame decodes, and the error is the one for short data (never a wrong header, never
  a frame with fewer properties).
\<close>

theorem echonet_truncated:
  assumes "wf_frame f" "n < length (encode f)"
  shows "\<exists>e. decode (take n (encode f)) = Inl e
    \<and> (if n < 12 then e = ErrTooShort else e = ErrTruncated \<or> e = ErrPropOverflow)"
proof -
  let ?b = "take n (encode f)"
  obtain e where e: "decode ?b = Inl e"
    using echonet.dec_truncated [OF assms] by (cases "decode ?b") auto
  have "e = ErrTruncated \<or> e = ErrPropOverflow" if "\<not> n < 12"
  proof -
    have "12 \<le> length ?b" "?b ! 0 = EHD1" "?b ! 1 = EHD2"
      using that assms(2) by (simp_all add: encode_header)
    with e show ?thesis by (rule decode_error_kind)
  qed
  moreover have "e = ErrTooShort" if "n < 12"
  proof -
    have "length ?b < 12" using that by simp
    then have "decode ?b = Inl ErrTooShort" unfolding decode_def by (rule if_P)
    with e show ?thesis by simp
  qed
  ultimately show ?thesis using e by auto
qed

definition demo_frame :: frame where
  "demo_frame = new_get_request 0x0102 EOJSmartMeter [0xE7, 0xE8]"

lemma wf_demo_frame: "wf_frame demo_frame"
  by (simp add: wf_frame_def demo_frame_def new_get_request_def wf_prop_def)

theorem echonet_truncated_witness: "\<exists>e. decode (take 14 (encode demo_frame)) = Inl e"
  using echonet_truncated [OF wf_demo_frame, of 14]
  by (auto simp: encode_header encode_prop_def demo_frame_def new_get_request_def)

text \<open>
  The one-byte property count wraps: a frame with any number of properties (each of at
  most 255 bytes) is encoded without an error, and what decodes is its first
  \<open>len(Props) mod 256\<close> properties. So \<open>Encode\<close> is only faithful up to 255 properties.
\<close>

theorem echonet_count_wraps:
  assumes "list_all wf_prop (Props f)"
  shows "decode (encode f @ r) = Inr (f\<lparr>Props := take (length (Props f) mod 256) (Props f)\<rparr>)"
  using assms by (rule decode_encode_take)

theorem echonet_count_wraps_witness:
  "decode (encode (demo_frame\<lparr>Props := replicate 256 \<lparr>EPC = 0xE7, EDT = []\<rparr>\<rparr>) @ []) =
     Inr (demo_frame\<lparr>Props := []\<rparr>)"
  using echonet_count_wraps [of "demo_frame\<lparr>Props := replicate 256 \<lparr>EPC = 0xE7, EDT = []\<rparr>\<rparr>" "[]"]
  by (simp add: wf_prop_def list_all_length)

end
