(* ===== verification/Broute_Addr.thy ===== *)
theory Broute_Addr
  imports Go_Netip Go_Time Sk_Driver Echonet_Frame
begin

text \<open>
  \<open>internal/broute/mac.go\<close> and \<open>internal/broute/udp.go\<close>: the link-local address of a
  meter's MAC address, the \<open>SKSENDTO\<close> command that carries a datagram out and the
  \<open>ERXUDP\<close> event that brings one in.
\<close>

section \<open>Addresses\<close>

datatype mac_error = MacLength string | MacHex string

definition macToLinkLocalIPv6 :: "string \<Rightarrow> mac_error + ip_addr" where
  "macToLinkLocalIPv6 addrHex =
     (let addrHex = trim_space addrHex in
      if length addrHex \<noteq> 16 then Inl (MacLength addrHex)
      else
        (case hex_decode addrHex of
           None \<Rightarrow> Inl (MacHex addrHex)
         | Some mac \<Rightarrow>
             let ip = [0xFE, 0x80, 0, 0, 0, 0, 0, 0] @ mac
             in Inr (ip[8 := (ip ! 8) XOR 0x02])))"

text \<open>
  \<open>formatIPv6Upper\<close> indexes the result of \<open>To16\<close>, so it panics (\<open>None\<close>) for an address
  of another length.
\<close>

definition formatIPv6Upper :: "ip_addr \<Rightarrow> string option" where
  "formatIPv6Upper ip = map_option fmt_groups (to16 ip)"

section \<open>Sending\<close>

datatype send_error =
    EmptyPayload
  | PayloadTooLong nat
  | BadDestination ip_addr
  | SendFailed drv_error

definition byte_char :: "byte \<Rightarrow> char" where
  "byte_char b = char_of (unat b)"

text \<open>
  \<open>sendUDP\<close>: \<open>deadline\<close> says how long the context still runs, if it has a deadline, and
  \<open>cmd\<close> is \<open>CommandBinary\<close> of the driver with a timeout.
\<close>

definition send_timeout :: "duration option \<Rightarrow> duration" where
  "send_timeout deadline = (case deadline of Some t \<Rightarrow> t | None \<Rightarrow> 10 * second)"

definition sendto_header :: "ip_addr \<Rightarrow> nat \<Rightarrow> string" where
  "sendto_header ip len =
     ''SKSENDTO 1 '' @ fmt_groups ip @ '' '' @ fmt_hex 4 udp_port @ '' 1 0 '' @ fmt_hex 4 len @ '' ''"

definition sendUDP ::
  "(duration \<Rightarrow> string \<Rightarrow> string \<Rightarrow> drv_error option) \<Rightarrow> duration option \<Rightarrow> ip_addr \<Rightarrow> byte list
     \<Rightarrow> send_error option" where
  "sendUDP cmd deadline dst payload =
     (if length payload = 0 then Some EmptyPayload
      else if length payload > 1232 then Some (PayloadTooLong (length payload))
      else
        (case to16 dst of
           None \<Rightarrow> Some (BadDestination dst)
         | Some ip \<Rightarrow>
             (case cmd (send_timeout deadline) (sendto_header ip (length payload))
                     (map byte_char payload) of
                None \<Rightarrow> None
              | Some e \<Rightarrow> Some (SendFailed e))))"

section \<open>Receiving\<close>

record incoming =
  SrcIP :: ip_addr
  SrcPort :: u16
  Payload :: "byte list"
  ReceivedAt :: instant

text \<open>\<open>parseHexU16\<close> shifts into 16 bits: it never checks the number of digits.\<close>

fun hex_u16_from :: "u16 \<Rightarrow> string \<Rightarrow> u16 option" where
  "hex_u16_from v [] = Some v"
| "hex_u16_from v (c # s) =
     (case hexval c of
        None \<Rightarrow> None
      | Some d \<Rightarrow> hex_u16_from (push_bit 4 v OR of_nat d) s)"

definition parseHexU16 :: "string \<Rightarrow> u16 option" where
  "parseHexU16 s = hex_u16_from 0 s"

definition parseIncoming :: "instant \<Rightarrow> event \<Rightarrow> incoming option" where
  "parseIncoming now ev =
     (if length (Params ev) < 9 then None
      else
        let sender = Params ev ! 0; sportStr = Params ev ! 2 in
        (case parse_ip sender of
           None \<Rightarrow> None
         | Some ip \<Rightarrow>
             (case parseHexU16 sportStr of
                None \<Rightarrow> None
              | Some sport \<Rightarrow>
                  (case Data ev of
                     None \<Rightarrow> None
                   | Some data \<Rightarrow>
                       Some \<lparr>SrcIP = ip, SrcPort = sport, Payload = data, ReceivedAt = now\<rparr>))))"

section \<open>Lemmas\<close>

text \<open>The shift-and-or of the loop is the value of the digits modulo \<open>2\<^sup>1\<^sup>6\<close>.\<close>

lemma shift_or_digit: "d < 16 \<Longrightarrow> push_bit 4 v OR of_nat d = 16 * v + of_nat d" for v :: u16
proof -
  assume d: "d < 16"
  have high: "\<not> bit d n" if "4 \<le> n" for n
  proof -
    have "d < 2 ^ n" using d power_increasing [of 4 n "2::nat"] that by simp
    then show ?thesis by (simp add: bit_iff_odd)
  qed
  have "push_bit 4 v AND (of_nat d :: u16) = 0"
    by (rule bit_word_eqI) (auto simp: bit_simps high)
  then have "push_bit 4 v OR of_nat d = push_bit 4 v + (of_nat d :: u16)"
    by (simp add: disjunctive_add_eq_or)
  then show ?thesis by (simp add: push_bit_eq_mult)
qed

lemma hex_u16_value:
  "hex_u16_from (of_nat a) s = map_option of_nat (hex_value a s)"
proof (induction a s rule: hex_value.induct)
  case (2 a c s)
  show ?case
  proof (cases "hexval c")
    case (Some d)
    then have "push_bit 4 (of_nat a :: u16) OR of_nat d = of_nat (16 * a + d)"
      using shift_or_digit [of d "of_nat a"] hexval_less [OF Some] by simp
    with Some 2 show ?thesis by simp
  qed simp
qed simp

lemma to16_16 [simp]: "length ip = 16 \<Longrightarrow> to16 ip = Some ip"
  by (simp add: to16_def)

lemma length_to16: "to16 ip = Some ip' \<Longrightarrow> length ip' = 16"
  by (auto simp: to16_def v4_mapped_def split: if_splits)

lemma trim_space_hex [simp]: "trim_space (hex_encode bs) = hex_encode bs"
  by (rule trim_space_text) simp

section \<open>What the module reads\<close>

text \<open>
  \<open>SKSENDTO\<close> as its documentation describes it: seven words, each ended by one space,
  then exactly \<open>datalen\<close> raw bytes (whatever they are), then CR LF.
\<close>

fun split_words :: "nat \<Rightarrow> string \<Rightarrow> (string list \<times> string) option" where
  "split_words 0 s = Some ([], s)"
| "split_words (Suc n) s =
     (case dropWhile (\<lambda>c. c \<noteq> CHR '' '') s of
        [] \<Rightarrow> None
      | _ # r \<Rightarrow>
          map_option (\<lambda>(ws, t). (takeWhile (\<lambda>c. c \<noteq> CHR '' '') s # ws, t)) (split_words n r))"

definition char_byte :: "char \<Rightarrow> byte" where
  "char_byte c = of_char c"

definition parse_sendto :: "string \<Rightarrow> (ip_addr \<times> nat \<times> byte list) option" where
  "parse_sendto s =
     (case split_words 7 s of
        Some ([cmd, handle, addr, port, sec, side, len], rest) \<Rightarrow>
          (case (parse_ip addr, hex_value 0 port, hex_value 0 len) of
             (Some ip, Some p, Some n) \<Rightarrow>
               if cmd = ''SKSENDTO'' \<and> handle = ''1'' \<and> sec = ''1'' \<and> side = ''0''
                 \<and> n \<le> length rest \<and> drop n rest = [CHR 0x0D, CHR 0x0A]
               then Some (ip, p, map char_byte (take n rest)) else None
           | _ \<Rightarrow> None)
      | _ \<Rightarrow> None)"

lemma char_byte_inverse [simp]: "char_byte (byte_char b) = b"
proof -
  have "(of_char (char_of (unat b) :: char) :: byte) = of_nat (of_char (char_of (unat b) :: char))"
    by (simp only: of_nat_of_char)
  also have "(of_char (char_of (unat b) :: char) :: nat) = unat b" by simp
  finally show ?thesis by (simp add: char_byte_def byte_char_def of_nat_unat)
qed

lemma char_byte_comp [simp]: "char_byte \<circ> byte_char = id"
  by (simp add: fun_eq_iff)

lemma map_char_byte_inverse [simp]: "map char_byte (map byte_char bs) = bs"
  by (induction bs) simp_all

lemma split_words_text:
  assumes "ascii_text w"
  shows "split_words (Suc n) (w @ CHR '' '' # s) =
    map_option (\<lambda>(ws, t). (w # ws, t)) (split_words n s)"
proof -
  have no_space: "\<forall>c \<in> set w. c \<noteq> CHR '' ''"
    using assms by (auto simp: ascii_text_def list_all_iff)
  then have "takeWhile (\<lambda>c. c \<noteq> CHR '' '') (w @ CHR '' '' # s) = w"
    "dropWhile (\<lambda>c. c \<noteq> CHR '' '') (w @ CHR '' '' # s) = CHR '' '' # s"
    by (simp_all add: takeWhile_append2 dropWhile_append2)
  then show ?thesis by simp
qed

lemma split_sendto:
  "split_words 7 (sendto_header ip n @ s) =
     Some ([''SKSENDTO'', ''1'', fmt_groups ip, fmt_hex 4 udp_port, ''1'', ''0'', fmt_hex 4 n], s)"
proof -
  have ascii: "ascii_text ''SKSENDTO''" "ascii_text ''1''" "ascii_text ''0''" by code_simp+
  have header: "sendto_header ip n @ s = ''SKSENDTO'' @ CHR '' '' # ''1'' @ CHR '' '' # fmt_groups ip @
      CHR '' '' # fmt_hex 4 udp_port @ CHR '' '' # ''1'' @ CHR '' '' # ''0'' @ CHR '' '' #
      fmt_hex 4 n @ CHR '' '' # s"
    by (simp add: sendto_header_def)
  have seven: "(7 :: nat) = Suc (Suc (Suc (Suc (Suc (Suc (Suc 0))))))" by simp
  show ?thesis
    unfolding header seven
    by (simp only: split_words_text ascii ascii_fmt_groups ascii_fmt_hex split_words.simps(1)
        option.map prod.case)
qed

section \<open>What the module prints\<close>

lemma parseERXUDP_words:
  assumes "list_all (\<lambda>w. ascii_text w \<and> w \<noteq> []) ws" "9 \<le> length ws" "hex_decode (ws ! 8) = Some data"
  shows "parseERXUDP (join_words (''ERXUDP'' # ws)) =
    \<lparr>Kind = ''ERXUDP'', Params = ws, Fields = None, Data = Some data,
     Raw = join_words (''ERXUDP'' # ws)\<rparr>"
proof -
  have "go_fields (join_words ws) = ws"
    using assms(1) by (intro fields_join) (auto simp: list_all_iff)
  moreover have "join_words (''ERXUDP'' # ws) = ''ERXUDP '' @ join_words ws"
    using assms(2) by (cases ws) auto
  ultimately have "go_fields (trim_prefix (join_words (''ERXUDP'' # ws)) ''ERXUDP '') = ws"
    by (simp only: trim_prefix_append)
  then show ?thesis using assms(2,3) by (simp add: parseERXUDP_def Let_def)
qed

lemma parse_hex_port: "parseHexU16 (fmt_hex 4 (unat sport)) = Some sport"
  using hex_u16_value [of 0 "fmt_hex 4 (unat sport)"] by (simp add: parseHexU16_def hex_value_fmt)

lemma fmt_groups_nonempty: "length ip = 16 \<Longrightarrow> fmt_groups ip \<noteq> []"
  using fmt_groups_hd by (cases ip; cases "tl ip") auto

lemma hex_encode_nonempty: "bs \<noteq> [] \<Longrightarrow> hex_encode bs \<noteq> []"
  by (cases bs) (simp_all add: hex_encode_def fmt_byte_digits)

section \<open>Properties\<close>

text \<open>
  The meter's address: a MAC text is accepted exactly when (trimmed) it is the
  hexadecimal form of the eight bytes that the resulting address carries in its low half
  with the universal/local bit flipped, under the prefix \<open>fe80::/64\<close>. So the MAC can be
  read back from the address, and two meters never share an address.
\<close>

theorem link_local_iff:
  "macToLinkLocalIPv6 s = Inr ip \<longleftrightarrow>
     length ip = 16 \<and> take 8 ip = [0xFE, 0x80, 0, 0, 0, 0, 0, 0]
     \<and> hex_decode (trim_space s) = Some ((drop 8 ip)[0 := (ip ! 8) XOR 0x02])"
proof -
  let ?t = "trim_space s"
  have xor: "(x XOR 2) XOR 2 = x" for x :: byte by (simp add: ac_simps)
  show ?thesis
  proof (cases "hex_decode ?t")
    case None
    then show ?thesis by (simp add: macToLinkLocalIPv6_def Let_def)
  next
    case (Some mac)
    then have len: "length ?t = 2 * length mac" by (rule length_hex_decode)
    show ?thesis
    proof (cases "length mac = 8")
      case True
      then obtain m r where mac: "mac = m # r" "length r = 7"
        by (auto simp: numeral_eq_Suc length_Suc_conv)
      have "macToLinkLocalIPv6 s = Inr ip \<longleftrightarrow>
          ip = [0xFE, 0x80, 0, 0, 0, 0, 0, 0] @ (m XOR 0x02) # r"
        using Some len True by (auto simp: macToLinkLocalIPv6_def Let_def mac)
      also have "\<dots> \<longleftrightarrow> length ip = 16 \<and> take 8 ip = [0xFE, 0x80, 0, 0, 0, 0, 0, 0]
          \<and> mac = (drop 8 ip)[0 := (ip ! 8) XOR 0x02]"
      proof
        assume "ip = [0xFE, 0x80, 0, 0, 0, 0, 0, 0] @ (m XOR 0x02) # r"
        then show "length ip = 16 \<and> take 8 ip = [0xFE, 0x80, 0, 0, 0, 0, 0, 0]
          \<and> mac = (drop 8 ip)[0 := (ip ! 8) XOR 0x02]"
          using mac xor by simp
      next
        assume a: "length ip = 16 \<and> take 8 ip = [0xFE, 0x80, 0, 0, 0, 0, 0, 0]
          \<and> mac = (drop 8 ip)[0 := (ip ! 8) XOR 0x02]"
        then have d: "drop 8 ip = ip ! 8 # drop 9 ip"
          using Cons_nth_drop_Suc [of 8 ip] by simp
        with a mac have "m = ip ! 8 XOR 2" "r = drop 9 ip" by simp_all
        then have "drop 8 ip = (m XOR 2) # r" using d xor by simp
        with a show "ip = [0xFE, 0x80, 0, 0, 0, 0, 0, 0] @ (m XOR 0x02) # r"
          by (metis append_take_drop_id)
      qed
      finally show ?thesis using Some by simp
    next
      case False
      with len Some show ?thesis
        by (auto simp: macToLinkLocalIPv6_def Let_def dest!: arg_cong [of _ _ length])
    qed
  qed
qed

text \<open>
  C24: A datagram keeps its framing on the serial line: for a payload of 1 to 1,232 bytes
  (any bytes, also CR, LF and spaces) and an IPv6 or IPv4 destination, \<open>sendUDP\<close> makes one
  \<open>CommandBinary\<close> call, and what the driver writes for it is read back by the module as
  the same address, port 3610 and payload.
\<close>

theorem sendUDP_framing:
  assumes "payload \<noteq> []" "length payload \<le> 1232" "to16 dst = Some ip"
  shows "\<exists>header.
    sendUDP cmd deadline dst payload =
      map_option SendFailed (cmd (send_timeout deadline) header (map byte_char payload))
    \<and> parse_sendto (header @ map byte_char payload @ [CHR 0x0D, CHR 0x0A]) =
        Some (ip, 3610, payload)"
proof (intro exI conjI)
  let ?h = "sendto_header ip (length payload)"
  show "sendUDP cmd deadline dst payload =
      map_option SendFailed (cmd (send_timeout deadline) ?h (map byte_char payload))"
    using assms by (simp add: sendUDP_def split: option.split)
  have "length ip = 16" using assms(3) by (rule length_to16)
  then show "parse_sendto (?h @ map byte_char payload @ [CHR 0x0D, CHR 0x0A]) =
      Some (ip, 3610, payload)"
    by (simp add: parse_sendto_def split_sendto parse_ip_fmt hex_value_fmt udp_port_def)
qed

theorem sendUDP_framing_witness:
  "\<exists>header. parse_sendto (header @ map byte_char [0x10, 0x0D] @ [CHR 0x0D, CHR 0x0A]) =
     Some (v4_mapped [192, 168, 0, 1], 3610, [0x10, 0x0D])"
  using sendUDP_framing [of "[0x10, 0x0D]" "[192, 168, 0, 1]" "v4_mapped [192, 168, 0, 1]"
      "\<lambda>_ _ _. None" None]
  by (auto simp: to16_def)

text \<open>
  A datagram is received as it was sent: from the line the module prints in hex mode
  (sender address and port, seven other words, the payload in hexadecimal),
  \<open>parseERXUDP\<close> followed by \<open>parseIncoming\<close> recovers the address, the port and every
  byte of the payload.
\<close>

theorem incoming_roundtrip:
  assumes "length ip = 16" "payload \<noteq> []" "length ws = 5"
    and "list_all (\<lambda>w. ascii_text w \<and> w \<noteq> []) (dst # ws)"
  shows "parseIncoming now (parseERXUDP (join_words
      (''ERXUDP'' # fmt_groups ip # dst # fmt_hex 4 (unat sport) # ws @ [hex_encode payload])))
    = Some \<lparr>SrcIP = ip, SrcPort = sport, Payload = payload, ReceivedAt = now\<rparr>"
proof -
  let ?args = "fmt_groups ip # dst # fmt_hex 4 (unat sport) # ws @ [hex_encode payload]"
  have words: "list_all (\<lambda>w. ascii_text w \<and> w \<noteq> []) ?args"
    using assms(1,2,4) by (simp add: fmt_groups_nonempty hex_encode_nonempty)
  have last: "?args ! 8 = hex_encode payload" "length ?args = 9"
    using assms(3) by (simp_all add: nth_append)
  have "parseERXUDP (join_words (''ERXUDP'' # ?args)) =
      \<lparr>Kind = ''ERXUDP'', Params = ?args, Fields = None, Data = Some payload,
       Raw = join_words (''ERXUDP'' # ?args)\<rparr>"
    using words last by (intro parseERXUDP_words) (simp_all add: hex_decode_encode)
  then show ?thesis
    using assms(1,3) by (simp only:) (simp add: parseIncoming_def parse_ip_fmt parse_hex_port)
qed

theorem incoming_roundtrip_witness:
  "parseIncoming 7 (parseERXUDP (join_words (''ERXUDP'' # fmt_groups (replicate 16 1) # ''FE80'' #
      fmt_hex 4 (unat (3610 :: u16)) # [''0E1A'', ''A'', ''1'', ''0'', ''2''] @ [hex_encode [16, 129]]))) =
    Some \<lparr>SrcIP = replicate 16 1, SrcPort = 3610, Payload = [16, 129], ReceivedAt = 7\<rparr>"
  by (rule incoming_roundtrip) (simp_all add: ascii_text_def)

end
