(* ===== verification/Broute_Connect.thy ===== *)
theory Broute_Connect
  imports Broute_Addr
begin

text \<open>
  \<open>internal/broute/connect.go\<close> and \<open>state.go\<close>: the join sequence. What the module does is
  the \<open>dongle\<close>: how it answers each command, which events reach the scan before its
  budget ends, and which event decides the join. \<open>conn\<close> logs the commands with their
  timeouts and the states the manager enters.
\<close>

section \<open>States and configuration\<close>

datatype State =
    StateDisconnected | StateInitializing | StateScanning | StateJoining
  | StateConnected | StateReconnecting

fun state_string :: "State \<Rightarrow> string" where
  "state_string StateDisconnected = ''disconnected''"
| "state_string StateInitializing = ''initializing''"
| "state_string StateScanning = ''scanning''"
| "state_string StateJoining = ''joining''"
| "state_string StateConnected = ''connected''"
| "state_string StateReconnecting = ''reconnecting''"

text \<open>The numbers \<open>iota\<close> gives the states; they are the values of the metrics gauge.\<close>

fun state_code :: "State \<Rightarrow> nat" where
  "state_code StateDisconnected = 0"
| "state_code StateInitializing = 1"
| "state_code StateScanning = 2"
| "state_code StateJoining = 3"
| "state_code StateConnected = 4"
| "state_code StateReconnecting = 5"

lemma state_code_inject [simp]: "state_code s = state_code t \<longleftrightarrow> s = t"
  by (cases s; cases t) simp_all

instantiation State :: linorder
begin

definition less_eq_State :: "State \<Rightarrow> State \<Rightarrow> bool" where
  "less_eq_State s t \<longleftrightarrow> state_code s \<le> state_code t"

definition less_State :: "State \<Rightarrow> State \<Rightarrow> bool" where
  "less_State s t \<longleftrightarrow> state_code s < state_code t"

instance
proof
  fix x y z :: State
  show "(x < y) = (x \<le> y \<and> \<not> y \<le> x)"
    by (simp only: less_eq_State_def less_State_def less_le_not_le)
  show "x \<le> x" by (simp add: less_eq_State_def)
  show "x \<le> z" if "x \<le> y" "y \<le> z" using that by (simp add: less_eq_State_def)
  show "x = y" if "x \<le> y" "y \<le> x" using that by (simp add: less_eq_State_def)
  show "x \<le> y \<or> y \<le> x" by (simp only: less_eq_State_def nat_le_linear)
qed

end

text \<open>\<open>broute.Config\<close>; a \<open>time.Duration\<close> is a signed 64-bit number of nanoseconds.\<close>

type_synonym Duration = i64

record broute_config =
  BRouteID :: string
  BRoutePassword :: string
  ScanDuration :: byte
  ChannelMask :: u32
  JoinTimeout :: Duration
  CommandTimeout :: Duration
  InitialBackoff :: Duration
  MaxBackoff :: Duration

definition go_ms :: "nat \<Rightarrow> Duration" where "go_ms n = of_nat n * 1000000"
definition go_s :: "nat \<Rightarrow> Duration" where "go_s n = of_nat n * 1000000000"

section \<open>Scan results\<close>

record epan_descriptor =
  Channel :: byte
  PANID :: u16
  Addr :: string
  LQI :: byte
  PairID :: string

datatype epan_error = NoFields | BadChannel string | BadPan string | AddrLength string | AddrHex string

definition epan_get :: "(string \<rightharpoonup> string) \<Rightarrow> string \<Rightarrow> string" where
  "epan_get m k = trim_space (case m k of None \<Rightarrow> [] | Some v \<Rightarrow> v)"

definition parseEPANDESC :: "event \<Rightarrow> epan_error + epan_descriptor" where
  "parseEPANDESC ev =
     (case Fields ev of
        None \<Rightarrow> Inl NoFields
      | Some m \<Rightarrow>
          (case parse_uint_hex 8 (epan_get m ''Channel'') of
             None \<Rightarrow> Inl (BadChannel (epan_get m ''Channel''))
           | Some ch \<Rightarrow>
               (case parse_uint_hex 16 (epan_get m ''Pan ID'') of
                  None \<Rightarrow> Inl (BadPan (epan_get m ''Pan ID''))
                | Some pan \<Rightarrow>
                    let addr = epan_get m ''Addr'' in
                    if length addr \<noteq> 16 then Inl (AddrLength addr)
                    else if hex_decode addr = None then Inl (AddrHex addr)
                    else
                      let s = epan_get m ''LQI'';
                          lqi = (if s \<noteq> [] then
                                   (case parse_uint_hex 8 s of Some v \<Rightarrow> v | None \<Rightarrow> 0)
                                 else 0)
                      in Inr \<lparr>Channel = of_nat ch, PANID = of_nat pan, Addr = addr,
                              LQI = of_nat lqi, PairID = epan_get m ''PairID''\<rparr>)))"

section \<open>The scan\<close>

datatype scan_error = ScanCommand drv_error | NoMeterResponded | ScanTimedOut

text \<open>
  The loop of \<open>activeScan\<close> over the events that arrive on the scan channel; the end of
  the list is the end of the budget.
\<close>

definition is_event :: "string \<Rightarrow> event \<Rightarrow> bool" where
  "is_event code ev \<longleftrightarrow> Kind ev = ''EVENT'' \<and> 1 \<le> length (Params ev) \<and> Params ev ! 0 = code"

fun scan_loop :: "epan_descriptor option \<Rightarrow> event list \<Rightarrow> scan_error + epan_descriptor" where
  "scan_loop found [] = (case found of Some d \<Rightarrow> Inr d | None \<Rightarrow> Inl ScanTimedOut)"
| "scan_loop found (ev # evs) =
     (if Kind ev = ''EPANDESC'' then
        (case parseEPANDESC ev of
           Inl e \<Rightarrow> scan_loop found evs
         | Inr desc \<Rightarrow>
             (case found of
                None \<Rightarrow> scan_loop (Some desc) evs
              | Some f \<Rightarrow> scan_loop (Some (if LQI desc > LQI f then desc else f)) evs))
      else if is_event ''22'' ev then
        (case found of Some d \<Rightarrow> Inr d | None \<Rightarrow> Inl NoMeterResponded)
      else scan_loop found evs)"

definition popcount32 :: "u32 \<Rightarrow> nat" where
  "popcount32 v = length (filter (bit v) [0 ..< 32])"

text \<open>The time the scan may take, in wrapping 64-bit arithmetic; \<open>1 << n\<close> is 0 from 64 on.\<close>

definition scanBudget :: "u32 \<Rightarrow> byte \<Rightarrow> Duration" where
  "scanBudget chans dur =
     (let channels = popcount32 chans;
          channels = (if channels = 0 then 32 else channels);
          scanBudget = of_nat channels * (10 * go_ms 1) * push_bit (unat dur) 1;
          scanBudget = (if scanBudget <s go_s 10 then go_s 10 else scanBudget)
      in scanBudget + go_s 5)"

section \<open>The join sequence\<close>

datatype connect_error =
    SimpleFailed string drv_error
  | ScanFailed scan_error
  | MacFailed mac_error
  | JoinCommand drv_error
  | AuthFailed string
  | JoinTimedOut
  | IndexPanic

record session =
  MeterIP :: ip_addr
  SessPANID :: u16
  SessChannel :: byte
  MeterMAC :: string

text \<open>
  \<open>reply\<close> is what \<open>drv.Command\<close> returns for a command after the given commands;
  \<open>join_event\<close> is the first event on the join channel, if one comes in time.
\<close>

record dongle =
  reply :: "string list \<Rightarrow> string \<Rightarrow> drv_error option"
  scan_events :: "event list"
  join_event :: "event option"

record conn =
  sent :: "(string \<times> Duration) list"
  entered :: "State list"

type_synonym 'a connecting = "conn \<Rightarrow> (connect_error + 'a) \<times> conn"

definition bind_c :: "'a connecting \<Rightarrow> ('a \<Rightarrow> 'b connecting) \<Rightarrow> 'b connecting" where
  "bind_c m f c = (case m c of (Inl e, c) \<Rightarrow> (Inl e, c) | (Inr x, c) \<Rightarrow> f x c)"

definition enter_state :: "State \<Rightarrow> unit connecting" where
  "enter_state s c = (Inr (), c\<lparr>entered := entered c @ [s]\<rparr>)"

definition drv_command :: "dongle \<Rightarrow> string \<Rightarrow> Duration \<Rightarrow> conn \<Rightarrow> drv_error option \<times> conn" where
  "drv_command dg line timeout c =
     (reply dg (map fst (sent c)) line, c\<lparr>sent := sent c @ [(line, timeout)]\<rparr>)"

definition simple :: "dongle \<Rightarrow> string \<Rightarrow> string \<Rightarrow> Duration \<Rightarrow> unit connecting" where
  "simple dg label line timeout c =
     (case drv_command dg line timeout c of
        (None, c) \<Rightarrow> (Inr (), c)
      | (Some e, c) \<Rightarrow> (Inl (SimpleFailed label e), c))"

text \<open>A command whose failure is only logged.\<close>

definition best_effort :: "dongle \<Rightarrow> string \<Rightarrow> unit connecting" where
  "best_effort dg line c = (Inr (), snd (drv_command dg line (go_ms 500) c))"

definition password_line :: "broute_config \<Rightarrow> string" where
  "password_line cfg = ''SKSETPWD C '' @ BRoutePassword cfg"

definition id_line :: "broute_config \<Rightarrow> string" where
  "id_line cfg = ''SKSETRBID '' @ BRouteID cfg"

definition scan_line :: "broute_config \<Rightarrow> string" where
  "scan_line cfg =
     ''SKSCAN 2 '' @ fmt_hex 8 (unat (ChannelMask cfg)) @ '' '' @ dec_str (unat (ScanDuration cfg)) @ '' 0''"

definition activeScan :: "broute_config \<Rightarrow> dongle \<Rightarrow> epan_descriptor connecting" where
  "activeScan cfg dg c =
     (case drv_command dg (scan_line cfg) (CommandTimeout cfg) c of
        (Some e, c) \<Rightarrow> (Inl (ScanFailed (ScanCommand e)), c)
      | (None, c) \<Rightarrow> (map_sum ScanFailed id (scan_loop None (scan_events dg)), c))"

definition join_line :: "ip_addr \<Rightarrow> string" where
  "join_line ip = ''SKJOIN '' @ (case formatIPv6Upper ip of Some s \<Rightarrow> s | None \<Rightarrow> [])"

definition join_outcome :: "event option \<Rightarrow> connect_error + unit" where
  "join_outcome je =
     (case je of
        None \<Rightarrow> Inl JoinTimedOut
      | Some ev \<Rightarrow>
          if 1 \<le> length (Params ev) \<and> Params ev ! 0 = ''25'' then Inr ()
          else if Params ev = [] then Inl IndexPanic
          else Inl (AuthFailed (Params ev ! 0)))"

definition doJoin :: "broute_config \<Rightarrow> dongle \<Rightarrow> ip_addr \<Rightarrow> unit connecting" where
  "doJoin cfg dg ip c =
     (if formatIPv6Upper ip = None then (Inl IndexPanic, c)
      else
        (case drv_command dg (join_line ip) (CommandTimeout cfg) c of
           (Some e, c) \<Rightarrow> (Inl (JoinCommand e), c)
         | (None, c) \<Rightarrow> (join_outcome (join_event dg), c)))"

definition mac_address :: "epan_descriptor \<Rightarrow> ip_addr connecting" where
  "mac_address d c = (map_sum MacFailed id (macToLinkLocalIPv6 (Addr d)), c)"

definition set_channel_line :: "epan_descriptor \<Rightarrow> string" where
  "set_channel_line d = ''SKSREG S2 '' @ fmt_hex 2 (unat (Channel d))"

definition set_pan_line :: "epan_descriptor \<Rightarrow> string" where
  "set_pan_line d = ''SKSREG S3 '' @ fmt_hex 4 (unat (PANID d))"

definition connectOnce :: "broute_config \<Rightarrow> dongle \<Rightarrow> session connecting" where
  "connectOnce cfg dg =
     bind_c (enter_state StateInitializing) (\<lambda>_.
     bind_c (simple dg ''SKRESET'' ''SKRESET'' (go_s 5)) (\<lambda>_.
     bind_c (best_effort dg ''WOPT 01'') (\<lambda>_.
     bind_c (best_effort dg ''ROPT 01'') (\<lambda>_.
     bind_c (simple dg ''SKSETPWD'' (password_line cfg) (CommandTimeout cfg)) (\<lambda>_.
     bind_c (simple dg ''SKSETRBID'' (id_line cfg) (CommandTimeout cfg)) (\<lambda>_.
     bind_c (enter_state StateScanning) (\<lambda>_.
     bind_c (activeScan cfg dg) (\<lambda>desc.
     bind_c (simple dg ''SKSREG S2'' (set_channel_line desc) (CommandTimeout cfg)) (\<lambda>_.
     bind_c (simple dg ''SKSREG S3'' (set_pan_line desc) (CommandTimeout cfg)) (\<lambda>_.
     bind_c (mac_address desc) (\<lambda>ipv6.
     bind_c (enter_state StateJoining) (\<lambda>_.
     bind_c (doJoin cfg dg ipv6) (\<lambda>_ c.
       (Inr \<lparr>MeterIP = ipv6, SessPANID = PANID desc, SessChannel = Channel desc,
             MeterMAC = Addr desc\<rparr>, c))))))))))))))"

section \<open>The plan of a connection\<close>

definition login_plan :: "broute_config \<Rightarrow> (string \<times> Duration) list" where
  "login_plan cfg =
     [(''SKRESET'', go_s 5), (''WOPT 01'', go_ms 500), (''ROPT 01'', go_ms 500),
      (password_line cfg, CommandTimeout cfg),
      (id_line cfg, CommandTimeout cfg),
      (scan_line cfg, CommandTimeout cfg)]"

definition register_plan :: "broute_config \<Rightarrow> epan_descriptor \<Rightarrow> (string \<times> Duration) list" where
  "register_plan cfg d =
     [(set_channel_line d, CommandTimeout cfg), (set_pan_line d, CommandTimeout cfg)]"

definition join_plan :: "broute_config \<Rightarrow> epan_descriptor \<Rightarrow> ip_addr \<Rightarrow> (string \<times> Duration) list" where
  "join_plan cfg d ip = login_plan cfg @ register_plan cfg d @ [(join_line ip, CommandTimeout cfg)]"

text \<open>Every command of the plan is answered with \<open>OK\<close>, but the two that may go unanswered.\<close>

fun answered_ok :: "dongle \<Rightarrow> string list \<Rightarrow> (string \<times> Duration) list \<Rightarrow> bool" where
  "answered_ok dg h [] = True"
| "answered_ok dg h ((l, t) # ps) =
     ((l = ''WOPT 01'' \<or> l = ''ROPT 01'' \<or> reply dg h l = None) \<and> answered_ok dg (h @ [l]) ps)"

section \<open>Parsed descriptors have an address\<close>

lemma hexval_text: "hexval c = Some d \<Longrightarrow> 32 < (of_char c :: nat) \<and> (of_char c :: nat) < 128"
  by (auto simp: hexval_def Let_def split: if_splits)

lemma hex_decode_text: "hex_decode s = Some bs \<Longrightarrow> ascii_text s"
  by (induction s arbitrary: bs rule: hex_decode.induct) (auto split: option.splits dest: hexval_text)

lemma parseEPANDESC_Inr:
  assumes "parseEPANDESC ev = Inr d"
  shows "length (Addr d) = 16 \<and> hex_decode (Addr d) \<noteq> None"
  using assms by (auto simp: parseEPANDESC_def Let_def split: option.splits if_splits)

definition linkable :: "epan_descriptor \<Rightarrow> bool" where
  "linkable d \<longleftrightarrow> (\<exists>ip. macToLinkLocalIPv6 (Addr d) = Inr ip)"

lemma parseEPANDESC_linkable: "parseEPANDESC ev = Inr d \<Longrightarrow> linkable d"
proof -
  assume "parseEPANDESC ev = Inr d"
  then obtain bs where "length (Addr d) = 16" "hex_decode (Addr d) = Some bs"
    using parseEPANDESC_Inr by blast
  moreover from this have "trim_space (Addr d) = Addr d"
    by (intro trim_space_text hex_decode_text)
  ultimately show ?thesis by (simp add: linkable_def macToLinkLocalIPv6_def Let_def)
qed

section \<open>The best beacon\<close>

text \<open>The descriptors that arrive before \<open>EVENT 22\<close>, and whether it arrives.\<close>

fun beacons :: "event list \<Rightarrow> epan_descriptor list" where
  "beacons [] = []"
| "beacons (ev # evs) =
     (if Kind ev = ''EPANDESC'' then
        (case parseEPANDESC ev of Inl e \<Rightarrow> beacons evs | Inr d \<Rightarrow> d # beacons evs)
      else if is_event ''22'' ev then []
      else beacons evs)"

definition scan_completed :: "event list \<Rightarrow> bool" where
  "scan_completed evs \<longleftrightarrow> list_ex (is_event ''22'') evs"

text \<open>The first of the descriptors with the greatest link quality.\<close>

definition first_best :: "epan_descriptor list \<Rightarrow> epan_descriptor option" where
  "first_best ds = find (\<lambda>d. list_all (\<lambda>x. LQI x \<le> LQI d) ds) ds"

definition better :: "epan_descriptor \<Rightarrow> epan_descriptor \<Rightarrow> epan_descriptor" where
  "better f d = (if LQI d > LQI f then d else f)"

lemma first_best_Cons2: "first_best (f # d # ds) = first_best (better f d # ds)"
proof -
  have best: "(\<lambda>x. LQI f \<le> LQI x \<and> LQI d \<le> LQI x \<and> list_all (\<lambda>y. LQI y \<le> LQI x) ds) =
      (\<lambda>x. LQI (better f d) \<le> LQI x \<and> list_all (\<lambda>y. LQI y \<le> LQI x) ds)"
    by (auto simp: better_def fun_eq_iff)
  show ?thesis
    unfolding first_best_def by (simp add: best) (auto simp: better_def intro: order_trans)
qed

lemma is_event_kind: "is_event code ev \<Longrightarrow> Kind ev = ''EVENT''"
  by (simp add: is_event_def)

lemma scan_loop_best:
  "scan_loop (Some f) evs = Inr (the (first_best (f # beacons evs)))"
proof (induction evs arbitrary: f)
  case Nil
  then show ?case by (simp add: first_best_def)
next
  case (Cons ev evs)
  have one: "first_best [f] = Some f" by (simp add: first_best_def)
  show ?case
    using Cons one
    by (auto simp: first_best_Cons2 better_def split: sum.split)
qed

lemma scan_loop_first_best:
  "scan_loop None evs =
     (case first_best (beacons evs) of
        Some d \<Rightarrow> Inr d
      | None \<Rightarrow> Inl (if scan_completed evs then NoMeterResponded else ScanTimedOut))"
proof (induction evs)
  case Nil
  then show ?case by (simp add: first_best_def scan_completed_def)
next
  case (Cons ev evs)
  have some: "\<exists>b. first_best (d # ds) = Some b" for d ds
  proof (induction ds arbitrary: d)
    case (Cons x xs)
    then show ?case by (simp add: first_best_Cons2)
  qed (simp add: first_best_def)
  show ?case
    using Cons some is_event_kind
    by (auto simp: scan_loop_best scan_completed_def first_best_def [of "[]"] split: sum.split)
      (metis option.case(2) option.sel)+
qed

lemma scan_loop_linkable:
  assumes "scan_loop None evs = Inr d"
  shows "linkable d"
proof -
  have "\<forall>d \<in> set (beacons evs). linkable d"
    by (induction evs) (auto split: sum.splits intro: parseEPANDESC_linkable)
  moreover have "d \<in> set (beacons evs)"
    using assms by (auto simp: scan_loop_first_best first_best_def find_Some_iff split: option.splits)
  ultimately show ?thesis by blast
qed

section \<open>Success and failure of the sequence\<close>

lemma bind_c_Inr:
  "bind_c m f c = (Inr y, c') \<longleftrightarrow> (\<exists>x c1. m c = (Inr x, c1) \<and> f x c1 = (Inr y, c'))"
  by (auto simp: bind_c_def split: prod.splits sum.splits)

lemma simple_Inr:
  "simple dg label line t c = (Inr u, c') \<longleftrightarrow>
     reply dg (map fst (sent c)) line = None \<and> c' = c\<lparr>sent := sent c @ [(line, t)]\<rparr>"
  by (auto simp: simple_def drv_command_def split: option.splits)

lemma best_effort_Inr:
  "best_effort dg line c = (Inr u, c') \<longleftrightarrow> c' = c\<lparr>sent := sent c @ [(line, go_ms 500)]\<rparr>"
  by (auto simp: best_effort_def drv_command_def)

lemma enter_state_Inr:
  "enter_state s c = (Inr u, c') \<longleftrightarrow> c' = c\<lparr>entered := entered c @ [s]\<rparr>"
  by (auto simp: enter_state_def)

lemma activeScan_Inr:
  "activeScan cfg dg c = (Inr d, c') \<longleftrightarrow>
     reply dg (map fst (sent c)) (scan_line cfg) = None \<and> scan_loop None (scan_events dg) = Inr d
     \<and> c' = c\<lparr>sent := sent c @ [(scan_line cfg, CommandTimeout cfg)]\<rparr>"
  by (cases "scan_loop None (scan_events dg)")
    (auto simp: activeScan_def drv_command_def split: option.splits)

lemma mac_address_Inr:
  "mac_address d c = (Inr ip, c') \<longleftrightarrow> macToLinkLocalIPv6 (Addr d) = Inr ip \<and> c' = c"
  by (cases "macToLinkLocalIPv6 (Addr d)") (auto simp: mac_address_def)

definition joined :: "event option \<Rightarrow> bool" where
  "joined je = (case je of None \<Rightarrow> False | Some ev \<Rightarrow> (\<exists>ps. Params ev = ''25'' # ps))"

lemma join_outcome_Inr: "join_outcome je = Inr u \<longleftrightarrow> joined je"
  by (auto simp: join_outcome_def joined_def neq_Nil_conv split: option.splits list.splits)

lemma doJoin_Inr:
  "doJoin cfg dg ip c = (Inr u, c') \<longleftrightarrow>
     formatIPv6Upper ip \<noteq> None \<and> reply dg (map fst (sent c)) (join_line ip) = None
     \<and> joined (join_event dg) \<and> c' = c\<lparr>sent := sent c @ [(join_line ip, CommandTimeout cfg)]\<rparr>"
  by (auto simp: doJoin_def drv_command_def join_outcome_Inr split: option.splits)

lemmas sequence_Inr = bind_c_Inr simple_Inr best_effort_Inr enter_state_Inr activeScan_Inr
  mac_address_Inr doJoin_Inr

lemma link_local_formats: "macToLinkLocalIPv6 s = Inr ip \<Longrightarrow> formatIPv6Upper ip \<noteq> None"
  using length_hex_decode [of "trim_space s"]
  by (auto simp: macToLinkLocalIPv6_def formatIPv6Upper_def to16_def Let_def
      split: if_splits option.splits)

definition not_optional :: "string \<Rightarrow> bool" where
  "not_optional l \<longleftrightarrow> l \<noteq> ''WOPT 01'' \<and> l \<noteq> ''ROPT 01''"

lemma answered_ok_mandatory:
  "not_optional l \<Longrightarrow>
     answered_ok dg h ((l, t) # ps) \<longleftrightarrow> reply dg h l = None \<and> answered_ok dg (h @ [l]) ps"
  by (simp add: not_optional_def)

lemma answered_ok_optional:
  "answered_ok dg h ((''WOPT 01'', t) # ps) = answered_ok dg (h @ [''WOPT 01'']) ps"
  "answered_ok dg h ((''ROPT 01'', t) # ps) = answered_ok dg (h @ [''ROPT 01'']) ps"
  by simp_all

lemma mandatory_lines:
  "not_optional ''SKRESET''" "not_optional (password_line cfg)" "not_optional (id_line cfg)"
  "not_optional (scan_line cfg)" "not_optional (set_channel_line d)" "not_optional (set_pan_line d)"
  "not_optional (join_line ip)"
  by (simp_all add: not_optional_def password_line_def id_line_def scan_line_def
      set_channel_line_def set_pan_line_def join_line_def)

text \<open>
  C9: What it takes to connect: \<open>connectOnce\<close> returns a session if and only if every
  command but \<open>WOPT 01\<close> and \<open>ROPT 01\<close> is answered \<open>OK\<close>, the scan finds a meter and the
  join ends with \<open>EVENT 25\<close>; then it has sent exactly the plan (reset, the two options,
  password, ID, scan, channel, PAN ID and join, in this order, each with its timeout), has
  gone through the states initializing, scanning and joining, and the session is the
  scanned meter's.
\<close>

theorem connectOnce_success_iff:
  "connectOnce cfg dg c = (Inr s, c') \<longleftrightarrow>
     (\<exists>d ip. scan_loop None (scan_events dg) = Inr d \<and> macToLinkLocalIPv6 (Addr d) = Inr ip
       \<and> answered_ok dg (map fst (sent c)) (join_plan cfg d ip) \<and> joined (join_event dg)
       \<and> s = \<lparr>MeterIP = ip, SessPANID = PANID d, SessChannel = Channel d, MeterMAC = Addr d\<rparr>
       \<and> c' = c\<lparr>sent := sent c @ join_plan cfg d ip,
                entered := entered c @ [StateInitializing, StateScanning, StateJoining]\<rparr>)"
proof -
  have answered: "answered_ok dg h (join_plan cfg d ip) \<longleftrightarrow>
      reply dg h ''SKRESET'' = None
      \<and> reply dg (h @ [''SKRESET'', ''WOPT 01'', ''ROPT 01'']) (password_line cfg) = None
      \<and> reply dg (h @ [''SKRESET'', ''WOPT 01'', ''ROPT 01'', password_line cfg])
          (id_line cfg) = None
      \<and> reply dg (h @ map fst (take 5 (login_plan cfg))) (scan_line cfg) = None
      \<and> reply dg (h @ map fst (login_plan cfg)) (set_channel_line d) = None
      \<and> reply dg (h @ map fst (login_plan cfg) @ [set_channel_line d]) (set_pan_line d) = None
      \<and> reply dg (h @ map fst (login_plan cfg) @ [set_channel_line d, set_pan_line d]) (join_line ip) = None"
    for h d ip
    unfolding join_plan_def login_plan_def register_plan_def append.simps
    by (simp only: answered_ok_mandatory answered_ok_optional mandatory_lines answered_ok.simps(1))
      simp
  show ?thesis
    unfolding connectOnce_def sequence_Inr answered
    by (auto simp: join_plan_def login_plan_def register_plan_def dest: link_local_formats)
qed

definition demo_session :: session where
  "demo_session = \<lparr>MeterIP = replicate 16 0, SessPANID = 0x8888, SessChannel = 0x21,
     MeterMAC = ''001D129012341234''\<rparr>"

text \<open>Everything the manager could send, given what the scan of this module returns.\<close>

definition planned :: "broute_config \<Rightarrow> dongle \<Rightarrow> (string \<times> Duration) list" where
  "planned cfg dg =
     login_plan cfg @
     (case scan_loop None (scan_events dg) of
        Inl e \<Rightarrow> []
      | Inr d \<Rightarrow>
          register_plan cfg d @
          (case macToLinkLocalIPv6 (Addr d) of
             Inl e \<Rightarrow> []
           | Inr ip \<Rightarrow> [(join_line ip, CommandTimeout cfg)]))"

lemma connect_tail_prefix:
  assumes "scan_loop None (scan_events dg) = Inr d"
  shows "prefix (sent (snd (bind_c (simple dg ''SKSREG S2'' (set_channel_line d) (CommandTimeout cfg)) (\<lambda>_.
     bind_c (simple dg ''SKSREG S3'' (set_pan_line d) (CommandTimeout cfg)) (\<lambda>_.
     bind_c (mac_address d) (\<lambda>ipv6.
     bind_c (enter_state StateJoining) (\<lambda>_.
     bind_c (doJoin cfg dg ipv6) (\<lambda>_ c.
       (Inr \<lparr>MeterIP = ipv6, SessPANID = PANID d, SessChannel = Channel d,
             MeterMAC = Addr d\<rparr>, c)))))) c)))
    (sent c @ register_plan cfg d @ (case macToLinkLocalIPv6 (Addr d) of
             Inl e \<Rightarrow> []
           | Inr ip \<Rightarrow> [(join_line ip, CommandTimeout cfg)]))"
  by (cases "macToLinkLocalIPv6 (Addr d)")
    (auto simp: bind_c_def simple_def drv_command_def mac_address_def enter_state_def doJoin_def
      register_plan_def split: option.split sum.split)

text \<open>
  Whatever fails, the manager sends nothing out of turn: the commands of every run of
  \<open>connectOnce\<close>, successful or not, are a prefix of the plan for this module. In
  particular the credentials are only sent after a reset, the join comes last, and there
  is never a \<open>SKLL64\<close>.
\<close>

theorem connectOnce_sends_prefix:
  "prefix (sent (snd (connectOnce cfg dg c))) (sent c @ planned cfg dg)"
proof (cases "scan_loop None (scan_events dg)")
  case (Inl e)
  then show ?thesis
    by (auto simp: connectOnce_def bind_c_def simple_def best_effort_def drv_command_def
        enter_state_def activeScan_def planned_def login_plan_def split: option.split)
next
  case (Inr d)
  note tail = connect_tail_prefix [OF Inr, of cfg
      "c\<lparr>entered := entered c @ [StateInitializing, StateScanning],
         sent := sent c @ login_plan cfg\<rparr>"]
  show ?thesis
    using Inr tail
    by (auto simp: connectOnce_def bind_c_def [of "enter_state _"] bind_c_def [of "best_effort dg _"]
        bind_c_def [of "activeScan cfg dg"] bind_c_def [of "simple dg ''SKRESET'' _ _"]
        bind_c_def [of "simple dg ''SKSETPWD'' _ _"] bind_c_def [of "simple dg ''SKSETRBID'' _ _"]
        simple_def [of dg "''SKRESET''"] simple_def [of dg "''SKSETPWD''"]
        simple_def [of dg "''SKSETRBID''"] best_effort_def drv_command_def
        enter_state_def activeScan_def planned_def login_plan_def split: option.split)
qed

text \<open>
  C32: The scan picks the best beacon: whatever arrives before \<open>EVENT 22\<close> or the end of the
  budget, \<open>activeScan\<close> returns the first descriptor with the greatest link quality among
  those that parse, and fails only when there is none, telling a finished scan from one
  that timed out. Unparsable descriptors and other events never abort it.
\<close>

theorem scan_picks_best:
  "scan_loop None evs =
     (case find (\<lambda>d. list_all (\<lambda>x. LQI x \<le> LQI d) (beacons evs)) (beacons evs) of
        Some d \<Rightarrow> Inr d
      | None \<Rightarrow> Inl (if scan_completed evs then NoMeterResponded else ScanTimedOut))"
  using scan_loop_first_best by (simp add: first_best_def)

lemma popcount32_le: "popcount32 v \<le> 32"
  unfolding popcount32_def using length_filter_le [of "bit v" "[0 ..< 32]"] by simp

lemma sint_of_nat_64: "int n < 2 ^ 63 \<Longrightarrow> sint (of_nat n :: i64) = int n"
  by (simp add: signed_of_nat signed_take_bit_int_eq_self)

text \<open>
  The scan budget: for every channel mask and the documented durations 0 to 14 the
  64-bit arithmetic does not overflow, so the budget is 10 ms times the number of channels
  (32 for an empty mask) times \<open>2\<^sup>N\<close>, at least 10 s, plus 5 s, and it is longer than the
  scan itself (9.6 ms times \<open>2\<^sup>N\<close> per channel).
\<close>

theorem scanBudget_exact:
  assumes "unat dur \<le> 14"
  shows "sint (scanBudget chans dur) =
      max (10 ^ 7 * int (if popcount32 chans = 0 then 32 else popcount32 chans) * 2 ^ unat dur) (10 ^ 10)
      + 5 * 10 ^ 9
    \<and> 9600000 * (int (popcount32 chans) * 2 ^ unat dur) < sint (scanBudget chans dur)"
proof -
  define n m where "n = (if popcount32 chans = 0 then 32 else popcount32 chans)"
    and "m = 10 ^ 7 * n * 2 ^ unat dur"
  have "n \<le> 32" using popcount32_le [of chans] by (simp add: n_def)
  moreover have "(2 :: nat) ^ unat dur \<le> 2 ^ 14" using assms by (intro power_increasing) simp_all
  ultimately have "n * 2 ^ unat dur \<le> 32 * 2 ^ 14" by (intro mult_mono) simp_all
  then have small: "m \<le> 10 ^ 7 * (32 * 2 ^ 14)" by (simp add: m_def)
  have "of_nat n * (10 * go_ms 1) * push_bit (unat dur) 1 = (of_nat m :: i64)"
    by (simp add: go_ms_def push_bit_eq_mult m_def)
  then have b: "scanBudget chans dur =
      (if (of_nat m :: i64) <s go_s 10 then go_s 10 else of_nat m) + go_s 5"
    by (simp only: scanBudget_def Let_def n_def)
  have "sint (of_nat m :: i64) = int m" using small by (intro sint_of_nat_64) simp
  then have c: "(of_nat m :: i64) <s go_s 10 \<longleftrightarrow> m < 10 ^ 10"
    by (simp add: word_sless_alt go_s_def)
  have "scanBudget chans dur = of_nat (max m (10 ^ 10) + 5 * 10 ^ 9)"
    unfolding b c by (auto simp: go_s_def max_def)
  then have s: "sint (scanBudget chans dur) = int (max m (10 ^ 10) + 5 * 10 ^ 9)"
    using small by (simp only:) (intro sint_of_nat_64; simp add: max_def)
  define k q where "k = popcount32 chans * 2 ^ unat dur" and "q = n * 2 ^ unat dur"
  have "k \<le> q" unfolding k_def q_def by (intro mult_right_mono) (simp_all add: n_def)
  moreover have "m = 10 ^ 7 * q" by (simp add: m_def q_def)
  ultimately have "9600000 * k < max m (10 ^ 10) + 5 * 10 ^ 9" by (simp add: max_def)
  then have "int (9600000 * k) < int (max m (10 ^ 10) + 5 * 10 ^ 9)" by (simp only: of_nat_less_iff)
  moreover have "int (9600000 * k) = 9600000 * (int (popcount32 chans) * 2 ^ unat dur)"
    by (simp add: k_def)
  ultimately have "9600000 * (int (popcount32 chans) * 2 ^ unat dur) < sint (scanBudget chans dur)"
    by (simp only: s)
  moreover have "int m = 10 ^ 7 * int n * 2 ^ unat dur" by (simp add: m_def)
  ultimately show ?thesis using s by (simp add: n_def of_nat_max)
qed

theorem scanBudget_exact_witness: "sint (scanBudget 0xFFFFFFFF 6) = 20480000000 + 5000000000"
proof -
  have "popcount32 0xFFFFFFFF = 32" by code_simp
  then show ?thesis using scanBudget_exact [of 6 "0xFFFFFFFF"] by simp
qed

end
