(* ===== verification/Broute_Manager.thy ===== *)
theory Broute_Manager
  imports Broute_Connect
begin

text \<open>
  \<open>internal/broute/manager.go\<close>: the supervisor (\<open>Run\<close>), the dispatcher of driver events
  (\<open>dispatchEvents\<close>, \<open>handleEvent\<close>) and the callers of \<open>WaitConnected\<close>, as goroutines
  that interleave on the manager's channels and mutex-protected fields. Each definition
  is one critical section; \<open>mgr_step\<close> interleaves them. \<open>connectOnce\<close> itself is in
  \<open>Broute_Connect\<close>; here it is the steps it can take on the manager's fields.
\<close>

section \<open>State\<close>

datatype disc_reason =
    DriverGone | PanaFailed | PanaTerminated string | CtxError

text \<open>
  Where \<open>Run\<close> is: at the head of its loop, inside \<open>connectOnce\<close>, waiting for the backoff,
  in the two critical sections of \<open>installSession\<close>, before \<open>setState(StateConnected)\<close>,
  before \<open>waitForDisconnect\<close> creates its channel, waiting on it, in the two critical
  sections of \<open>clearSession\<close>, before \<open>setState(StateReconnecting)\<close>, or returned.
\<close>

datatype sup_phase =
    Top | Connecting | BackingOff
  | Install_Session session | Install_Signal | Announce
  | Prepare_Wait | Await_Disconnect
  | Clear_Session disc_reason | Clear_Signal disc_reason | Restart disc_reason
  | Finished

text \<open>The dispatcher: waiting for an event, blocked up to 50 ms on a full scan channel, or returned.\<close>

datatype disp_phase = Dispatching | Scan_Blocked nat event | Dispatch_Done

datatype waiter = Looking | Read_Nil | Blocked nat | Got session | Gave_Up

record manager =
  mcfg :: broute_config
  mstate :: State
  state_log :: "State list"
  reconnects :: nat
  auth_failures :: nat
  incoming_q :: "incoming list"
  sess :: "session option"
  connected_ch :: nat
  closed_chs :: "nat set"
  close_panic :: bool
  scan_ch :: "event list option"
  scan_id :: nat
  join_ch :: "event list option"
  disc :: "disc_reason list option"
  backoff :: Duration
  run_at :: sup_phase
  disp_at :: disp_phase
  waiters :: "nat \<Rightarrow> waiter option"
  ctx_done :: bool

text \<open>\<open>NewManager\<close>: zero fields of the configuration take their defaults.\<close>

definition with_defaults :: "broute_config \<Rightarrow> broute_config" where
  "with_defaults cfg =
     cfg\<lparr>ScanDuration := (if ScanDuration cfg = 0 then 6 else ScanDuration cfg),
         ChannelMask := (if ChannelMask cfg = 0 then 0xFFFFFFFF else ChannelMask cfg),
         JoinTimeout := (if JoinTimeout cfg = 0 then go_s 180 else JoinTimeout cfg),
         CommandTimeout := (if CommandTimeout cfg = 0 then go_s 6 else CommandTimeout cfg),
         InitialBackoff := (if InitialBackoff cfg = 0 then go_s 5 else InitialBackoff cfg),
         MaxBackoff := (if MaxBackoff cfg = 0 then go_s 300 else MaxBackoff cfg)\<rparr>"

definition NewManager :: "broute_config \<Rightarrow> manager" where
  "NewManager cfg =
     \<lparr>mcfg = with_defaults cfg, mstate = StateDisconnected, state_log = [], reconnects = 0,
      auth_failures = 0, incoming_q = [], sess = None, connected_ch = 0, closed_chs = {},
      close_panic = False, scan_ch = None, scan_id = 0, join_ch = None, disc = None,
      backoff = InitialBackoff (with_defaults cfg), run_at = Top, disp_at = Dispatching,
      waiters = Map.empty, ctx_done = False\<rparr>"

definition incoming_cap :: nat where "incoming_cap = 32"
definition scan_cap :: nat where "scan_cap = 16"

section \<open>Small operations\<close>

definition setState :: "State \<Rightarrow> manager \<Rightarrow> manager" where
  "setState s m =
     m\<lparr>mstate := s, state_log := (if mstate m \<noteq> s then state_log m @ [s] else state_log m)\<rparr>"

definition nextBackoff :: "Duration \<Rightarrow> Duration \<Rightarrow> Duration" where
  "nextBackoff cur mx = (let next = cur * 2 in if mx <s next then mx else next)"

definition install_session :: "session \<Rightarrow> manager \<Rightarrow> manager" where
  "install_session s m = m\<lparr>sess := Some s\<rparr>"

text \<open>Closing a closed channel panics.\<close>

definition install_signal :: "manager \<Rightarrow> manager" where
  "install_signal m =
     (if connected_ch m \<in> closed_chs m then m\<lparr>close_panic := True\<rparr>
      else m\<lparr>closed_chs := insert (connected_ch m) (closed_chs m)\<rparr>)"

definition clear_session :: "manager \<Rightarrow> manager" where
  "clear_session m = m\<lparr>sess := None\<rparr>"

text \<open>A fresh channel, numbered by the channels made so far.\<close>

definition clear_signal :: "manager \<Rightarrow> manager" where
  "clear_signal m = m\<lparr>connected_ch := Suc (connected_ch m)\<rparr>"

definition notifyDisconnect :: "disc_reason \<Rightarrow> manager \<Rightarrow> manager" where
  "notifyDisconnect e m =
     (case disc m of
        None \<Rightarrow> m
      | Some q \<Rightarrow> if length q < 1 then m\<lparr>disc := Some (q @ [e])\<rparr> else m)"

definition joinNotify :: "event \<Rightarrow> manager \<Rightarrow> manager" where
  "joinNotify ev m =
     (case join_ch m of
        None \<Rightarrow> m
      | Some q \<Rightarrow> if length q < 1 then m\<lparr>join_ch := Some (q @ [ev])\<rparr> else m)"

definition scanNotify :: "event \<Rightarrow> manager \<Rightarrow> manager" where
  "scanNotify ev m =
     (case scan_ch m of
        None \<Rightarrow> m
      | Some q \<Rightarrow>
          if length q < scan_cap then m\<lparr>scan_ch := Some (q @ [ev])\<rparr>
          else m\<lparr>disp_at := Scan_Blocked (scan_id m) ev\<rparr>)"

definition push_incoming :: "incoming \<Rightarrow> manager \<Rightarrow> manager" where
  "push_incoming inc m =
     (if length (incoming_q m) < incoming_cap then m\<lparr>incoming_q := incoming_q m @ [inc]\<rparr> else m)"

section \<open>The dispatcher\<close>

definition handle_code :: "string \<Rightarrow> event \<Rightarrow> manager \<Rightarrow> manager" where
  "handle_code code ev m =
     (if code = ''22'' then scanNotify ev m
      else if code = ''24'' then
        notifyDisconnect PanaFailed
          ((joinNotify ev m)\<lparr>auth_failures := Suc (auth_failures (joinNotify ev m))\<rparr>)
      else if code = ''25'' then joinNotify ev m
      else if code \<in> {''27'', ''28'', ''29''} then notifyDisconnect (PanaTerminated code) m
      else m)"

definition handleEvent :: "instant \<Rightarrow> event \<Rightarrow> manager \<Rightarrow> manager" where
  "handleEvent now ev m =
     (if Kind ev = ''ERXUDP'' then
        (case parseIncoming now ev of None \<Rightarrow> m | Some inc \<Rightarrow> push_incoming inc m)
      else if Kind ev = ''EPANDESC'' then scanNotify ev m
      else if Kind ev = ''EVENT'' then
        (if length (Params ev) < 1 then m else handle_code (Params ev ! 0) ev m)
      else m)"

text \<open>The scan channel has room again, or 50 ms are over.\<close>

definition scan_unblock :: "nat \<Rightarrow> event \<Rightarrow> manager \<Rightarrow> manager" where
  "scan_unblock i ev m =
     (case scan_ch m of
        Some q \<Rightarrow>
          if scan_id m = i \<and> length q < scan_cap
          then m\<lparr>scan_ch := Some (q @ [ev]), disp_at := Dispatching\<rparr>
          else m\<lparr>disp_at := Dispatching\<rparr>
      | None \<Rightarrow> m\<lparr>disp_at := Dispatching\<rparr>)"

section \<open>The supervisor\<close>

definition run_top :: "manager \<Rightarrow> manager" where
  "run_top m =
     (if ctx_done m then m\<lparr>run_at := Finished\<rparr>
      else (setState StateInitializing m)\<lparr>run_at := Connecting\<rparr>)"

definition run_failed :: "manager \<Rightarrow> manager" where
  "run_failed m = m\<lparr>run_at := BackingOff, reconnects := Suc (reconnects m), scan_ch := None, join_ch := None\<rparr>"

definition run_backoff_over :: "manager \<Rightarrow> manager" where
  "run_backoff_over m = m\<lparr>backoff := nextBackoff (backoff m) (MaxBackoff (mcfg m)), run_at := Top\<rparr>"

definition run_connected :: "session \<Rightarrow> manager \<Rightarrow> manager" where
  "run_connected s m =
     m\<lparr>backoff := InitialBackoff (mcfg m), run_at := Install_Session s, scan_ch := None, join_ch := None\<rparr>"

definition run_restart :: "disc_reason \<Rightarrow> manager \<Rightarrow> manager" where
  "run_restart r m =
     (let m = setState StateReconnecting m; m = m\<lparr>reconnects := Suc (reconnects m)\<rparr>
      in if r = CtxError then m\<lparr>run_at := Finished\<rparr> else m\<lparr>run_at := Top\<rparr>)"

text \<open>
  \<open>waitForDisconnect\<close>: a fresh channel, then a reason from it or the end of the context; the
  deferred function takes the channel away.
\<close>

definition wait_prepare :: "manager \<Rightarrow> manager" where
  [simp]: "wait_prepare m = m\<lparr>disc := Some [], run_at := Await_Disconnect\<rparr>"

definition wait_over :: "disc_reason \<Rightarrow> manager \<Rightarrow> manager" where
  [simp]: "wait_over r m = m\<lparr>disc := None, run_at := Clear_Session r\<rparr>"

text \<open>\<open>dispatchEvents\<close> at the end of the event channel.\<close>

definition dispatch_closed :: "manager \<Rightarrow> manager" where
  [simp]: "dispatch_closed m = (notifyDisconnect DriverGone m)\<lparr>disp_at := Dispatch_Done\<rparr>"

section \<open>WaitConnected\<close>

definition set_waiter :: "nat \<Rightarrow> waiter \<Rightarrow> manager \<Rightarrow> manager" where
  "set_waiter i w m = m\<lparr>waiters := (waiters m)(i \<mapsto> w)\<rparr>"

definition wait_look :: "nat \<Rightarrow> manager \<Rightarrow> manager" where
  "wait_look i m =
     (case sess m of
        Some s \<Rightarrow> set_waiter i (Got s) m
      | None \<Rightarrow> set_waiter i Read_Nil m)"

definition wait_take_ch :: "nat \<Rightarrow> manager \<Rightarrow> manager" where
  "wait_take_ch i m = set_waiter i (Blocked (connected_ch m)) m"

section \<open>Interleaving\<close>

inductive mgr_step :: "manager \<Rightarrow> manager \<Rightarrow> bool" where
  m_top: "run_at m = Top \<Longrightarrow> mgr_step m (run_top m)"
| m_state: "run_at m = Connecting \<Longrightarrow> s \<in> {StateInitializing, StateScanning, StateJoining} \<Longrightarrow>
    mgr_step m (setState s m)"
| m_scan_on: "run_at m = Connecting \<Longrightarrow> mgr_step m (m\<lparr>scan_ch := Some [], scan_id := Suc (scan_id m)\<rparr>)"
| m_scan_off: "run_at m = Connecting \<Longrightarrow> mgr_step m (m\<lparr>scan_ch := None\<rparr>)"
| m_scan_take: "run_at m = Connecting \<Longrightarrow> scan_ch m = Some (ev # q) \<Longrightarrow>
    mgr_step m (m\<lparr>scan_ch := Some q\<rparr>)"
| m_join_on: "run_at m = Connecting \<Longrightarrow> mgr_step m (m\<lparr>join_ch := Some []\<rparr>)"
| m_join_off: "run_at m = Connecting \<Longrightarrow> mgr_step m (m\<lparr>join_ch := None\<rparr>)"
| m_join_take: "run_at m = Connecting \<Longrightarrow> join_ch m = Some (ev # q) \<Longrightarrow>
    mgr_step m (m\<lparr>join_ch := Some q\<rparr>)"
| m_failed: "run_at m = Connecting \<Longrightarrow> mgr_step m (run_failed m)"
| m_backoff: "run_at m = BackingOff \<Longrightarrow> mgr_step m (run_backoff_over m)"
| m_backoff_ctx: "run_at m = BackingOff \<Longrightarrow> ctx_done m \<Longrightarrow> mgr_step m (m\<lparr>run_at := Finished\<rparr>)"
| m_connected: "run_at m = Connecting \<Longrightarrow> mgr_step m (run_connected s m)"
| m_install: "run_at m = Install_Session s \<Longrightarrow>
    mgr_step m ((install_session s m)\<lparr>run_at := Install_Signal\<rparr>)"
| m_signal: "run_at m = Install_Signal \<Longrightarrow> mgr_step m ((install_signal m)\<lparr>run_at := Announce\<rparr>)"
| m_announce: "run_at m = Announce \<Longrightarrow> mgr_step m ((setState StateConnected m)\<lparr>run_at := Prepare_Wait\<rparr>)"
| m_prepare: "run_at m = Prepare_Wait \<Longrightarrow> mgr_step m (wait_prepare m)"
| m_disconnected: "run_at m = Await_Disconnect \<Longrightarrow> disc m = Some (r # q) \<Longrightarrow>
    mgr_step m (wait_over r m)"
| m_wait_ctx: "run_at m = Await_Disconnect \<Longrightarrow> ctx_done m \<Longrightarrow>
    mgr_step m (wait_over CtxError m)"
| m_clear: "run_at m = Clear_Session r \<Longrightarrow> mgr_step m ((clear_session m)\<lparr>run_at := Clear_Signal r\<rparr>)"
| m_clear_signal: "run_at m = Clear_Signal r \<Longrightarrow> mgr_step m ((clear_signal m)\<lparr>run_at := Restart r\<rparr>)"
| m_restart: "run_at m = Restart r \<Longrightarrow> mgr_step m (run_restart r m)"
| m_event: "disp_at m = Dispatching \<Longrightarrow> mgr_step m (handleEvent now ev m)"
| m_unblock: "disp_at m = Scan_Blocked i ev \<Longrightarrow> mgr_step m (scan_unblock i ev m)"
| m_scan_lost: "disp_at m = Scan_Blocked i ev \<Longrightarrow> mgr_step m (m\<lparr>disp_at := Dispatching\<rparr>)"
| m_events_closed: "disp_at m = Dispatching \<Longrightarrow>
    mgr_step m (dispatch_closed m)"
| m_dispatch_ctx: "disp_at m = Dispatching \<Longrightarrow> ctx_done m \<Longrightarrow> mgr_step m (m\<lparr>disp_at := Dispatch_Done\<rparr>)"
| m_consume: "incoming_q m = inc # q \<Longrightarrow> mgr_step m (m\<lparr>incoming_q := q\<rparr>)"
| m_wait_begin: "waiters m i = None \<Longrightarrow> mgr_step m (set_waiter i Looking m)"
| m_wait_look: "waiters m i = Some Looking \<Longrightarrow> mgr_step m (wait_look i m)"
| m_wait_ch: "waiters m i = Some Read_Nil \<Longrightarrow> mgr_step m (wait_take_ch i m)"
| m_wait_woken: "waiters m i = Some (Blocked ch) \<Longrightarrow> ch \<in> closed_chs m \<Longrightarrow>
    mgr_step m (set_waiter i Looking m)"
| m_wait_ctx_done: "waiters m i = Some (Blocked ch) \<Longrightarrow> mgr_step m (set_waiter i Gave_Up m)"
| m_cancel: "mgr_step m (m\<lparr>ctx_done := True\<rparr>)"

definition mgr_init :: "manager \<Rightarrow> bool" where
  "mgr_init m \<longleftrightarrow> (\<exists>cfg. m = NewManager cfg)"

end
