(* ===== verification/Broute_Manager_Safety.thy ===== *)
theory Broute_Manager_Safety
  imports Broute_Manager
begin

text \<open>
  The invariant of the manager of \<open>internal/broute/manager.go\<close> under all interleavings, and
  its consequences: the connected channel is never closed twice and no waiter misses a
  connection, a session is visible exactly while it is installed, every queue is bounded,
  and when a disconnect is noticed and when it is lost.
\<close>

section \<open>Phases\<close>

text \<open>\<open>signalled\<close>: the current channel is closed; \<open>live\<close>: the session is set.\<close>

fun signalled :: "sup_phase \<Rightarrow> bool" where
  "signalled Announce = True"
| "signalled Prepare_Wait = True"
| "signalled Await_Disconnect = True"
| "signalled (Clear_Session r) = True"
| "signalled (Clear_Signal r) = True"
| "signalled ph = False"

fun live :: "sup_phase \<Rightarrow> bool" where
  "live Install_Signal = True"
| "live Announce = True"
| "live Prepare_Wait = True"
| "live Await_Disconnect = True"
| "live (Clear_Session r) = True"
| "live ph = False"

fun may_be_connected :: "sup_phase \<Rightarrow> bool" where
  "may_be_connected Prepare_Wait = True"
| "may_be_connected Await_Disconnect = True"
| "may_be_connected (Clear_Session r) = True"
| "may_be_connected (Clear_Signal r) = True"
| "may_be_connected (Restart r) = True"
| "may_be_connected ph = False"

section \<open>The invariant\<close>

definition channel_inv :: "manager \<Rightarrow> bool" where
  "channel_inv m \<longleftrightarrow>
     \<not> close_panic m \<and>
     closed_chs m = {..< connected_ch m} \<union> (if signalled (run_at m) then {connected_ch m} else {}) \<and>
     (\<forall>i ch. waiters m i = Some (Blocked ch) \<longrightarrow> ch \<le> connected_ch m)"

definition session_inv :: "manager \<Rightarrow> bool" where
  "session_inv m \<longleftrightarrow>
     (sess m \<noteq> None \<longleftrightarrow> live (run_at m)) \<and>
     (mstate m = StateConnected \<longrightarrow> may_be_connected (run_at m))"

definition queue_inv :: "manager \<Rightarrow> bool" where
  "queue_inv m \<longleftrightarrow>
     length (incoming_q m) \<le> incoming_cap \<and>
     pred_option (\<lambda>q. length q \<le> scan_cap) (scan_ch m) \<and>
     pred_option (\<lambda>q. length q \<le> 1) (join_ch m) \<and>
     pred_option (\<lambda>q. length q \<le> 1 \<and> CtxError \<notin> set q) (disc m) \<and>
     (disc m \<noteq> None \<longleftrightarrow> run_at m = Await_Disconnect) \<and>
     (scan_ch m \<noteq> None \<or> join_ch m \<noteq> None \<longrightarrow> run_at m = Connecting)"

definition mgr_inv :: "manager \<Rightarrow> bool" where
  "mgr_inv m \<longleftrightarrow> channel_inv m \<and> session_inv m \<and> queue_inv m"

section \<open>What the dispatcher does not touch\<close>

text \<open>The fields the supervisor and the waiters own.\<close>

definition owned :: "manager \<Rightarrow>
    State \<times> session option \<times> nat \<times> nat set \<times> bool \<times> sup_phase \<times> (nat \<rightharpoonup> waiter)" where
  "owned m = (mstate m, sess m, connected_ch m, closed_chs m, close_panic m, run_at m, waiters m)"

lemma owned_inv:
  assumes "owned m' = owned m"
  shows "channel_inv m' \<longleftrightarrow> channel_inv m" "session_inv m' \<longleftrightarrow> session_inv m"
  using assms by (simp_all add: owned_def channel_inv_def session_inv_def)

lemma owned_dispatch [simp]:
  "owned (notifyDisconnect e m) = owned m" "owned (joinNotify ev m) = owned m"
  "owned (scanNotify ev m) = owned m" "owned (push_incoming inc m) = owned m"
  "owned (scan_unblock i ev m) = owned m"
  by (simp_all add: notifyDisconnect_def joinNotify_def scanNotify_def push_incoming_def
      scan_unblock_def owned_def split: option.split)

lemma owned_update [simp]:
  "owned (m\<lparr>auth_failures := n\<rparr>) = owned m" "owned (m\<lparr>disp_at := p\<rparr>) = owned m"
  "owned (m\<lparr>incoming_q := q\<rparr>) = owned m" "owned (m\<lparr>scan_ch := c\<rparr>) = owned m"
  "owned (m\<lparr>join_ch := c\<rparr>) = owned m" "owned (m\<lparr>scan_id := n\<rparr>) = owned m"
  "owned (m\<lparr>ctx_done := b\<rparr>) = owned m"
  by (simp_all add: owned_def)

lemma owned_handleEvent [simp]: "owned (handleEvent now ev m) = owned m"
  by (simp add: handleEvent_def handle_code_def split: option.split)

lemma queue_dispatch:
  assumes "queue_inv m"
  shows "e \<noteq> CtxError \<Longrightarrow> queue_inv (notifyDisconnect e m)" "queue_inv (joinNotify ev m)" "queue_inv (scanNotify ev m)"
    "queue_inv (push_incoming inc m)" "queue_inv (scan_unblock i ev m)"
  using assms by (auto simp: queue_inv_def notifyDisconnect_def joinNotify_def scanNotify_def
      push_incoming_def scan_unblock_def incoming_cap_def split: option.splits)

lemma queue_frame [simp]:
  "queue_inv (m\<lparr>auth_failures := n\<rparr>) = queue_inv m" "queue_inv (m\<lparr>disp_at := p\<rparr>) = queue_inv m"
  "queue_inv (m\<lparr>ctx_done := b\<rparr>) = queue_inv m" "queue_inv (m\<lparr>waiters := w\<rparr>) = queue_inv m"
  by (simp_all add: queue_inv_def)

lemma queue_handleEvent: "queue_inv m \<Longrightarrow> queue_inv (handleEvent now ev m)"
  by (simp add: handleEvent_def handle_code_def queue_dispatch split: option.split)

section \<open>Every step keeps the invariant\<close>

lemmas mgr_ops = run_top_def run_failed_def run_backoff_over_def run_connected_def run_restart_def
  install_session_def install_signal_def clear_session_def clear_signal_def setState_def
  set_waiter_def wait_look_def wait_take_ch_def

lemma mgr_step_channel: "mgr_step m m' \<Longrightarrow> channel_inv m \<Longrightarrow> channel_inv m'"
proof (induction rule: mgr_step.induct)
  case (m_event m now ev)
  then show ?case using owned_inv(1) [of "handleEvent now ev m" m] by simp
next
  case (m_unblock m i ev)
  then show ?case using owned_inv(1) [of "scan_unblock i ev m" m] by simp
next
  case (m_events_closed m)
  then show ?case using owned_inv(1) [of "(notifyDisconnect DriverGone m)\<lparr>disp_at := Dispatch_Done\<rparr>" m] by simp
next
  case (m_restart m r)
  then show ?case by (cases "r = CtxError") (auto simp: channel_inv_def mgr_ops Let_def)
qed (auto simp: channel_inv_def mgr_ops intro: le_SucI split: if_splits option.splits)

lemma mgr_step_session: "mgr_step m m' \<Longrightarrow> session_inv m \<Longrightarrow> session_inv m'"
proof (induction rule: mgr_step.induct)
  case (m_event m now ev)
  then show ?case using owned_inv(2) [of "handleEvent now ev m" m] by simp
next
  case (m_unblock m i ev)
  then show ?case using owned_inv(2) [of "scan_unblock i ev m" m] by simp
next
  case (m_events_closed m)
  then show ?case using owned_inv(2) [of "(notifyDisconnect DriverGone m)\<lparr>disp_at := Dispatch_Done\<rparr>" m] by simp
next
  case (m_restart m r)
  then show ?case by (cases "r = CtxError") (auto simp: session_inv_def mgr_ops Let_def)
qed (auto simp: session_inv_def mgr_ops split: if_splits option.splits)

lemma mgr_step_queue: "mgr_step m m' \<Longrightarrow> queue_inv m \<Longrightarrow> queue_inv m'"
proof (induction rule: mgr_step.induct)
  case (m_restart m r)
  then show ?case by (cases "r = CtxError") (auto simp: queue_inv_def mgr_ops Let_def)
next
  case (m_event m now ev)
  then show ?case by (simp add: queue_handleEvent)
next
  case (m_unblock m i ev)
  then show ?case by (simp add: queue_dispatch)
next
  case (m_events_closed m)
  then show ?case by (simp add: queue_dispatch)
qed (auto simp: queue_inv_def mgr_ops split: if_splits option.splits)

interpretation mgr: step_system mgr_init mgr_step mgr_inv
proof unfold_locales
  show "mgr_inv m" if "mgr_init m" for m
    using that by (auto simp: mgr_init_def NewManager_def mgr_inv_def channel_inv_def
        session_inv_def queue_inv_def)
  show "mgr_inv m'" if "mgr_inv m" "mgr_step m m'" for m m'
    using that mgr_step_channel mgr_step_session mgr_step_queue by (simp add: mgr_inv_def)
qed

lemmas mgr_reachable = mgr.reachable_invar [unfolded mgr_inv_def]

interpretation incoming_chan: bounded_chan push_incoming incoming_q "\<lambda>_. incoming_cap"
  by unfold_locales (auto simp: push_incoming_def)

section \<open>A connected manager\<close>

definition demo_config :: broute_config where
  "demo_config = \<lparr>BRouteID = ''ID'', BRoutePassword = ''PW'', ScanDuration = 0, ChannelMask = 0,
     JoinTimeout = 0, CommandTimeout = 0, InitialBackoff = 0, MaxBackoff = 0\<rparr>"

text \<open>The manager between \<open>setState(StateConnected)\<close> and \<open>waitForDisconnect\<close>, then in it.\<close>

definition demo_announced :: manager where
  "demo_announced =
     (let m = run_connected demo_session (run_top (NewManager demo_config));
          m = (install_session demo_session m)\<lparr>run_at := Install_Signal\<rparr>;
          m = (install_signal m)\<lparr>run_at := Announce\<rparr>
      in (setState StateConnected m)\<lparr>run_at := Prepare_Wait\<rparr>)"

definition demo_connected :: manager where
  "demo_connected = demo_announced\<lparr>disc := Some [], run_at := Await_Disconnect\<rparr>"

lemma demo_announced_eval:
  "demo_announced = (NewManager demo_config)\<lparr>mstate := StateConnected,
     state_log := [StateInitializing, StateConnected], sess := Some demo_session,
     closed_chs := {0}, run_at := Prepare_Wait\<rparr>"
  by (simp add: demo_announced_def mgr_ops NewManager_def Let_def)

lemma demo_connected_fields:
  "run_at demo_connected = Await_Disconnect" "disc demo_connected = Some []"
  "waiters demo_connected = Map.empty" "closed_chs demo_connected = {0}"
  "sess demo_connected = Some demo_session" "incoming_q demo_connected = []"
  by (simp_all add: demo_connected_def demo_announced_eval NewManager_def)

lemma reachable_demo_announced: "reachable mgr_init mgr_step demo_announced"
proof -
  let ?m0 = "NewManager demo_config"
  let ?m1 = "run_top ?m0"
  let ?m2 = "run_connected demo_session ?m1"
  let ?m3 = "(install_session demo_session ?m2)\<lparr>run_at := Install_Signal\<rparr>"
  let ?m4 = "(install_signal ?m3)\<lparr>run_at := Announce\<rparr>"
  have "reachable mgr_init mgr_step ?m0"
    by (rule reachable.start) (auto simp: mgr_init_def)
  then have "reachable mgr_init mgr_step ?m1"
    by (rule reachable.next_state) (rule m_top; simp add: NewManager_def)
  then have "reachable mgr_init mgr_step ?m2"
    by (rule reachable.next_state) (rule m_connected; simp add: NewManager_def mgr_ops)
  then have "reachable mgr_init mgr_step ?m3"
    by (rule reachable.next_state) (rule m_install; simp add: run_connected_def)
  then have "reachable mgr_init mgr_step ?m4"
    by (rule reachable.next_state) (rule m_signal; simp)
  then show ?thesis unfolding demo_announced_def Let_def
    by (rule reachable.next_state) (rule m_announce; simp)
qed

lemma reachable_demo_connected: "reachable mgr_init mgr_step demo_connected"
  unfolding demo_connected_def
  by (rule reachable.next_state [OF reachable_demo_announced])
    (rule m_prepare [unfolded wait_prepare_def]; simp add: demo_announced_eval)

section \<open>Properties\<close>

text \<open>
  C17: The connected signal: in every reachable state of the manager the channel that
  \<open>WaitConnected\<close> waits on has never been closed twice (which would panic), and no wakeup is
  lost: a waiter that is blocked on a channel that is still open is blocked on the
  current one, which the next \<open>installSession\<close> closes; once the connection is announced,
  every blocked waiter can proceed.
\<close>

theorem connected_signal_safe:
  assumes "reachable mgr_init mgr_step m"
  shows "\<not> close_panic m
    \<and> (\<forall>i ch. waiters m i = Some (Blocked ch) \<longrightarrow> ch \<in> closed_chs m \<or> ch = connected_ch m)
    \<and> (mstate m = StateConnected \<and> sess m \<noteq> None \<longrightarrow>
        (\<forall>i ch. waiters m i = Some (Blocked ch) \<longrightarrow> ch \<in> closed_chs m))"
proof -
  have ch: "channel_inv m" and se: "session_inv m" using mgr_reachable [OF assms] by simp_all
  have "signalled (run_at m)" if "mstate m = StateConnected" "sess m \<noteq> None"
    using se that by (cases "run_at m") (auto simp: session_inv_def)
  with ch show ?thesis by (fastforce simp: channel_inv_def)
qed

theorem connected_signal_safe_witness:
  "\<not> close_panic demo_connected \<and> closed_chs demo_connected = {0}"
  using connected_signal_safe [OF reachable_demo_connected] by (simp add: demo_connected_fields)

text \<open>
  C16: A session is visible to \<open>WaitConnected\<close> exactly from \<open>installSession\<close> to
  \<open>clearSession\<close>: never while the supervisor connects, backs off or has returned. The
  state \<open>connected\<close> is only reported after the session and its signal are in place, and
  the scan, join and disconnect channels exist only while somebody reads them.
\<close>

theorem session_lifecycle:
  assumes "reachable mgr_init mgr_step m"
  shows "(sess m \<noteq> None \<longleftrightarrow> live (run_at m))
    \<and> (mstate m = StateConnected \<longrightarrow> may_be_connected (run_at m))
    \<and> (disc m \<noteq> None \<longleftrightarrow> run_at m = Await_Disconnect)
    \<and> (scan_ch m \<noteq> None \<or> join_ch m \<noteq> None \<longrightarrow> run_at m = Connecting)"
  using mgr_reachable [OF assms] by (simp add: session_inv_def queue_inv_def)

theorem session_lifecycle_witness:
  "live (run_at demo_connected) \<and> sess demo_connected \<noteq> None \<and> scan_ch demo_connected = None"
  using session_lifecycle [OF reachable_demo_connected] by (auto simp: demo_connected_fields)

text \<open>
  The queues of the manager are bounded in every reachable state: 32 received frames,
  16 scan events, one join outcome and one disconnect reason.
\<close>

theorem manager_queues_bounded:
  assumes "reachable mgr_init mgr_step m"
  shows "length (incoming_q m) \<le> 32
    \<and> pred_option (\<lambda>q. length q \<le> 16) (scan_ch m)
    \<and> pred_option (\<lambda>q. length q \<le> 1) (join_ch m)
    \<and> pred_option (\<lambda>q. length q \<le> 1) (disc m)"
  using mgr_reachable [OF assms]
  by (cases "disc m") (simp_all add: queue_inv_def incoming_cap_def scan_cap_def)

theorem manager_queues_bounded_witness: "length (incoming_q demo_connected) \<le> 32"
  using manager_queues_bounded [OF reachable_demo_connected] by blast

text \<open>An event of the module with the given code, and the codes that end a session.\<close>

definition event_code :: "string \<Rightarrow> event \<Rightarrow> bool" where
  "event_code code ev \<longleftrightarrow> Kind ev = ''EVENT'' \<and> Params ev \<noteq> [] \<and> hd (Params ev) = code"

definition termination_codes :: "string list" where
  "termination_codes = [''27'', ''28'', ''29'']"

lemma handleEvent_code:
  "event_code code ev \<Longrightarrow> handleEvent now ev m = handle_code code ev m"
  by (cases "Params ev") (auto simp: event_code_def handleEvent_def)

lemma handle_termination:
  "code \<in> set termination_codes \<Longrightarrow> handle_code code ev m = notifyDisconnect (PanaTerminated code) m"
  by (auto simp: termination_codes_def handle_code_def)

definition teardown :: "disc_reason \<Rightarrow> manager \<Rightarrow> manager" where
  "teardown r m =
     run_restart r ((clear_signal ((clear_session (m\<lparr>disc := None, run_at := Clear_Session r\<rparr>))
       \<lparr>run_at := Clear_Signal r\<rparr>))\<lparr>run_at := Restart r\<rparr>)"

text \<open>
  A step the manager makes alone: nothing arrives on its channels from the driver, and
  nothing is taken from the queue of datagrams.
\<close>

definition queued :: "'a list option \<Rightarrow> 'a set" where
  "queued ch = (case ch of None \<Rightarrow> {} | Some q \<Rightarrow> set q)"

lemma queued_simps [simp]: "queued None = {}" "queued (Some q) = set q"
  by (simp_all add: queued_def)

definition blocked :: "disp_phase \<Rightarrow> event set" where
  "blocked ph = (case ph of Scan_Blocked i ev \<Rightarrow> {ev} | _ \<Rightarrow> {})"

lemma blocked_simps [simp]:
  "blocked Dispatching = {}" "blocked (Scan_Blocked i ev) = {ev}" "blocked Dispatch_Done = {}"
  by (simp_all add: blocked_def)

definition undisturbed :: "manager \<Rightarrow> manager \<Rightarrow> bool" where
  "undisturbed m m' \<longleftrightarrow>
     incoming_q m' = incoming_q m \<and> auth_failures m' = auth_failures m \<and>
     queued (join_ch m') \<subseteq> queued (join_ch m) \<and> queued (disc m') \<subseteq> queued (disc m) \<and>
     queued (scan_ch m') \<union> blocked (disp_at m') \<subseteq> queued (scan_ch m) \<union> blocked (disp_at m) \<and>
     (disp_at m' = Dispatch_Done \<longrightarrow> disp_at m = Dispatch_Done \<or> ctx_done m)"

definition mgr_alone :: "manager \<Rightarrow> manager \<Rightarrow> bool" where
  "mgr_alone m m' \<longleftrightarrow> mgr_step m m' \<and> undisturbed m m'"

lemma mgr_alone_steps: "mgr_alone\<^sup>*\<^sup>* m m' \<Longrightarrow> mgr_step\<^sup>*\<^sup>* m m'"
  by (erule rtranclp_mono [THEN predicate2D, rotated]) (auto simp: mgr_alone_def)

lemma teardown_alone:
  assumes "run_at m = Await_Disconnect" "disc m = Some (r # q)"
  shows "mgr_alone\<^sup>*\<^sup>* m (teardown r m)"
proof -
  let ?m1 = "m\<lparr>disc := None, run_at := Clear_Session r\<rparr>"
  let ?m2 = "(clear_session ?m1)\<lparr>run_at := Clear_Signal r\<rparr>"
  let ?m3 = "(clear_signal ?m2)\<lparr>run_at := Restart r\<rparr>"
  have "mgr_step m ?m1" using assms by (rule m_disconnected [unfolded wait_over_def])
  moreover have "mgr_step ?m1 ?m2" by (rule m_clear) simp
  moreover have "mgr_step ?m2 ?m3" by (rule m_clear_signal) simp
  moreover have "mgr_step ?m3 (teardown r m)" unfolding teardown_def by (rule m_restart) simp
  moreover have "undisturbed m ?m1" "undisturbed ?m1 ?m2" "undisturbed ?m2 ?m3" "undisturbed ?m3 (teardown r m)"
    by (simp_all add: teardown_def mgr_ops Let_def undisturbed_def)
  ultimately have "mgr_alone m ?m1" "mgr_alone ?m1 ?m2" "mgr_alone ?m2 ?m3" "mgr_alone ?m3 (teardown r m)"
    by (simp_all only: mgr_alone_def)
  then show ?thesis
    by (meson converse_rtranclp_into_rtranclp rtranclp.rtrancl_refl)
qed

lemmas teardown_steps = mgr_alone_steps [OF teardown_alone]

lemma teardown_fields:
  assumes "r \<noteq> CtxError"
  shows "run_at (teardown r m) = Top" "sess (teardown r m) = None"
    "mstate (teardown r m) = StateReconnecting" "disc (teardown r m) = None"
    "reconnects (teardown r m) = Suc (reconnects m)"
    "connected_ch (teardown r m) = Suc (connected_ch m)"
    "closed_chs (teardown r m) = closed_chs m"
  using assms by (simp_all add: teardown_def mgr_ops Let_def)

text \<open>
  A lost link is noticed: when the supervisor waits for a disconnect and the module
  reports the end of the session (\<open>EVENT\<close> 27, 28 or 29), the supervisor can always run to
  the head of its loop, with the session gone, a fresh open channel for the waiters,
  the state \<open>reconnecting\<close> and one more reconnect counted.
\<close>

theorem disconnect_noticed:
  assumes "reachable mgr_init mgr_step m" "run_at m = Await_Disconnect"
    and "event_code code ev" "code \<in> set termination_codes"
  shows "\<exists>m'. mgr_step\<^sup>*\<^sup>* (handleEvent now ev m) m' \<and> run_at m' = Top \<and> sess m' = None
    \<and> mstate m' = StateReconnecting \<and> reconnects m' = Suc (reconnects m)
    \<and> connected_ch m' \<notin> closed_chs m'"
proof -
  let ?m = "handleEvent now ev m"
  have inv: "queue_inv m" "channel_inv m" using mgr_reachable [OF assms(1)] by simp_all
  then obtain q where q: "disc m = Some q" "length q \<le> 1"
    using assms(2) by (cases "disc m") (auto simp: queue_inv_def)
  have m: "?m = notifyDisconnect (PanaTerminated code) m"
    using assms(3,4) by (simp add: handleEvent_code handle_termination)
  have own: "owned ?m = owned m" by simp
  have rec: "reconnects ?m = reconnects m"
    by (simp add: m notifyDisconnect_def split: option.split)
  obtain r q' where r: "disc ?m = Some (r # q')" "r \<noteq> CtxError"
    using q inv(1) by (cases q) (auto simp: m notifyDisconnect_def queue_inv_def)
  then have "mgr_step\<^sup>*\<^sup>* ?m (teardown r ?m)"
    using own assms(2) by (intro teardown_steps) (auto simp: owned_def)
  then show ?thesis
    using inv(2) own rec r(2) by (intro exI [of _ "teardown r ?m"])
      (auto simp: teardown_fields owned_def channel_inv_def split: if_splits)
qed

definition demo_end :: event where
  "demo_end = \<lparr>Kind = ''EVENT'', Params = [''29'', ''FE80''], Fields = None, Data = None, Raw = []\<rparr>"

lemma demo_end_code: "event_code ''29'' demo_end" "''29'' \<in> set termination_codes"
  by (simp_all add: event_code_def demo_end_def termination_codes_def)

theorem disconnect_noticed_witness:
  "\<exists>m'. mgr_step\<^sup>*\<^sup>* (handleEvent 0 demo_end demo_connected) m' \<and> sess m' = None"
  using disconnect_noticed [OF reachable_demo_connected demo_connected_fields(1) demo_end_code] by blast

text \<open>
  C37: A lost link can go unnoticed: when the session ends (\<open>EVENT\<close> 27, 28 or 29) after
  \<open>installSession\<close> but before \<open>waitForDisconnect\<close> has made its channel, the event changes
  nothing, and the supervisor goes on to wait on an empty channel with the dead session
  installed and the state \<open>connected\<close>: only another such event or the end of the context
  gets it out.
\<close>

theorem disconnect_lost:
  assumes "reachable mgr_init mgr_step m" "run_at m = Prepare_Wait" "mstate m = StateConnected"
    and "disp_at m = Dispatching" "event_code code ev" "code \<in> set termination_codes"
  shows "mgr_step m (handleEvent now ev m) \<and> handleEvent now ev m = m
    \<and> (\<exists>m'. mgr_step m m' \<and> run_at m' = Await_Disconnect \<and> disc m' = Some [] \<and> sess m' \<noteq> None
        \<and> mstate m' = StateConnected)"
proof -
  have "disc m = None" "sess m \<noteq> None"
    using mgr_reachable [OF assms(1)] assms(2) by (auto simp: queue_inv_def session_inv_def)
  moreover from this have "handleEvent now ev m = m"
    using assms(5,6) by (simp add: handleEvent_code handle_termination notifyDisconnect_def)
  moreover have "mgr_step m (handleEvent now ev m)" using assms(4) by (rule m_event)
  moreover have "mgr_step m (m\<lparr>disc := Some [], run_at := Await_Disconnect\<rparr>)"
    using assms(2) by (rule m_prepare [unfolded wait_prepare_def])
  ultimately show ?thesis
    using assms(3) by (intro conjI exI [of _ "m\<lparr>disc := Some [], run_at := Await_Disconnect\<rparr>"]) simp_all
qed

theorem disconnect_lost_witness: "handleEvent 0 demo_end demo_announced = demo_announced"
  using disconnect_lost [OF reachable_demo_announced _ _ _ demo_end_code, of 0]
  by (simp add: demo_announced_eval NewManager_def)

text \<open>The exponential backoff, in the 64-bit arithmetic of \<open>time.Duration\<close>.\<close>

lemma sint_double:
  assumes "0 < sint (b :: i64)" "sint b < 2 ^ 62"
  shows "sint (b * 2) = sint b * 2"
proof -
  have "sint (b * 2) = signed_take_bit 63 (sint b * sint (2 :: i64))"
    by (simp add: sint_word_mult)
  then show ?thesis using assms by (simp add: signed_take_bit_int_eq_self)
qed

lemma nextBackoff_sint:
  assumes "0 < sint b" "sint b < 2 ^ 62"
  shows "sint (nextBackoff b mx) = min (sint b * 2) (sint mx)"
  using sint_double [OF assms] by (auto simp: nextBackoff_def Let_def word_sless_alt)

text \<open>
  The reconnect backoff: starting from a positive initial value, the wait after \<open>k\<close>
  consecutive failures is the initial value doubled \<open>k\<close> times and capped at the maximum
  (the first wait is not capped). Below \<open>2\<^sup>6\<^sup>2\<close> ns (146 years) nothing overflows,
  so the wait is always positive.
\<close>

theorem backoff_sequence:
  assumes "0 < sint b" "sint b < 2 ^ 62" "0 < sint mx" "sint mx < 2 ^ 62"
  shows "sint (((\<lambda>b. nextBackoff b mx) ^^ k) b) =
      (if k = 0 then sint b else min (sint b * 2 ^ k) (sint mx))
    \<and> 0 < sint (((\<lambda>b. nextBackoff b mx) ^^ k) b)"
proof (induction k)
  case 0
  then show ?case using assms by simp
next
  case (Suc k)
  let ?b = "((\<lambda>b. nextBackoff b mx) ^^ k) b"
  have "sint ?b < 2 ^ 62" using Suc assms by (cases k) auto
  then have "sint (nextBackoff ?b mx) = min (sint ?b * 2) (sint mx)"
    using Suc by (intro nextBackoff_sint) auto
  moreover have "min (sint ?b * 2) (sint mx) = min (sint b * 2 ^ Suc k) (sint mx)"
    using Suc assms(3) by (cases "k = 0") (auto simp: min_def)
  moreover have "0 < sint b * 2 ^ Suc k" using assms(1) by simp
  ultimately show ?case using assms(3) by simp
qed

theorem backoff_sequence_witness:
  "sint (((\<lambda>b. nextBackoff b (go_s 300)) ^^ 3) (go_s 5)) = 40 * 10 ^ 9"
  using backoff_sequence [of "go_s 5" "go_s 300" 3]
  by (simp add: go_s_def)

end
