(* ===== verification/Broute_Supervise.thy ===== *)
theory Broute_Supervise
  imports Broute_Manager_Safety
begin

text \<open>
  The manager of \<open>manager.go\<close> and the join sequence of \<open>connect.go\<close> together: what
  \<open>connectOnce\<close> does to the manager is allowed by the manager's step relation, so its
  invariants hold while it runs, and a successful sequence leads to a connected session.
\<close>

section \<open>The states the sequence enters\<close>

definition joining_states :: "State set" where
  "joining_states = {StateInitializing, StateScanning, StateJoining}"

definition only_enters :: "'a connecting \<Rightarrow> bool" where
  "only_enters f \<longleftrightarrow>
     (\<forall>c. \<exists>ss. entered (snd (f c)) = entered c @ ss \<and> set ss \<subseteq> joining_states)"

lemma only_entersI:
  "(\<And>c. entered (snd (f c)) = entered c) \<Longrightarrow> only_enters f"
  by (simp add: only_enters_def)

lemma only_enters_bind:
  assumes "only_enters f" "\<And>x. only_enters (g x)"
  shows "only_enters (bind_c f g)"
  unfolding only_enters_def
proof
  fix c
  obtain r c1 where f: "f c = (r, c1)" by (cases "f c")
  obtain ss where ss: "entered c1 = entered c @ ss" "set ss \<subseteq> joining_states"
    using assms(1) f unfolding only_enters_def by (metis snd_conv)
  show "\<exists>ss. entered (snd (bind_c f g c)) = entered c @ ss \<and> set ss \<subseteq> joining_states"
  proof (cases r)
    case (Inl e)
    with f ss show ?thesis by (auto simp: bind_c_def)
  next
    case (Inr x)
    obtain ts where "entered (snd (g x c1)) = entered c1 @ ts" "set ts \<subseteq> joining_states"
      using assms(2) [of x] unfolding only_enters_def by blast
    with f ss Inr show ?thesis by (intro exI [of _ "ss @ ts"]) (simp add: bind_c_def)
  qed
qed

lemma only_enters_commands [intro]:
  "only_enters (simple dg label line t)" "only_enters (best_effort dg line)" "only_enters (activeScan cfg dg)"
  "only_enters (mac_address d)" "only_enters (doJoin cfg dg ip)"
  by (rule only_entersI;
      simp add: simple_def best_effort_def activeScan_def mac_address_def doJoin_def drv_command_def
        split: option.split)+

lemma only_enters_state [intro]: "s \<in> joining_states \<Longrightarrow> only_enters (enter_state s)"
  by (simp add: only_enters_def enter_state_def)

lemma connectOnce_enters: "only_enters (connectOnce cfg dg)"
  unfolding connectOnce_def
  by (intro only_enters_bind only_enters_commands only_enters_state only_entersI)
    (simp_all add: joining_states_def)

section \<open>The manager's steps\<close>

definition conn_start :: conn where
  "conn_start = \<lparr>sent = [], entered = []\<rparr>"

lemma setState_frame [simp]: "run_at (setState s m) = run_at m" "mcfg (setState s m) = mcfg m"
  by (simp_all add: setState_def)

lemma fold_setState_frame [simp]:
  "run_at (fold setState ss m) = run_at m" "reconnects (fold setState ss m) = reconnects m"
  by (induction ss arbitrary: m) (simp_all add: setState_def)

lemma state_steps:
  "run_at m = Connecting \<Longrightarrow> set ss \<subseteq> joining_states \<Longrightarrow> mgr_step\<^sup>*\<^sup>* m (fold setState ss m)"
proof (induction ss arbitrary: m)
  case (Cons s ss)
  then have "mgr_step m (setState s m)" by (intro m_state) (simp_all add: joining_states_def)
  moreover have "mgr_step\<^sup>*\<^sup>* (setState s m) (fold setState ss (setState s m))" using Cons by simp
  ultimately show ?case by (simp add: converse_rtranclp_into_rtranclp)
qed simp

lemma connect_steps:
  assumes "run_at m = Connecting" "connectOnce (mcfg m) dg conn_start = (r, c)"
  shows "mgr_step\<^sup>*\<^sup>* m (case r of
       Inl e \<Rightarrow> run_failed (fold setState (entered c) m)
     | Inr s \<Rightarrow> run_connected s (fold setState (entered c) m))"
proof -
  have "set (entered c) \<subseteq> joining_states"
    using connectOnce_enters [of "mcfg m" dg] assms(2) unfolding only_enters_def
    by (metis append_Nil conn.select_convs(2) conn_start_def snd_conv)
  then have "mgr_step\<^sup>*\<^sup>* m (fold setState (entered c) m)" by (rule state_steps [OF assms(1)])
  also have "mgr_step (fold setState (entered c) m) (case r of
       Inl e \<Rightarrow> run_failed (fold setState (entered c) m)
     | Inr s \<Rightarrow> run_connected s (fold setState (entered c) m))"
    using assms(1) by (cases r) (simp_all add: m_failed m_connected)
  finally show ?thesis .
qed

text \<open>From the success of the sequence to the announcement of the session.\<close>

definition announced :: "session \<Rightarrow> manager \<Rightarrow> manager" where
  "announced s m =
     (setState StateConnected
       ((install_signal ((install_session s m)\<lparr>run_at := Install_Signal\<rparr>))\<lparr>run_at := Announce\<rparr>))
         \<lparr>run_at := Prepare_Wait\<rparr>"

lemma announce_steps:
  assumes "run_at m = Install_Session s"
  shows "mgr_step\<^sup>*\<^sup>* m (announced s m)"
proof -
  let ?m1 = "(install_session s m)\<lparr>run_at := Install_Signal\<rparr>"
  let ?m2 = "(install_signal ?m1)\<lparr>run_at := Announce\<rparr>"
  have "mgr_step m ?m1" using assms by (rule m_install)
  moreover have "mgr_step ?m1 ?m2" by (rule m_signal) simp
  moreover have "mgr_step ?m2 (announced s m)" unfolding announced_def by (rule m_announce) simp
  ultimately show ?thesis by auto
qed

lemma announced_fields:
  "sess (announced s m) = Some s" "mstate (announced s m) = StateConnected"
  "run_at (announced s m) = Prepare_Wait" "connected_ch (announced s m) \<in> closed_chs (announced s m)"
  by (simp_all add: announced_def install_session_def install_signal_def setState_def)

section \<open>Properties\<close>

text \<open>
  The join sequence refines the manager's steps and connects: from any reachable state in
  which the supervisor starts an attempt, running \<open>connectOnce\<close> against a module is a
  sequence of the manager's steps; if it fails the manager backs off, without a session; if
  it returns a session, the manager goes on to show that session, be connected, and wake
  everybody who waits for it.
\<close>

theorem connect_refines_manager:
  assumes "reachable mgr_init mgr_step m" "run_at m = Connecting"
    and "connectOnce (mcfg m) dg conn_start = (r, c)"
  shows "\<exists>m'. mgr_step\<^sup>*\<^sup>* m m' \<and>
    (case r of
       Inl e \<Rightarrow> run_at m' = BackingOff \<and> sess m' = None \<and> reconnects m' = Suc (reconnects m)
     | Inr s \<Rightarrow> sess m' = Some s \<and> mstate m' = StateConnected \<and>
         (\<forall>i ch. waiters m' i = Some (Blocked ch) \<longrightarrow> ch \<in> closed_chs m'))"
proof -
  let ?m = "fold setState (entered c) m"
  have steps: "mgr_step\<^sup>*\<^sup>* m (case r of Inl e \<Rightarrow> run_failed ?m | Inr s \<Rightarrow> run_connected s ?m)"
    by (rule connect_steps [OF assms(2,3)])
  have inv: "session_inv x \<and> channel_inv x" if "mgr_step\<^sup>*\<^sup>* m x" for x
    using mgr_reachable [OF reachable_steps [OF assms(1) that]] by simp
  show ?thesis
  proof (cases r)
    case (Inl e)
    have "session_inv (run_failed ?m)" using steps inv Inl by simp
    then show ?thesis
      using steps Inl
      by (intro exI [of _ "run_failed ?m"]) (auto simp: run_failed_def session_inv_def)
  next
    case (Inr s)
    let ?n = "announced s (run_connected s ?m)"
    have "mgr_step\<^sup>*\<^sup>* (run_connected s ?m) ?n" by (rule announce_steps) (simp add: run_connected_def)
    with steps Inr have path: "mgr_step\<^sup>*\<^sup>* m ?n" by (simp add: rtranclp_trans)
    then have "\<forall>i ch. waiters ?n i = Some (Blocked ch) \<longrightarrow> ch \<in> closed_chs ?n"
      using inv announced_fields(4) [of s "run_connected s ?m"] by (fastforce simp: channel_inv_def)
    with path Inr show ?thesis by (intro exI [of _ ?n]) (simp add: announced_fields)
  qed
qed

text \<open>A module that answers everything, with one meter in reach.\<close>

definition demo_fields :: "string \<rightharpoonup> string" where
  "demo_fields = [''Channel'' \<mapsto> ''21'', ''Pan ID'' \<mapsto> ''8888'', ''Addr'' \<mapsto> ''001D129012341234'',
     ''LQI'' \<mapsto> ''E1'']"

definition demo_module :: dongle where
  "demo_module =
     \<lparr>reply = (\<lambda>_ _. None),
      scan_events =
        [\<lparr>Kind = ''EPANDESC'', Params = [],
          Fields = Some demo_fields, Data = None, Raw = []\<rparr>,
         \<lparr>Kind = ''EVENT'', Params = [''22''], Fields = None, Data = None, Raw = []\<rparr>],
      join_event = Some \<lparr>Kind = ''EVENT'', Params = [''25''], Fields = None, Data = None, Raw = []\<rparr>\<rparr>"

definition demo_connecting :: manager where
  "demo_connecting = run_top (NewManager demo_config)"

lemma demo_connecting_reachable: "reachable mgr_init mgr_step demo_connecting"
proof -
  have "reachable mgr_init mgr_step (NewManager demo_config)"
    by (rule reachable.start) (auto simp: mgr_init_def)
  moreover have "mgr_step (NewManager demo_config) demo_connecting"
    unfolding demo_connecting_def by (rule m_top) (simp add: NewManager_def)
  ultimately show ?thesis by (rule reachable.next_state)
qed

definition demo_beacon :: epan_descriptor where
  "demo_beacon = \<lparr>Channel = 0x21, PANID = 0x8888, Addr = ''001D129012341234'', LQI = 0xE1,
     PairID = []\<rparr>"

lemma demo_fields_get:
  "epan_get demo_fields ''Channel'' = ''21''" "epan_get demo_fields ''Pan ID'' = ''8888''"
  "epan_get demo_fields ''Addr'' = ''001D129012341234''" "epan_get demo_fields ''LQI'' = ''E1''"
  "epan_get demo_fields ''PairID'' = []"
  by (simp_all add: epan_get_def demo_fields_def trim_space_text ascii_text_def)

lemma demo_hex:
  "parse_uint_hex 8 ''21'' = Some 0x21" "parse_uint_hex 16 ''8888'' = Some 0x8888"
  "parse_uint_hex 8 ''E1'' = Some 0xE1"
  "hex_decode ''001D129012341234'' = Some [0, 0x1D, 0x12, 0x90, 0x12, 0x34, 0x12, 0x34]"
  by (simp_all add: parse_uint_hex_def hexval_def)

lemma demo_parsed:
  "Fields ev = Some demo_fields \<Longrightarrow> parseEPANDESC ev = Inr demo_beacon"
  by (simp add: parseEPANDESC_def demo_fields_get demo_hex hexval_def demo_beacon_def Let_def)

lemma demo_address: "\<exists>ip. macToLinkLocalIPv6 (Addr demo_beacon) = Inr ip"
  by (simp add: demo_beacon_def macToLinkLocalIPv6_def trim_space_text ascii_text_def hexval_def Let_def)

lemma demo_scan: "scan_loop None (scan_events demo_module) = Inr demo_beacon"
  by (simp add: demo_module_def demo_parsed is_event_def)

lemma demo_connects:
  "\<exists>s c. connectOnce cfg demo_module conn_start = (Inr s, c) \<and> SessPANID s = 0x8888"
proof -
  obtain ip where ip: "macToLinkLocalIPv6 (Addr demo_beacon) = Inr ip" using demo_address by blast
  then show ?thesis
    using demo_scan link_local_formats [OF ip]
    unfolding connectOnce_def sequence_Inr
    by (fastforce simp: demo_module_def joined_def demo_beacon_def)
qed

theorem connect_refines_manager_witness:
  "\<exists>m' s. mgr_step\<^sup>*\<^sup>* demo_connecting m' \<and> sess m' = Some s \<and> SessPANID s = 0x8888 \<and> mstate m' = StateConnected"
proof -
  obtain s c where s: "connectOnce (mcfg demo_connecting) demo_module conn_start = (Inr s, c)"
      "SessPANID s = 0x8888"
    using demo_connects by blast
  have at: "run_at demo_connecting = Connecting"
    by (simp add: demo_connecting_def run_top_def NewManager_def setState_def)
  from connect_refines_manager [OF demo_connecting_reachable at s(1)] s(2) show ?thesis by auto
qed

end
