(* ===== verification/Meter_Client.thy ===== *)
theory Meter_Client
  imports Broute_Manager
begin

text \<open>
  \<open>internal/meter/meter.go\<close>: the client that numbers ECHONET Lite requests, registers a
  response channel per transaction ID, and the dispatcher goroutine (\<open>Run\<close>) that matches
  received frames to the waiting calls. Calls of \<open>Get\<close> and \<open>SetC\<close> interleave with each other
  and with the dispatcher; each definition is one critical section.
\<close>

section \<open>Transaction IDs\<close>

text \<open>One \<open>tid.Add(1)\<close> on the 32-bit counter, truncated to the 16 bits of a TID.\<close>

definition tid_add :: "u32 \<Rightarrow> u32" where "tid_add ctr = ctr + 1"

definition tid_of :: "u32 \<Rightarrow> u16" where "tid_of ctr = ucast ctr"

text \<open>The two statements of \<open>Get\<close> and \<open>SetC\<close> together: the TID and the new counter.\<close>

definition next_tid :: "u32 \<Rightarrow> u16 \<times> u32" where
  "next_tid ctr =
     (let c = tid_add ctr; t = tid_of c in
      if t = 0 then (tid_of (tid_add c), tid_add c) else (t, c))"

section \<open>State\<close>

datatype request = GetReq "byte list" | SetCReq byte "byte list"

datatype client_error =
    NoEPCs
  | NotConnected
  | SendError send_error
  | ResponseTimeout u16

text \<open>
  A call: entered, waiting for a session, connected, with a zero TID drawn, with a TID,
  registered, sent, about to return (its deferred \<open>delete\<close> still to come), returned.
\<close>

datatype call_phase =
    C_Entered | C_Connected session | C_Zero session | C_Tid session
  | C_Registered session | C_Sent
  | C_Leaving "client_error + frame" | C_Returned "client_error + frame"

record get_call =
  gc_req :: request
  gc_tid :: u16
  gc_ch :: "frame list"
  gc_phase :: call_phase

text \<open>
  \<open>delivering\<close> is the frame the dispatcher has matched but not yet sent to the call's
  channel; \<open>seen\<close> logs the frames received, \<open>outbox\<close> the datagrams sent.
\<close>

record client =
  tid_ctr :: u32
  tid_pending :: "u16 \<rightharpoonup> nat"
  gcalls :: "nat \<rightharpoonup> get_call"
  delivering :: "(nat \<times> frame) option"
  seen :: "frame list"
  outbox :: "(ip_addr \<times> byte list) list"

definition NewClient :: client where
  "NewClient = \<lparr>tid_ctr = 1, tid_pending = Map.empty, gcalls = Map.empty, delivering = None,
     seen = [], outbox = []\<rparr>"

definition client_get_timeout :: Duration where "client_get_timeout = go_s 5"

section \<open>The calls\<close>

definition set_call :: "nat \<Rightarrow> get_call \<Rightarrow> client \<Rightarrow> client" where
  "set_call i gc c = c\<lparr>gcalls := (gcalls c)(i \<mapsto> gc)\<rparr>"

definition call_begin :: "nat \<Rightarrow> request \<Rightarrow> client \<Rightarrow> client" where
  "call_begin i req c =
     set_call i \<lparr>gc_req = req, gc_tid = 0, gc_ch = [],
        gc_phase = (if req = GetReq [] then C_Returned (Inl NoEPCs) else C_Entered)\<rparr> c"

definition call_connected :: "nat \<Rightarrow> get_call \<Rightarrow> session option \<Rightarrow> client \<Rightarrow> client" where
  "call_connected i gc s c =
     (case s of
        None \<Rightarrow> set_call i (gc\<lparr>gc_phase := C_Returned (Inl NotConnected)\<rparr>) c
      | Some s \<Rightarrow> set_call i (gc\<lparr>gc_phase := C_Connected s\<rparr>) c)"

definition call_draw :: "nat \<Rightarrow> get_call \<Rightarrow> session \<Rightarrow> client \<Rightarrow> client" where
  "call_draw i gc s c =
     (let n = tid_add (tid_ctr c); t = tid_of n in
      set_call i (gc\<lparr>gc_tid := t, gc_phase := (if t = 0 then C_Zero s else C_Tid s)\<rparr>)
        (c\<lparr>tid_ctr := n\<rparr>))"

definition call_redraw :: "nat \<Rightarrow> get_call \<Rightarrow> session \<Rightarrow> client \<Rightarrow> client" where
  "call_redraw i gc s c =
     (let n = tid_add (tid_ctr c) in
      set_call i (gc\<lparr>gc_tid := tid_of n, gc_phase := C_Tid s\<rparr>) (c\<lparr>tid_ctr := n\<rparr>))"

definition call_register :: "nat \<Rightarrow> get_call \<Rightarrow> session \<Rightarrow> client \<Rightarrow> client" where
  "call_register i gc s c =
     set_call i (gc\<lparr>gc_phase := C_Registered s\<rparr>)
       (c\<lparr>tid_pending := (tid_pending c)(gc_tid gc \<mapsto> i)\<rparr>)"

fun request_frame :: "u16 \<Rightarrow> request \<Rightarrow> frame" where
  "request_frame tid (GetReq epcs) = new_get_request tid EOJSmartMeter epcs"
| "request_frame tid (SetCReq epc edt) = new_setc_request tid EOJSmartMeter epc edt"

definition request_payload :: "get_call \<Rightarrow> byte list" where
  "request_payload gc = encode (request_frame (gc_tid gc) (gc_req gc))"

text \<open>\<open>sess.SendUDP\<close>: \<open>err\<close> is what it returns.\<close>

definition call_send :: "nat \<Rightarrow> get_call \<Rightarrow> session \<Rightarrow> send_error option \<Rightarrow> client \<Rightarrow> client" where
  "call_send i gc s err c =
     (case err of
        None \<Rightarrow>
          set_call i (gc\<lparr>gc_phase := C_Sent\<rparr>)
            (c\<lparr>outbox := outbox c @ [(MeterIP s, request_payload gc)]\<rparr>)
      | Some e \<Rightarrow> set_call i (gc\<lparr>gc_phase := C_Leaving (Inl (SendError e))\<rparr>) c)"

definition call_receive :: "nat \<Rightarrow> get_call \<Rightarrow> frame \<Rightarrow> frame list \<Rightarrow> client \<Rightarrow> client" where
  "call_receive i gc f rest c =
     set_call i (gc\<lparr>gc_ch := rest, gc_phase := C_Leaving (Inr f)\<rparr>) c"

definition call_timeout :: "nat \<Rightarrow> get_call \<Rightarrow> client \<Rightarrow> client" where
  "call_timeout i gc c = set_call i (gc\<lparr>gc_phase := C_Leaving (Inl (ResponseTimeout (gc_tid gc)))\<rparr>) c"

text \<open>The deferred \<open>delete(c.pending, tid)\<close>: whatever call is registered under the TID.\<close>

definition call_leave :: "nat \<Rightarrow> get_call \<Rightarrow> client_error + frame \<Rightarrow> client \<Rightarrow> client" where
  "call_leave i gc r c =
     set_call i (gc\<lparr>gc_phase := C_Returned r\<rparr>)
       (c\<lparr>tid_pending := (tid_pending c)(gc_tid gc := None)\<rparr>)"

section \<open>The dispatcher\<close>

text \<open>
  One received payload: a payload that does not decode is dropped; a frame whose TID is
  registered takes the registration away and goes to that call.
\<close>

definition client_incoming :: "byte list \<Rightarrow> client \<Rightarrow> client" where
  "client_incoming payload c =
     (case decode payload of
        Inl e \<Rightarrow> c
      | Inr f \<Rightarrow>
          (let c = c\<lparr>seen := seen c @ [f]\<rparr> in
           (case tid_pending c (TID f) of
              None \<Rightarrow> c
            | Some i \<Rightarrow>
                c\<lparr>tid_pending := (tid_pending c)(TID f := None), delivering := Some (i, f)\<rparr>)))"

definition client_deliver :: "nat \<Rightarrow> get_call \<Rightarrow> frame \<Rightarrow> client \<Rightarrow> client" where
  "client_deliver i gc f c =
     (set_call i (gc\<lparr>gc_ch := gc_ch gc @ [f]\<rparr>) c)\<lparr>delivering := None\<rparr>"

section \<open>Interleaving\<close>

definition in_phase :: "client \<Rightarrow> nat \<Rightarrow> get_call \<Rightarrow> call_phase \<Rightarrow> bool" where
  "in_phase c i gc ph \<longleftrightarrow> gcalls c i = Some gc \<and> gc_phase gc = ph"

inductive client_step :: "client \<Rightarrow> client \<Rightarrow> bool" where
  c_begin: "gcalls c i = None \<Longrightarrow> client_step c (call_begin i req c)"
| c_connected: "in_phase c i gc C_Entered \<Longrightarrow> client_step c (call_connected i gc s c)"
| c_draw: "in_phase c i gc (C_Connected s) \<Longrightarrow> client_step c (call_draw i gc s c)"
| c_redraw: "in_phase c i gc (C_Zero s) \<Longrightarrow> client_step c (call_redraw i gc s c)"
| c_register: "in_phase c i gc (C_Tid s) \<Longrightarrow> client_step c (call_register i gc s c)"
| c_send: "in_phase c i gc (C_Registered s) \<Longrightarrow> client_step c (call_send i gc s err c)"
| c_receive: "in_phase c i gc C_Sent \<Longrightarrow> gc_ch gc = f # rest \<Longrightarrow>
    client_step c (call_receive i gc f rest c)"
| c_timeout: "in_phase c i gc C_Sent \<Longrightarrow> client_step c (call_timeout i gc c)"
| c_leave: "in_phase c i gc (C_Leaving r) \<Longrightarrow> client_step c (call_leave i gc r c)"
| c_incoming: "delivering c = None \<Longrightarrow> client_step c (client_incoming payload c)"
| c_deliver: "delivering c = Some (i, f) \<Longrightarrow> gcalls c i = Some gc \<Longrightarrow> length (gc_ch gc) < 1 \<Longrightarrow>
    client_step c (client_deliver i gc f c)"

definition client_init :: "client \<Rightarrow> bool" where
  "client_init c \<longleftrightarrow> c = NewClient"

section \<open>The invariant\<close>

fun registered :: "call_phase \<Rightarrow> bool" where
  "registered (C_Registered s) = True"
| "registered C_Sent = True"
| "registered (C_Leaving r) = True"
| "registered ph = False"

fun past_register :: "call_phase \<Rightarrow> bool" where
  "past_register (C_Returned r) = True"
| "past_register ph = registered ph"

fun answer_of :: "call_phase \<Rightarrow> frame list" where
  "answer_of (C_Leaving (Inr f)) = [f]"
| "answer_of (C_Returned (Inr f)) = [f]"
| "answer_of ph = []"

text \<open>
  One call: what it has received carries its TID and was seen by the dispatcher; it is
  registered, or has a frame on the way, or one in its channel, or one as its result, and
  never two of these.
\<close>

definition call_ok :: "client \<Rightarrow> nat \<Rightarrow> get_call \<Rightarrow> bool" where
  "call_ok c i gc \<longleftrightarrow>
     list_all (\<lambda>f. TID f = gc_tid gc \<and> f \<in> set (seen c)) (gc_ch gc @ answer_of (gc_phase gc)) \<and>
     length (gc_ch gc @ answer_of (gc_phase gc)) \<le> 1 \<and>
     (tid_pending c (gc_tid gc) = Some i \<longrightarrow>
        registered (gc_phase gc) \<and> gc_ch gc = [] \<and> answer_of (gc_phase gc) = []) \<and>
     (\<not> past_register (gc_phase gc) \<longrightarrow> gc_ch gc = [])"

definition client_inv :: "client \<Rightarrow> bool" where
  "client_inv c \<longleftrightarrow>
     (\<forall>i gc. gcalls c i = Some gc \<longrightarrow> call_ok c i gc) \<and>
     (\<forall>t i. tid_pending c t = Some i \<longrightarrow> (\<exists>gc. gcalls c i = Some gc \<and> gc_tid gc = t)) \<and>
     (\<forall>i f. delivering c = Some (i, f) \<longrightarrow>
        (\<exists>gc. gcalls c i = Some gc \<and> TID f = gc_tid gc \<and> f \<in> set (seen c) \<and> past_register (gc_phase gc)
           \<and> gc_ch gc = [] \<and> answer_of (gc_phase gc) = [] \<and> tid_pending c (gc_tid gc) \<noteq> Some i))"

lemma client_invD:
  assumes "client_inv c"
  shows "gcalls c i = Some gc \<Longrightarrow> call_ok c i gc"
    and "tid_pending c t = Some i \<Longrightarrow> \<exists>gc. gcalls c i = Some gc \<and> gc_tid gc = t"
    and "delivering c = Some (i, f) \<Longrightarrow>
        \<exists>gc. gcalls c i = Some gc \<and> TID f = gc_tid gc \<and> f \<in> set (seen c) \<and> past_register (gc_phase gc)
           \<and> gc_ch gc = [] \<and> answer_of (gc_phase gc) = [] \<and> tid_pending c (gc_tid gc) \<noteq> Some i"
  using assms by (simp_all add: client_inv_def)

text \<open>
  A step of call \<open>i\<close> that leaves the dispatcher alone: its own record changes, and the
  registration of its TID may.
\<close>

lemma client_inv_call:
  assumes inv: "client_inv c"
    and old: "\<And>gc0. gcalls c i = Some gc0 \<Longrightarrow>
      (gc_tid gc = gc_tid gc0 \<or> \<not> past_register (gc_phase gc0))
      \<and> (past_register (gc_phase gc0) \<longrightarrow> past_register (gc_phase gc))
      \<and> (gc_ch gc0 = [] \<and> answer_of (gc_phase gc0) = [] \<longrightarrow>
           gc_ch gc = [] \<and> answer_of (gc_phase gc) = [])"
    and pend: "\<And>t j. p t = Some j \<Longrightarrow> tid_pending c t = Some j \<or> t = gc_tid gc \<and> j = i"
    and pend_i: "\<And>t. tid_pending c t = Some i \<Longrightarrow> t = gc_tid gc"
    and deliver: "\<And>f. delivering c = Some (i, f) \<Longrightarrow> p (gc_tid gc) \<noteq> Some i"
    and new: "call_ok (c\<lparr>tid_pending := p\<rparr>) i gc"
  shows "client_inv (set_call i gc (c\<lparr>tid_pending := p\<rparr>))"
proof -
  let ?c = "set_call i gc (c\<lparr>tid_pending := p\<rparr>)"
  note set_call_def [simp]
  have "call_ok ?c j gc'" if "gcalls ?c j = Some gc'" for j gc'
  proof (cases "j = i")
    case True
    with that new show ?thesis by (simp add: call_ok_def)
  next
    case False
    with that have "call_ok c j gc'" using client_invD(1) [OF inv] by simp
    with False pend show ?thesis by (fastforce simp: call_ok_def)
  qed
  moreover have "\<exists>gc'. gcalls ?c j = Some gc' \<and> gc_tid gc' = t" if "tid_pending ?c t = Some j" for t j
    using that pend [of t j] pend_i [of t] client_invD(2) [OF inv, of t j] by (cases "j = i") auto
  moreover have "\<exists>gc'. gcalls ?c j = Some gc' \<and> TID f = gc_tid gc' \<and> f \<in> set (seen ?c)
      \<and> past_register (gc_phase gc') \<and> gc_ch gc' = [] \<and> answer_of (gc_phase gc') = []
      \<and> tid_pending ?c (gc_tid gc') \<noteq> Some j" if d: "delivering ?c = Some (j, f)" for j f
  proof -
    from d obtain gc0 where gc0: "gcalls c j = Some gc0" "TID f = gc_tid gc0" "f \<in> set (seen c)"
      "past_register (gc_phase gc0)" "gc_ch gc0 = []" "answer_of (gc_phase gc0) = []"
      "tid_pending c (gc_tid gc0) \<noteq> Some j"
      using client_invD(3) [OF inv, of j f] by auto
    show ?thesis
    proof (cases "j = i")
      case True
      with gc0 old [of gc0] deliver [of f] d show ?thesis by auto
    next
      case False
      with gc0 pend [of "gc_tid gc0" j] show ?thesis by auto
    qed
  qed
  ultimately show ?thesis unfolding client_inv_def by blast
qed

lemma client_inv_frame [simp]:
  "client_inv (c\<lparr>tid_ctr := n\<rparr>) = client_inv c" "client_inv (c\<lparr>outbox := ob\<rparr>) = client_inv c"
  by (simp_all add: client_inv_def call_ok_def)

lemma client_inv_set_call:
  assumes inv: "client_inv c"
    and old: "\<And>gc0. gcalls c i = Some gc0 \<Longrightarrow>
      (gc_tid gc = gc_tid gc0 \<or> \<not> past_register (gc_phase gc0))
      \<and> (past_register (gc_phase gc0) \<longrightarrow> past_register (gc_phase gc))
      \<and> (gc_ch gc0 = [] \<and> answer_of (gc_phase gc0) = [] \<longrightarrow>
           gc_ch gc = [] \<and> answer_of (gc_phase gc) = [])"
    and pend_i: "\<And>t. tid_pending c t = Some i \<Longrightarrow> t = gc_tid gc"
    and new: "call_ok c i gc"
  shows "client_inv (set_call i gc c)"
proof -
  have same: "c\<lparr>tid_pending := tid_pending c\<rparr> = c" by simp
  have "client_inv (set_call i gc (c\<lparr>tid_pending := tid_pending c\<rparr>))"
  proof (rule client_inv_call [OF inv old _ pend_i])
    show "tid_pending c (gc_tid gc) \<noteq> Some i" if d: "delivering c = Some (i, f)" for f
    proof
      assume p: "tid_pending c (gc_tid gc) = Some i"
      obtain gc0 where "gcalls c i = Some gc0" "tid_pending c (gc_tid gc0) \<noteq> Some i"
        using client_invD(3) [OF inv d] by blast
      with client_invD(2) [OF inv p] p show False by auto
    qed
  qed (simp_all add: same new)
  then show ?thesis by (simp only: same)
qed

lemma registered_past [simp]: "registered ph \<Longrightarrow> past_register ph"
  by (cases ph) simp_all

text \<open>A call that has not registered has no registration; one that is past it keeps its TID.\<close>

lemma unregistered:
  assumes "client_inv c" "gcalls c i = Some gc" "\<not> registered (gc_phase gc)"
  shows "tid_pending c t \<noteq> Some i"
proof
  assume t: "tid_pending c t = Some i"
  then have "gc_tid gc = t" using client_invD(2) [OF assms(1) t] assms(2) by auto
  with client_invD(1) [OF assms(1,2)] t assms(3) show False by (simp add: call_ok_def)
qed

lemma registered_tid:
  "client_inv c \<Longrightarrow> gcalls c i = Some gc \<Longrightarrow> tid_pending c t = Some i \<Longrightarrow> t = gc_tid gc"
  using client_invD(2) by fastforce

text \<open>A step inside one call before it registers.\<close>

lemma client_inv_early:
  assumes "client_inv c" "gcalls c i = Some gc0" "\<not> past_register (gc_phase gc0)"
    and "gc_ch gc = []" "answer_of (gc_phase gc) = []" "\<And>t. tid_pending c t \<noteq> Some i"
  shows "client_inv (set_call i gc c)"
  using assms by (intro client_inv_set_call) (auto simp: call_ok_def)

lemma early_phase:
  assumes "client_inv c" "in_phase c i gc ph" "\<not> past_register ph"
  shows "gcalls c i = Some gc" "\<not> past_register (gc_phase gc)" "gc_ch gc = []"
    "tid_pending c t \<noteq> Some i"
proof -
  show gc: "gcalls c i = Some gc" "\<not> past_register (gc_phase gc)"
    using assms(2,3) by (simp_all add: in_phase_def)
  then show "gc_ch gc = []" using client_invD(1) [OF assms(1)] by (simp add: call_ok_def)
  have "\<not> registered (gc_phase gc)" using gc(2) by (cases "gc_phase gc") auto
  with assms(1) gc(1) show "tid_pending c t \<noteq> Some i" by (rule unregistered)
qed

lemma call_begin_inv:
  assumes "client_inv c" "gcalls c i = None"
  shows "client_inv (call_begin i req c)"
proof -
  have "tid_pending c t \<noteq> Some i" for t using client_invD(2) [OF assms(1), of t i] assms(2) by auto
  then show ?thesis
    using assms unfolding call_begin_def
    by (intro client_inv_set_call) (auto simp: call_ok_def)
qed

lemma call_early_inv:
  assumes "client_inv c"
  shows "in_phase c i gc C_Entered \<Longrightarrow> client_inv (call_connected i gc sn c)"
    and "in_phase c i gc (C_Connected s) \<Longrightarrow> client_inv (call_draw i gc s c)"
    and "in_phase c i gc (C_Zero s) \<Longrightarrow> client_inv (call_redraw i gc s c)"
  using assms early_phase [OF assms]
  by (auto simp: call_connected_def call_draw_def call_redraw_def Let_def split: option.split
      intro!: client_inv_early)

lemma call_register_inv:
  assumes "client_inv c" "in_phase c i gc (C_Tid s)"
  shows "client_inv (call_register i gc s c)"
proof -
  note e = early_phase [OF assms, simplified]
  have "delivering c \<noteq> Some (i, f)" for f
    using client_invD(3) [OF assms(1), of i f] e(1,2) by auto
  then show ?thesis
    using e unfolding call_register_def
    by (intro client_inv_call [OF assms(1)]) (auto simp: call_ok_def split: if_splits)
qed

lemma call_late_inv:
  assumes "client_inv c"
  shows "in_phase c i gc (C_Registered s) \<Longrightarrow> client_inv (call_send i gc s err c)"
    and "in_phase c i gc C_Sent \<Longrightarrow> client_inv (call_timeout i gc c)"
    and "in_phase c i gc C_Sent \<Longrightarrow> gc_ch gc = f # rest \<Longrightarrow> client_inv (call_receive i gc f rest c)"
proof -
  note ok = client_invD(1) [OF assms] and tid = registered_tid [OF assms]
  have phase: "client_inv (set_call i (gc\<lparr>gc_phase := ph\<rparr>) c')"
    if "in_phase c i gc ph0" "registered ph0" "answer_of ph0 = []" "registered ph" "answer_of ph = []"
      "client_inv c'" "gcalls c' = gcalls c" "tid_pending c' = tid_pending c" "seen c' = seen c"
    for ph ph0 c'
  proof (rule client_inv_set_call [OF that(6)])
    have gc: "gcalls c i = Some gc" using that(1) by (simp add: in_phase_def)
    show "t = gc_tid (gc\<lparr>gc_phase := ph\<rparr>)" if "tid_pending c' t = Some i" for t
      using tid [OF gc, of t] that \<open>tid_pending c' = tid_pending c\<close> by simp
    show "call_ok c' i (gc\<lparr>gc_phase := ph\<rparr>)"
      using ok [OF gc] that by (simp add: call_ok_def in_phase_def)
  qed (use that in \<open>simp add: in_phase_def\<close>)
  show "client_inv (call_send i gc s err c)" if "in_phase c i gc (C_Registered s)"
    using that assms by (cases err) (auto simp: call_send_def intro!: phase)
  show "client_inv (call_timeout i gc c)" if "in_phase c i gc C_Sent"
    using that assms by (auto simp: call_timeout_def intro!: phase)
  show "client_inv (call_receive i gc f rest c)" if "in_phase c i gc C_Sent" "gc_ch gc = f # rest"
    unfolding call_receive_def
  proof (rule client_inv_set_call [OF assms])
    have gc: "gcalls c i = Some gc" using that(1) by (simp add: in_phase_def)
    show "t = gc_tid (gc\<lparr>gc_ch := rest, gc_phase := C_Leaving (Inr f)\<rparr>)"
      if "tid_pending c t = Some i" for t using tid [OF gc that] by simp
    show "call_ok c i (gc\<lparr>gc_ch := rest, gc_phase := C_Leaving (Inr f)\<rparr>)"
      using ok [OF gc] that by (auto simp: call_ok_def in_phase_def)
  qed (use that in \<open>auto simp: in_phase_def\<close>)
qed

lemma call_leave_inv:
  assumes "client_inv c" "in_phase c i gc (C_Leaving r)"
  shows "client_inv (call_leave i gc r c)"
proof -
  have gc: "gcalls c i = Some gc" "gc_phase gc = C_Leaving r" using assms(2) by (simp_all add: in_phase_def)
  have "answer_of (C_Returned r) = answer_of (C_Leaving r)" by (cases r) simp_all
  then show ?thesis
    using gc client_invD(1) [OF assms(1) gc(1)] registered_tid [OF assms(1) gc(1)]
    unfolding call_leave_def
    by (intro client_inv_call [OF assms(1)]) (auto simp: call_ok_def split: if_splits)
qed

lemma call_ok_seen: "call_ok c i gc \<Longrightarrow> call_ok (c\<lparr>seen := seen c @ [f]\<rparr>) i gc"
  by (auto simp: call_ok_def list_all_iff)

lemma client_inv_seen: "client_inv c \<Longrightarrow> client_inv (c\<lparr>seen := seen c @ [f]\<rparr>)"
  using call_ok_seen by (fastforce simp: client_inv_def)

lemma client_incoming_inv:
  assumes "client_inv c" "delivering c = None"
  shows "client_inv (client_incoming payload c)"
proof (cases "decode payload")
  case (Inl e)
  with assms show ?thesis by (simp add: client_incoming_def)
next
  case (Inr f)
  let ?c = "c\<lparr>seen := seen c @ [f]\<rparr>"
  have inv: "client_inv ?c" using assms(1) by (rule client_inv_seen)
  show ?thesis
  proof (cases "tid_pending c (TID f)")
    case None
    with Inr inv show ?thesis by (simp add: client_incoming_def Let_def)
  next
    case (Some i)
    let ?d = "?c\<lparr>tid_pending := (tid_pending c)(TID f := None), delivering := Some (i, f)\<rparr>"
    obtain gc where gc: "gcalls c i = Some gc" "gc_tid gc = TID f"
      using client_invD(2) [OF assms(1) Some] by blast
    then have ok: "registered (gc_phase gc)" "gc_ch gc = []" "answer_of (gc_phase gc) = []"
      using client_invD(1) [OF assms(1) gc(1)] Some by (auto simp: call_ok_def)
    have "call_ok ?d j g" if "gcalls ?d j = Some g" for j g
      using that client_invD(1) [OF inv, of j g] by (auto simp: call_ok_def)
    moreover have "\<exists>g. gcalls ?d j = Some g \<and> gc_tid g = t" if "tid_pending ?d t = Some j" for t j
      using that client_invD(2) [OF assms(1), of t j] by (auto split: if_splits)
    ultimately have "client_inv ?d"
      using gc ok by (auto simp: client_inv_def)
    with Inr Some show ?thesis by (simp add: client_incoming_def Let_def)
  qed
qed

lemma client_deliver_inv:
  assumes "client_inv c" "delivering c = Some (i, f)" "gcalls c i = Some gc"
  shows "client_inv (client_deliver i gc f c)"
proof -
  have d: "TID f = gc_tid gc" "f \<in> set (seen c)" "past_register (gc_phase gc)" "gc_ch gc = []"
    "answer_of (gc_phase gc) = []" "tid_pending c (gc_tid gc) \<noteq> Some i"
    using client_invD(3) [OF assms(1,2)] assms(3) by auto
  let ?c = "client_deliver i gc f c"
  have "call_ok ?c j g" if "gcalls ?c j = Some g" for j g
    using that d client_invD(1) [OF assms(1), of j g]
    by (cases "j = i") (auto simp: client_deliver_def set_call_def call_ok_def)
  moreover have "\<exists>g. gcalls ?c j = Some g \<and> gc_tid g = t" if "tid_pending ?c t = Some j" for t j
    using that client_invD(2) [OF assms(1), of t j] assms(3)
    by (cases "j = i") (auto simp: client_deliver_def set_call_def)
  ultimately show ?thesis by (auto simp: client_inv_def client_deliver_def)
qed

interpretation client: step_system client_init client_step client_inv
proof unfold_locales
  show "client_inv c" if "client_init c" for c
    using that by (simp add: client_init_def client_inv_def NewClient_def)
  show "client_inv c'" if "client_inv c" "client_step c c'" for c c'
    using that(2,1)
    by (induction rule: client_step.induct)
      (simp_all add: call_begin_inv call_early_inv call_register_inv call_late_inv call_leave_inv
        client_incoming_inv client_deliver_inv)
qed

section \<open>Transaction IDs do not repeat\<close>

lemma tid_of_add: "tid_of (tid_add ctr) = tid_of ctr + 1"
  by (simp add: tid_of_def tid_add_def unsigned_ucast_eq unsigned_of_int word_uint_eq_iff
      uint_word_ariths take_bit_eq_mod mod_simps mod_mod_cancel)

lemma unat_u16_less: "unat (t :: u16) < 65536"
  by (rule order_less_le_trans, rule unsigned_less) simp

lemma unat_u16_succ: "unat (t + 1 :: u16) = (if unat t = 65535 then 0 else unat t + 1)"
  using unat_u16_less [of t] by (auto simp: unat_word_ariths)

lemma next_tid_cycle:
  "unat (fst (next_tid ctr)) = unat (tid_of ctr) mod 65535 + 1
    \<and> tid_of (snd (next_tid ctr)) = fst (next_tid ctr)"
proof (cases "tid_of (tid_add ctr) = 0")
  case True
  then have "unat (tid_of ctr + 1) = 0" by (simp add: tid_of_add)
  then have "unat (tid_of ctr) = 65535" by (simp only: unat_u16_succ split: if_splits)
  with True show ?thesis by (simp add: next_tid_def Let_def tid_of_add)
next
  case False
  then have "unat (tid_of ctr + 1) \<noteq> 0" by (metis tid_of_add unat_eq_zero)
  then have u: "unat (tid_of ctr + 1) = unat (tid_of ctr) + 1" "unat (tid_of ctr) \<noteq> 65535"
    by (simp_all only: unat_u16_succ split: if_splits) auto
  then have "unat (tid_of ctr) < 65535" using unat_u16_less [of "tid_of ctr"] by simp
  with False u show ?thesis by (simp add: next_tid_def Let_def tid_of_add)
qed

text \<open>\<open>n\<close> calls one after the other: the TIDs they draw.\<close>

fun draw_tids :: "nat \<Rightarrow> u32 \<Rightarrow> u16 list" where
  "draw_tids 0 ctr = []"
| "draw_tids (Suc n) ctr = fst (next_tid ctr) # draw_tids n (snd (next_tid ctr))"

lemma length_draw_tids [simp]: "length (draw_tids n ctr) = n"
  by (induction n arbitrary: ctr) simp_all

lemma draw_tids_nth:
  "j < n \<Longrightarrow> unat (draw_tids n ctr ! j) = (unat (tid_of ctr) + j) mod 65535 + 1"
proof (induction n arbitrary: ctr j)
  case (Suc n)
  show ?case
  proof (cases j)
    case 0
    then show ?thesis using next_tid_cycle [of ctr] by simp
  next
    case (Suc k)
    then have "unat (draw_tids n (snd (next_tid ctr)) ! k) =
        (unat (fst (next_tid ctr)) + k) mod 65535 + 1"
      using Suc.IH [of k "snd (next_tid ctr)"] Suc.prems next_tid_cycle [of ctr] by simp
    also have "unat (fst (next_tid ctr)) + k = unat (tid_of ctr) mod 65535 + j"
      using next_tid_cycle [of ctr] Suc by simp
    finally show ?thesis using Suc by (simp only: mod_add_left_eq nth_Cons_Suc draw_tids.simps)
  qed
qed simp

section \<open>A call and its answer\<close>

definition demo_call :: "call_phase \<Rightarrow> get_call" where
  "demo_call ph = \<lparr>gc_req = GetReq [0xE7, 0xE8, 0xE9], gc_tid = 2, gc_ch = [], gc_phase = ph\<rparr>"

definition demo_answer :: frame where
  "demo_answer = \<lparr>TID = 2, SEOJ = EOJSmartMeter, DEOJ = EOJController, ESV = ESVGetRes,
     Props = [\<lparr>EPC = 0xE7, EDT = [0, 0, 1, 0]\<rparr>]\<rparr>"

lemma decode_demo_answer: "decode (encode demo_answer) = Inr demo_answer"
  using decode_encode_take [of demo_answer "[]"] by (simp add: demo_answer_def wf_prop_def)

definition demo_client :: "call_phase \<Rightarrow> (u16 \<rightharpoonup> nat) \<Rightarrow> client" where
  "demo_client ph p =
     \<lparr>tid_ctr = 2, tid_pending = p, gcalls = [0 \<mapsto> demo_call ph], delivering = None, seen = [],
      outbox = []\<rparr>"

definition demo_matched :: client where
  "demo_matched =
     (demo_client C_Sent Map.empty)\<lparr>delivering := Some (0, demo_answer), seen := [demo_answer],
        outbox := [(MeterIP demo_session, request_payload (demo_call C_Sent))]\<rparr>"

lemmas client_ops = call_begin_def call_connected_def call_draw_def call_register_def call_send_def
  call_receive_def call_leave_def client_deliver_def set_call_def

lemma reachable_demo_registered:
  "reachable client_init client_step (demo_client (C_Registered demo_session) [2 \<mapsto> 0])"
proof -
  let ?r = "reachable client_init client_step"
  let ?call = "\<lambda>t ph. \<lparr>gc_req = GetReq [0xE7, 0xE8, 0xE9], gc_tid = t, gc_ch = [], gc_phase = ph\<rparr>"
  let ?c = "\<lambda>n t ph. NewClient\<lparr>tid_ctr := n, gcalls := [0 \<mapsto> ?call t ph]\<rparr>"
  have "?r NewClient" by (rule reachable.start) (simp add: client_init_def)
  then have "?r (call_begin 0 (GetReq [0xE7, 0xE8, 0xE9]) NewClient)"
    by (rule reachable.next_state) (rule c_begin; simp add: NewClient_def)
  then have "?r (?c 1 0 C_Entered)" by (simp add: client_ops NewClient_def)
  then have "?r (call_connected 0 (?call 0 C_Entered) (Some demo_session) (?c 1 0 C_Entered))"
    by (rule reachable.next_state) (rule c_connected; simp add: in_phase_def)
  then have "?r (?c 1 0 (C_Connected demo_session))" by (simp add: client_ops NewClient_def)
  then have "?r (call_draw 0 (?call 0 (C_Connected demo_session)) demo_session (?c 1 0 (C_Connected demo_session)))"
    by (rule reachable.next_state) (rule c_draw; simp add: in_phase_def)
  then have "?r (?c 2 2 (C_Tid demo_session))"
    by (simp add: client_ops NewClient_def Let_def tid_add_def tid_of_def)
  then have "?r (call_register 0 (?call 2 (C_Tid demo_session)) demo_session (?c 2 2 (C_Tid demo_session)))"
    by (rule reachable.next_state) (rule c_register; simp add: in_phase_def)
  then show ?thesis by (simp add: client_ops NewClient_def demo_client_def demo_call_def)
qed

lemma reachable_demo_matched: "reachable client_init client_step demo_matched"
proof -
  let ?r = "reachable client_init client_step"
  let ?reg = "demo_client (C_Registered demo_session) [2 \<mapsto> 0]"
  let ?sent = "call_send 0 (demo_call (C_Registered demo_session)) demo_session None ?reg"
  have "?r ?sent"
    by (rule reachable.next_state [OF reachable_demo_registered])
      (rule c_send; simp add: in_phase_def demo_client_def demo_call_def)
  then have "?r (client_incoming (encode demo_answer) ?sent)"
    by (rule reachable.next_state) (rule c_incoming; simp add: client_ops demo_client_def)
  moreover have "TID demo_answer = 2" by (simp add: demo_answer_def)
  ultimately show ?thesis
    by (simp add: client_incoming_def decode_demo_answer client_ops demo_client_def demo_call_def
        demo_matched_def Let_def request_payload_def)
qed

definition demo_done :: client where
  "demo_done =
     (demo_client (C_Returned (Inr demo_answer)) Map.empty)\<lparr>seen := [demo_answer],
        outbox := [(MeterIP demo_session, request_payload (demo_call C_Sent))]\<rparr>"

lemma reachable_demo_done: "reachable client_init client_step demo_done"
proof -
  let ?r = "reachable client_init client_step"
  let ?ch = "(demo_call C_Sent)\<lparr>gc_ch := [demo_answer]\<rparr>"
  have "?r (client_deliver 0 (demo_call C_Sent) demo_answer demo_matched)"
    by (rule reachable.next_state [OF reachable_demo_matched])
      (rule c_deliver; simp add: demo_matched_def demo_client_def demo_call_def)
  then have "?r (call_receive 0 ?ch demo_answer [] (client_deliver 0 (demo_call C_Sent) demo_answer demo_matched))"
    by (rule reachable.next_state)
      (rule c_receive; simp add: in_phase_def client_ops demo_matched_def demo_client_def demo_call_def)
  then have "?r (call_leave 0 (demo_call (C_Leaving (Inr demo_answer))) (Inr demo_answer)
      (call_receive 0 ?ch demo_answer [] (client_deliver 0 (demo_call C_Sent) demo_answer demo_matched)))"
    by (rule reachable.next_state)
      (rule c_leave; simp add: in_phase_def client_ops demo_matched_def demo_client_def demo_call_def)
  moreover have "(\<lambda>_. None)(2 := None) = (\<lambda>_ :: u16. None :: nat option)" by auto
  ultimately show ?thesis
    by (simp add: client_ops demo_matched_def demo_client_def demo_call_def demo_done_def
        request_payload_def)
qed

section \<open>Properties\<close>

text \<open>
  A call returns its own answer: whatever frames arrive in whatever order, and however
  \<open>Get\<close> and \<open>SetC\<close> calls interleave, time out and wrap around the TID space, a frame that a
  call returns was received by the dispatcher and carries the TID of that call's
  request (the only part of the frame that is compared: not the sender, the objects or ESV).
\<close>

theorem answer_matches_request:
  assumes "reachable client_init client_step c" "gcalls c i = Some gc"
    and "gc_phase gc = C_Returned (Inr f)"
  shows "f \<in> set (seen c) \<and> TID f = gc_tid gc"
  using client_invD(1) [OF client.reachable_invar [OF assms(1)] assms(2)] assms(3)
  by (simp add: call_ok_def)

theorem answer_matches_request_witness: "demo_answer \<in> set (seen demo_done) \<and> TID demo_answer = 2"
  using answer_matches_request [OF reachable_demo_done, of 0 "demo_call (C_Returned (Inr demo_answer))"]
  by (simp add: demo_done_def demo_client_def demo_call_def)

text \<open>
  The dispatcher never blocks on a call: whenever it has matched a frame to a call, the
  call's channel (capacity 1) is empty and the call is no longer registered, so the send
  \<open>ch <- &f\<close> always proceeds, even when the call has already given up.
\<close>

theorem dispatcher_never_blocks:
  assumes "reachable client_init client_step c" "delivering c = Some (i, f)"
  shows "\<exists>gc. gcalls c i = Some gc \<and> client_step c (client_deliver i gc f c)
    \<and> gc_ch gc = [] \<and> tid_pending c (gc_tid gc) \<noteq> Some i"
proof -
  obtain gc where gc: "gcalls c i = Some gc" "gc_ch gc = []" "tid_pending c (gc_tid gc) \<noteq> Some i"
    using client_invD(3) [OF client.reachable_invar [OF assms(1)] assms(2)] by blast
  then have "client_step c (client_deliver i gc f c)"
    using assms(2) by (intro c_deliver) simp_all
  with gc show ?thesis by blast
qed

theorem dispatcher_never_blocks_witness:
  "\<exists>gc. client_step demo_matched (client_deliver 0 gc demo_answer demo_matched)"
  using dispatcher_never_blocks [OF reachable_demo_matched, of 0 demo_answer]
  by (auto simp: demo_matched_def)

text \<open>
  Transaction IDs: calls that draw their TIDs one after the other never draw the
  reserved 0, and any 65,535 consecutive calls draw different TIDs, from any value of the
  32-bit counter, through its truncation to 16 bits and its wrap-around.
\<close>

theorem tids_distinct:
  assumes "n \<le> 65535"
  shows "distinct (draw_tids n ctr) \<and> list_all (\<lambda>t. t \<noteq> 0) (draw_tids n ctr)"
proof
  show "list_all (\<lambda>t. t \<noteq> 0) (draw_tids n ctr)"
    using draw_tids_nth [of _ n ctr] by (force simp: list_all_length)
  show "distinct (draw_tids n ctr)"
    unfolding distinct_conv_nth
  proof (intro allI impI)
    fix i j assume ij: "i < length (draw_tids n ctr)" "j < length (draw_tids n ctr)" "i \<noteq> j"
    let ?k = "unat (tid_of ctr)"
    show "draw_tids n ctr ! i \<noteq> draw_tids n ctr ! j"
    proof
      assume "draw_tids n ctr ! i = draw_tids n ctr ! j"
      then have "(?k + i) mod 65535 = (?k + j) mod 65535"
        using ij draw_tids_nth [of i n ctr] draw_tids_nth [of j n ctr] by simp
      then have "(int ?k + int i) mod 65535 = (int ?k + int j) mod 65535"
        by (simp only: of_nat_eq_iff zmod_int of_nat_add of_nat_numeral flip: of_nat_eq_iff [where 'a = int])
      then have "(int ?k + int i - int ?k) mod 65535 = (int ?k + int j - int ?k) mod 65535"
        by (rule mod_diff_cong) simp
      then have "int i mod 65535 = int j mod 65535" by simp
      with ij assms show False by simp
    qed
  qed
qed

theorem tids_distinct_witness: "distinct (draw_tids 3 0xFFFE) \<and> list_all (\<lambda>t. t \<noteq> 0) (draw_tids 3 0xFFFE)"
  by (rule tids_distinct) simp

end
