(* ===== verification/System_Stack.thy ===== *)
theory System_Stack
  imports Sk_Driver_Safety Broute_Supervise Meter_Client
begin

text \<open>
  The communication stack as one system: the driver, the B-route manager and the meter client
  with the channels between them (\<open>drv.Events()\<close>, read by \<open>dispatchEvents\<close>; \<open>Incoming()\<close>,
  read by the client's \<open>Run\<close>; \<open>WaitConnected\<close>, called by \<open>Get\<close> and \<open>SetC\<close>). What the
  components take from their neighbours is no longer an arbitrary input, so a reply can be
  followed back to the line it came in on.
\<close>

section \<open>The system\<close>

text \<open>\<open>rx\<close> logs the lines the reader goroutine has handled.\<close>

record stack =
  drv_of :: driver
  mgr_of :: manager
  cli_of :: client
  rx :: "string list"

definition stack_start :: "int \<Rightarrow> broute_config \<Rightarrow> stack" where
  "stack_start eventBuf cfg =
     \<lparr>drv_of = new_driver eventBuf, mgr_of = NewManager cfg, cli_of = NewClient, rx = []\<rparr>"

text \<open>
  The steps a component makes alone: they do not touch the channels it shares with the next
  one. For the driver these are the callers of \<open>command\<close> and \<open>Close\<close>, and the end of the reader,
  but not the handling of a line; for the manager, the supervisor and the callers of
  \<open>WaitConnected\<close> (\<open>mgr_alone\<close>); for the client, the calls that do not wait for a session.
\<close>

definition drv_alone :: "driver \<Rightarrow> driver \<Rightarrow> bool" where
  "drv_alone d d' \<longleftrightarrow> drv_step d d' \<and> events d' = events d \<and> (\<forall>line. d' \<noteq> read_line line d)"

definition cli_alone :: "client \<Rightarrow> client \<Rightarrow> bool" where
  "cli_alone c c' \<longleftrightarrow> client_step c c' \<and> seen c' = seen c \<and>
     (\<forall>i gc. in_phase c i gc C_Entered \<longrightarrow> gcalls c' i = Some gc)"

text \<open>\<open>case ev := <-events\<close> of \<open>dispatchEvents\<close>, and the end of the channel.\<close>

definition take_event :: "instant \<Rightarrow> event \<Rightarrow> event list \<Rightarrow> stack \<Rightarrow> stack" where
  "take_event now ev evs s =
     s\<lparr>drv_of := (drv_of s)\<lparr>events := evs\<rparr>, mgr_of := handleEvent now ev (mgr_of s)\<rparr>"

text \<open>\<open>case in := <-incoming\<close> of the client's \<open>Run\<close>.\<close>

definition take_incoming :: "incoming \<Rightarrow> incoming list \<Rightarrow> stack \<Rightarrow> stack" where
  "take_incoming inc q s =
     s\<lparr>mgr_of := (mgr_of s)\<lparr>incoming_q := q\<rparr>, cli_of := client_incoming (Payload inc) (cli_of s)\<rparr>"

text \<open>The return of \<open>WaitConnected\<close> to a call; the caller and the waiter have one number.\<close>

definition waiter_result :: "manager \<Rightarrow> nat \<Rightarrow> session option option" where
  "waiter_result m i =
     (case waiters m i of Some (Got s) \<Rightarrow> Some (Some s) | Some Gave_Up \<Rightarrow> Some None | _ \<Rightarrow> None)"

inductive stack_step :: "stack \<Rightarrow> stack \<Rightarrow> bool" where
  s_driver: "drv_alone (drv_of s) d \<Longrightarrow> stack_step s (s\<lparr>drv_of := d\<rparr>)"
| s_read: "\<not> reader_done (drv_of s) \<Longrightarrow>
    stack_step s (s\<lparr>drv_of := read_line line (drv_of s), rx := rx s @ [line]\<rparr>)"
| s_event: "disp_at (mgr_of s) = Dispatching \<Longrightarrow> events (drv_of s) = ev # evs \<Longrightarrow>
    stack_step s (take_event now ev evs s)"
| s_events_closed: "disp_at (mgr_of s) = Dispatching \<Longrightarrow> events (drv_of s) = [] \<Longrightarrow>
    events_closed (drv_of s) \<Longrightarrow> stack_step s (s\<lparr>mgr_of := dispatch_closed (mgr_of s)\<rparr>)"
| s_manager: "mgr_alone (mgr_of s) m \<Longrightarrow> stack_step s (s\<lparr>mgr_of := m\<rparr>)"
| s_incoming: "delivering (cli_of s) = None \<Longrightarrow> incoming_q (mgr_of s) = inc # q \<Longrightarrow>
    stack_step s (take_incoming inc q s)"
| s_session: "in_phase (cli_of s) i gc C_Entered \<Longrightarrow> waiter_result (mgr_of s) i = Some r \<Longrightarrow>
    stack_step s (s\<lparr>cli_of := call_connected i gc r (cli_of s)\<rparr>)"
| s_client: "cli_alone (cli_of s) c \<Longrightarrow> stack_step s (s\<lparr>cli_of := c\<rparr>)"

definition stack_init :: "stack \<Rightarrow> bool" where
  "stack_init s \<longleftrightarrow> (\<exists>n cfg. s = stack_start n cfg)"

text \<open>Handling a line always logs it, ends no goroutine and moves no caller.\<close>

lemma answer_frame:
  "reader_done (completePending ok code err d) = reader_done d"
  "phase_of (completePending ok code err d) i = phase_of d i" "dlog (completePending ok code err d) = dlog d"
  "reader_done (response_line l d) = reader_done d" "phase_of (response_line l d) i = phase_of d i"
  "prefix (dlog d) (dlog (response_line l d))"
  by (auto simp: completePending_def response_line_def send_done_def phase_of_def split: option.split)

lemma dispatch_line_frame:
  "reader_done (dispatch_line l d) = reader_done d" "phase_of (dispatch_line l d) i = phase_of d i"
  "prefix (dlog d) (dlog (dispatch_line l d))"
  by (simp_all add: dispatch_line_def answer_frame) (simp_all add: phase_of_def)

lemma handleLine_frame:
  "reader_done (handleLine l d) = reader_done d" "phase_of (handleLine l d) i = phase_of d i"
  "prefix (dlog d) (dlog (handleLine l d))"
  by (auto simp: handleLine_def dispatch_line_frame split: option.split)
    (auto simp: phase_of_def dispatch_line_frame intro: prefix_order.trans [OF _ dispatch_line_frame(3)])

lemma read_line_frame:
  "reader_done (read_line l d) = reader_done d" "phase_of (read_line l d) i = phase_of d i"
  "dlog (read_line l d) \<noteq> dlog d"
  using handleLine_frame(3) [of "d\<lparr>dlog := dlog d @ [redactCredential l]\<rparr>" l]
  by (auto simp: read_line_def handleLine_frame prefix_def) (auto simp: phase_of_def)

lemma no_line:
  "dlog d' = dlog d \<Longrightarrow> d' \<noteq> read_line line d"
  "phase_of d' i \<noteq> phase_of d i \<Longrightarrow> d' \<noteq> read_line line d"
  "reader_done d' \<noteq> reader_done d \<Longrightarrow> d' \<noteq> read_line line d"
  using read_line_frame [of line d] by metis+

section \<open>Each component keeps to its own step relation\<close>

definition components_reachable :: "stack \<Rightarrow> bool" where
  "components_reachable s \<longleftrightarrow>
     reachable drv_init drv_step (drv_of s) \<and> reachable mgr_init mgr_step (mgr_of s) \<and>
     reachable client_init client_step (cli_of s)"

lemma handleEvent_step: "disp_at m = Dispatching \<Longrightarrow> mgr_step m (handleEvent now ev m)"
  by (rule m_event)

lemma stack_components:
  assumes "stack_step s t"
  shows "(drv_of t = drv_of s \<or> drv_step (drv_of s) (drv_of t)) \<and>
    (mgr_of t = mgr_of s \<or> mgr_step (mgr_of s) (mgr_of t)) \<and>
    (cli_of t = cli_of s \<or> client_step (cli_of s) (cli_of t))"
  using assms
  by (induction rule: stack_step.induct)
    (auto simp: drv_alone_def mgr_alone_def cli_alone_def take_event_def take_incoming_def
      simp del: dispatch_closed_def
      intro: drv_step.intros mgr_step.intros client_step.intros)

lemma components_step: "components_reachable s \<Longrightarrow> stack_step s t \<Longrightarrow> components_reachable t"
  using stack_components [of s t] unfolding components_reachable_def
  by (metis reachable.next_state)

lemma components_start: "stack_init s \<Longrightarrow> components_reachable s"
  by (auto simp: stack_init_def stack_start_def components_reachable_def drv_init_def mgr_init_def
      client_init_def intro!: reachable.start)

section \<open>Where a datagram comes from\<close>

definition from_line :: "string list \<Rightarrow> event \<Rightarrow> bool" where
  "from_line ls ev \<longleftrightarrow> Kind ev = ''ERXUDP'' \<longrightarrow>
     (\<exists>l \<in> set ls. has_prefix l ''ERXUDP '' \<and> ev = parseERXUDP l)"

definition datagram_of :: "string list \<Rightarrow> incoming \<Rightarrow> bool" where
  "datagram_of ls inc \<longleftrightarrow>
     (\<exists>l \<in> set ls. has_prefix l ''ERXUDP '' \<and> (\<exists>now. parseIncoming now (parseERXUDP l) = Some inc))"

definition frame_of_line :: "string list \<Rightarrow> frame \<Rightarrow> bool" where
  "frame_of_line ls f \<longleftrightarrow> (\<exists>inc. datagram_of ls inc \<and> decode (Payload inc) = Inr f)"

definition traced :: "stack \<Rightarrow> bool" where
  "traced s \<longleftrightarrow>
     (\<forall>ev \<in> set (events (drv_of s)). from_line (rx s) ev) \<and>
     (\<forall>inc \<in> set (incoming_q (mgr_of s)). datagram_of (rx s) inc) \<and>
     (\<forall>f \<in> set (seen (cli_of s)). frame_of_line (rx s) f)"

lemma traced_more:
  "from_line ls ev \<Longrightarrow> from_line (ls @ [l]) ev"
  "datagram_of ls inc \<Longrightarrow> datagram_of (ls @ [l]) inc"
  "frame_of_line ls f \<Longrightarrow> frame_of_line (ls @ [l]) f"
  unfolding from_line_def datagram_of_def frame_of_line_def by auto

lemma pushEvent_events: "x \<in> set (events (pushEvent ev d)) \<Longrightarrow> x = ev \<or> x \<in> set (events d)"
  by (auto simp: pushEvent_def Let_def split: if_splits dest: in_set_dropD)

lemma answer_keeps_events:
  "events (completePending ok fl err d) = events d" "events (response_line l d) = events d"
  by (auto simp: completePending_def response_line_def send_done_def split: option.split)

lemma other_kind: "has_prefix l ''ERXTCP '' \<or> has_prefix l ''ETIMER'' \<Longrightarrow> first_word l \<noteq> ''ERXUDP''"
  by (auto simp: first_word_def elim!: has_prefixE)

lemma dispatch_line_events:
  assumes "ev \<in> set (events (dispatch_line l d))"
  shows "ev \<in> set (events d) \<or> from_line [l] ev"
proof -
  have "ev \<in> set (events d) \<or> has_prefix l ''ERXUDP '' \<and> ev = parseERXUDP l \<or> Kind ev \<noteq> ''ERXUDP''"
    using assms other_kind [of l]
    by (auto simp: dispatch_line_def answer_keeps_events parseEvent_def Let_def
        split: if_splits dest!: pushEvent_events)
  then show ?thesis by (auto simp: from_line_def)
qed

lemma read_line_events:
  assumes "ev \<in> set (events (read_line l d))"
  shows "ev \<in> set (events d) \<or> from_line [l] ev"
proof -
  have "from_line [l] (buildEPANDESC b)" for b by (simp add: from_line_def buildEPANDESC_def)
  with assms show ?thesis
    by (auto simp: read_line_def handleLine_def split: option.splits if_splits
        dest!: dispatch_line_events pushEvent_events)
qed

lemma from_line_snoc: "from_line [l] ev \<Longrightarrow> from_line (ls @ [l]) ev"
  by (auto simp: from_line_def)

lemma notify_queue [simp]:
  "incoming_q (scanNotify ev m) = incoming_q m" "incoming_q (joinNotify ev m) = incoming_q m"
  "incoming_q (notifyDisconnect r m) = incoming_q m"
  by (auto simp: scanNotify_def joinNotify_def notifyDisconnect_def split: option.split)

lemma handleEvent_queue:
  assumes "inc \<in> set (incoming_q (handleEvent now ev m))" "inc \<notin> set (incoming_q m)"
  shows "Kind ev = ''ERXUDP'' \<and> parseIncoming now ev = Some inc"
  using assms
  by (auto simp: handleEvent_def handle_code_def push_incoming_def split: if_splits option.splits)

lemma client_incoming_seen:
  "f \<in> set (seen (client_incoming payload c)) \<Longrightarrow> f \<in> set (seen c) \<or> decode payload = Inr f"
  by (auto simp: client_incoming_def Let_def split: sum.splits option.splits)

lemma call_connected_seen [simp]: "seen (call_connected i gc r c) = seen c"
  by (auto simp: call_connected_def set_call_def split: option.split)

lemma traced_step: "stack_step s t \<Longrightarrow> traced s \<Longrightarrow> traced t"
proof (induction rule: stack_step.induct)
  case (s_read s line)
  then show ?case
    by (auto simp: traced_def traced_more from_line_snoc dest!: read_line_events)
next
  case (s_event s ev evs now)
  have "datagram_of (rx s) inc" if "inc \<in> set (incoming_q (handleEvent now ev (mgr_of s)))" for inc
  proof (cases "inc \<in> set (incoming_q (mgr_of s))")
    case True
    then show ?thesis using s_event by (simp add: traced_def)
  next
    case False
    with that have "Kind ev = ''ERXUDP'' \<and> parseIncoming now ev = Some inc" by (rule handleEvent_queue)
    moreover have "from_line (rx s) ev" using s_event by (simp add: traced_def)
    ultimately show ?thesis unfolding from_line_def datagram_of_def by blast
  qed
  with s_event show ?case by (simp add: traced_def take_event_def)
next
  case (s_incoming s inc q)
  then show ?case
    by (auto simp: traced_def take_incoming_def frame_of_line_def dest!: client_incoming_seen)
qed (auto simp: traced_def drv_alone_def mgr_alone_def undisturbed_def cli_alone_def)

definition stack_inv :: "stack \<Rightarrow> bool" where
  "stack_inv s \<longleftrightarrow> components_reachable s \<and> traced s"

interpretation stack: step_system stack_init stack_step stack_inv
proof unfold_locales
  show "stack_inv s" if "stack_init s" for s
    using that components_start [OF that]
    by (auto simp: stack_inv_def stack_init_def stack_start_def traced_def new_driver_def
        NewManager_def NewClient_def)
  show "stack_inv t" if "stack_inv s" "stack_step s t" for s t
    using that components_step [of s t] traced_step [of s t] by (simp add: stack_inv_def)
qed

section \<open>A request and its reply, through the whole stack\<close>

abbreviation stk :: "driver \<Rightarrow> manager \<Rightarrow> client \<Rightarrow> string list \<Rightarrow> stack" where
  "stk d m c ls \<equiv> \<lparr>drv_of = d, mgr_of = m, cli_of = c, rx = ls\<rparr>"

abbreviation stack_reach :: "stack \<Rightarrow> bool" where
  "stack_reach \<equiv> reachable stack_init stack_step"

text \<open>A step in which no request is made; paths of them, one step longer at a time.\<close>

definition quiet_step :: "stack \<Rightarrow> stack \<Rightarrow> bool" where
  "quiet_step s t \<longleftrightarrow> stack_step s t \<and> dom (gcalls (cli_of t)) = dom (gcalls (cli_of s))"

abbreviation quiet :: "stack \<Rightarrow> stack \<Rightarrow> bool" where
  "quiet \<equiv> quiet_step\<^sup>*\<^sup>*"

lemma quiet_more:
  "quiet s t \<Longrightarrow> stack_step t u \<Longrightarrow> dom (gcalls (cli_of u)) = dom (gcalls (cli_of t)) \<Longrightarrow> quiet s u"
  by (rule rtranclp.rtrancl_into_rtrancl) (simp_all add: quiet_step_def)

lemma quiet_steps: "quiet s t \<Longrightarrow> stack_step\<^sup>*\<^sup>* s t"
  by (rule rtranclp_mono [THEN predicate2D]) (auto simp: quiet_step_def)

lemma quiet_driver:
  "quiet s (stk d m c ls) \<Longrightarrow> drv_step d d' \<Longrightarrow> events d' = events d \<Longrightarrow> \<forall>line. d' \<noteq> read_line line d \<Longrightarrow>
    quiet s (stk d' m c ls)"
  using quiet_more [of s "stk d m c ls"] s_driver [of "stk d m c ls" d'] by (simp add: drv_alone_def)

lemma quiet_manager:
  "quiet s (stk d m c ls) \<Longrightarrow> mgr_step m m' \<Longrightarrow> undisturbed m m' \<Longrightarrow> quiet s (stk d m' c ls)"
  using quiet_more [of s "stk d m c ls"] s_manager [of "stk d m c ls" m'] by (simp add: mgr_alone_def)

lemma quiet_client:
  assumes "quiet s (stk d m c ls)" "client_step c c'" "seen c' = seen c"
    and "\<And>i gc. in_phase c i gc C_Entered \<Longrightarrow> gcalls c' i = Some gc" "dom (gcalls c') = dom (gcalls c)"
  shows "quiet s (stk d m c' ls)"
  using quiet_more [of s "stk d m c ls"] s_client [of "stk d m c ls" c'] assms by (simp add: cli_alone_def)

lemma call_connected_calls:
  "in_phase c i gc C_Entered \<Longrightarrow> dom (gcalls (call_connected i gc r c)) = dom (gcalls c)"
  by (auto simp: call_connected_def set_call_def in_phase_def split: option.split)

lemma quiet_session:
  "quiet s (stk d m c ls) \<Longrightarrow> in_phase c i gc C_Entered \<Longrightarrow> waiter_result m i = Some r \<Longrightarrow>
    quiet s (stk d m (call_connected i gc r c) ls)"
  using quiet_more [of s "stk d m c ls" "stk d m (call_connected i gc r c) ls"] s_session [of "stk d m c ls" i gc r]
  by (simp add: call_connected_calls)

lemma quiet_read:
  "quiet s (stk d m c ls) \<Longrightarrow> \<not> reader_done d \<Longrightarrow> quiet s (stk (read_line l d) m c (ls @ [l]))"
  using quiet_more [of s "stk d m c ls"] s_read [of "stk d m c ls" l] by simp

lemma quiet_event:
  "quiet s (stk d m c ls) \<Longrightarrow> disp_at m = Dispatching \<Longrightarrow> events d = ev # evs \<Longrightarrow>
    quiet s (stk (d\<lparr>events := evs\<rparr>) (handleEvent now ev m) c ls)"
  using quiet_more [of s "stk d m c ls"] s_event [of "stk d m c ls" ev evs now] by (simp add: take_event_def)

lemma client_incoming_calls [simp]: "gcalls (client_incoming payload c) = gcalls c"
  by (auto simp: client_incoming_def Let_def split: sum.split option.split)

lemma quiet_incoming:
  "quiet s (stk d m c ls) \<Longrightarrow> delivering c = None \<Longrightarrow> incoming_q m = inc # q \<Longrightarrow>
    quiet s (stk d (m\<lparr>incoming_q := q\<rparr>) (client_incoming (Payload inc) c) ls)"
  using quiet_more [of s "stk d m c ls"] s_incoming [of "stk d m c ls" inc q] by (simp add: take_incoming_def)

text \<open>
  The way of a reply up the stack, from a state in which nothing else is under way.
\<close>

definition stack_idle :: "stack \<Rightarrow> bool" where
  "stack_idle s \<longleftrightarrow>
     \<not> reader_done (drv_of s) \<and> epan_buf (drv_of s) = None \<and> events (drv_of s) = [] \<and> 0 < event_cap (drv_of s) \<and>
     disp_at (mgr_of s) = Dispatching \<and> incoming_q (mgr_of s) = [] \<and> delivering (cli_of s) = None"

lemma read_erxudp:
  assumes "has_prefix l ''ERXUDP ''" "epan_buf d = None" "events d = []" "0 < event_cap d"
  shows "events (read_line l d) = [parseERXUDP l]"
proof -
  obtain r where "l = ''ERXUDP '' @ r" using assms(1) by (rule has_prefixE)
  with assms(2-) show ?thesis
    by (simp add: read_line_def handleLine_def dispatch_line_def is_ok_line_def has_prefix_def pushEvent_def)
qed

lemma parseERXUDP_kind: "Kind (parseERXUDP l) = ''ERXUDP''"
  by (simp add: parseERXUDP_def Let_def split: option.split)

lemma answer_delivered:
  assumes "stack_idle (stk d m c ls)" "has_prefix l ''ERXUDP ''"
    and "parseIncoming now (parseERXUDP l) = Some inc" "decode (Payload inc) = Inr f"
    and "tid_pending c (TID f) = Some i"
  shows "\<exists>d' m'. quiet (stk d m c ls) (stk d' m'
    (c\<lparr>seen := seen c @ [f], tid_pending := (tid_pending c)(TID f := None), delivering := Some (i, f)\<rparr>) (ls @ [l]))"
proof -
  let ?d = "read_line l d" and ?m = "handleEvent now (parseERXUDP l) m"
  note idle = assms(1) [unfolded stack_idle_def, simplified]
  have "quiet (stk d m c ls) (stk ?d m c (ls @ [l]))"
    using idle by (intro quiet_read) simp_all
  then have "quiet (stk d m c ls) (stk (?d\<lparr>events := []\<rparr>) ?m c (ls @ [l]))"
    by (rule quiet_event) (simp_all add: read_erxudp [OF assms(2)] idle)
  moreover have "incoming_q ?m = [inc]"
    using idle by (simp add: handleEvent_def parseERXUDP_kind assms(3) push_incoming_def incoming_cap_def)
  ultimately have "quiet (stk d m c ls) (stk (?d\<lparr>events := []\<rparr>) (?m\<lparr>incoming_q := []\<rparr>)
      (client_incoming (Payload inc) c) (ls @ [l]))"
    using idle by (intro quiet_incoming) simp_all
  moreover have "client_incoming (Payload inc) c =
      c\<lparr>seen := seen c @ [f], tid_pending := (tid_pending c)(TID f := None), delivering := Some (i, f)\<rparr>"
    using assms(4,5) by (simp add: client_incoming_def Let_def)
  ultimately show ?thesis by auto
qed

lemma answer_taken:
  assumes "quiet s (stk d m c ls)" "delivering c = Some (i, f)"
    and "gcalls c i = Some gc" "gc_phase gc = C_Sent" "gc_ch gc = []"
  shows "\<exists>c'. quiet s (stk d m c' ls) \<and> gcalls c' i = Some (gc\<lparr>gc_phase := C_Returned (Inr f)\<rparr>)
    \<and> dom (gcalls c') = dom (gcalls c) \<and> delivering c' = None"
proof -
  let ?R = "\<lambda>c. quiet s (stk d m c ls)"
  let ?c1 = "client_deliver i gc f c"
  let ?g1 = "gc\<lparr>gc_ch := [f]\<rparr>"
  let ?c2 = "call_receive i ?g1 f [] ?c1"
  let ?g2 = "?g1\<lparr>gc_ch := [], gc_phase := C_Leaving (Inr f)\<rparr>"
  let ?c3 = "call_leave i ?g2 (Inr f) ?c2"
  note ops = in_phase_def client_ops assms(3-5)
  have "?R ?c1" using assms(1)
    by (rule quiet_client [OF _ c_deliver [of c i f gc]]) (use assms in \<open>auto simp: ops\<close>)
  then have "?R ?c2"
    by (rule quiet_client [OF _ c_receive]) (auto simp: ops)
  then have "?R ?c3"
    by (rule quiet_client [OF _ c_leave]) (auto simp: ops)
  moreover have "gc\<lparr>gc_ch := [], gc_phase := C_Returned (Inr f)\<rparr> = gc\<lparr>gc_phase := C_Returned (Inr f)\<rparr>"
    using assms(5) by (cases gc) simp
  ultimately show ?thesis
    using assms(3) by (intro exI [of _ ?c3]) (auto simp: client_ops)
qed

text \<open>A manager that has just installed a session, and a call's \<open>WaitConnected\<close> on it.\<close>

definition serving :: manager where
  "serving = (install_session demo_session (run_connected demo_session (run_top (NewManager demo_config))))
     \<lparr>run_at := Install_Signal\<rparr>"

definition served :: manager where
  "served = wait_look 0 (set_waiter 0 Looking serving)"

lemma served_fields: "disp_at served = Dispatching" "incoming_q served = []"
  "waiter_result served 0 = Some (Some demo_session)"
  by (simp_all add: served_def serving_def wait_look_def set_waiter_def waiter_result_def mgr_ops NewManager_def)

lemma stack_start_reach: "stack_reach (stack_start 64 demo_config)"
  by (rule reachable.start) (auto simp: stack_init_def)

lemma quiet_reach: "quiet (stack_start 64 demo_config) s \<Longrightarrow> stack_reach s"
  by (rule reachable_steps [OF stack_start_reach quiet_steps])

lemma path_serving: "quiet (stack_start 64 demo_config) (stk (new_driver 64) serving NewClient [])"
proof -
  let ?R = "\<lambda>m. quiet (stack_start 64 demo_config) (stk (new_driver 64) m NewClient [])"
  let ?m1 = "run_top (NewManager demo_config)"
  have "?R (NewManager demo_config)" by (simp add: stack_start_def)
  then have "?R ?m1" by (rule quiet_manager [OF _ m_top]) (simp_all add: NewManager_def mgr_ops undisturbed_def)
  then have "?R (run_connected demo_session ?m1)"
    by (rule quiet_manager [OF _ m_connected]) (simp_all add: NewManager_def mgr_ops undisturbed_def)
  then show ?thesis
    unfolding serving_def by (rule quiet_manager [OF _ m_install]) (simp_all add: mgr_ops undisturbed_def)
qed

lemma path_served: "quiet (stack_start 64 demo_config) (stk (new_driver 64) served NewClient [])"
proof -
  have "quiet (stack_start 64 demo_config) (stk (new_driver 64) (set_waiter 0 Looking serving) NewClient [])"
    by (rule quiet_manager [OF path_serving m_wait_begin])
      (simp_all add: serving_def NewManager_def mgr_ops set_waiter_def undisturbed_def)
  then show ?thesis unfolding served_def
    by (rule quiet_manager [OF _ m_wait_look])
      (simp_all add: set_waiter_def wait_look_def undisturbed_def split: option.split)
qed

text \<open>The first request of the collector, and the client after it was sent.\<close>

definition begun :: client where
  "begun = call_begin 0 (GetReq [0xE7, 0xE8, 0xE9]) NewClient"

definition asked :: client where
  "asked = (demo_client C_Sent [2 \<mapsto> 0])
     \<lparr>outbox := [(MeterIP demo_session, request_payload (demo_call C_Sent))]\<rparr>"

lemma path_asked: "quiet (stk (new_driver 64) served begun []) (stk (new_driver 64) served asked [])"
proof -
  let ?R = "\<lambda>c. quiet (stk (new_driver 64) served begun []) (stk (new_driver 64) served c [])"
  let ?call = "\<lambda>t ph. \<lparr>gc_req = GetReq [0xE7, 0xE8, 0xE9], gc_tid = t, gc_ch = [], gc_phase = ph\<rparr>"
  let ?c = "\<lambda>n t ph. NewClient\<lparr>tid_ctr := n, gcalls := [0 \<mapsto> ?call t ph]\<rparr>"
  have "?R (?c 1 0 C_Entered)" by (simp add: begun_def client_ops NewClient_def)
  then have "?R (call_connected 0 (?call 0 C_Entered) (Some demo_session) (?c 1 0 C_Entered))"
    by (rule quiet_session) (simp_all add: in_phase_def served_fields)
  then have "?R (?c 1 0 (C_Connected demo_session))" by (simp add: client_ops NewClient_def)
  then have "?R (call_draw 0 (?call 0 (C_Connected demo_session)) demo_session (?c 1 0 (C_Connected demo_session)))"
    by (rule quiet_client [OF _ c_draw]) (auto simp: in_phase_def client_ops Let_def split: if_splits)
  then have "?R (?c 2 2 (C_Tid demo_session))"
    by (simp add: client_ops NewClient_def Let_def tid_add_def tid_of_def)
  then have "?R (call_register 0 (?call 2 (C_Tid demo_session)) demo_session (?c 2 2 (C_Tid demo_session)))"
    by (rule quiet_client [OF _ c_register]) (auto simp: in_phase_def client_ops split: if_splits)
  then have "?R (demo_client (C_Registered demo_session) [2 \<mapsto> 0])"
    by (simp add: client_ops NewClient_def demo_client_def demo_call_def)
  then have "?R (call_send 0 (demo_call (C_Registered demo_session)) demo_session None
      (demo_client (C_Registered demo_session) [2 \<mapsto> 0]))"
    by (rule quiet_client [OF _ c_send]) (auto simp: in_phase_def client_ops demo_client_def demo_call_def split: if_splits)
  then show ?thesis
    by (simp add: client_ops demo_client_def demo_call_def asked_def request_payload_def)
qed

lemma begun_step: "stack_step (stk (new_driver 64) served NewClient []) (stk (new_driver 64) served begun [])"
proof -
  have "client_step NewClient begun"
    unfolding begun_def by (rule c_begin) (simp add: NewClient_def)
  then show ?thesis
    using s_client [of "stk (new_driver 64) served NewClient []" begun]
    by (simp add: cli_alone_def in_phase_def begun_def client_ops NewClient_def)
qed

lemma reach_asked: "stack_reach (stk (new_driver 64) served asked [])"
  by (rule reachable_steps [OF _ quiet_steps [OF path_asked]])
    (rule reachable.next_state [OF quiet_reach [OF path_served] begun_step])

text \<open>The reply on the wire, and its way up.\<close>

definition demo_line :: string where
  "demo_line = join_words (''ERXUDP'' # fmt_groups (replicate 16 1) # ''FE80'' #
     fmt_hex 4 (unat (3610 :: u16)) # [''0E1A'', ''A'', ''1'', ''0'', ''2''] @ [hex_encode (encode demo_answer)])"

definition demo_datagram :: incoming where
  "demo_datagram = \<lparr>SrcIP = replicate 16 1, SrcPort = 3610, Payload = encode demo_answer, ReceivedAt = 7\<rparr>"

lemma demo_line_parsed: "parseIncoming 7 (parseERXUDP demo_line) = Some demo_datagram"
  unfolding demo_line_def demo_datagram_def
  by (rule incoming_roundtrip) (simp_all add: ascii_text_def encode_def)

lemma demo_line_prefix: "has_prefix demo_line ''ERXUDP ''"
  by (simp add: demo_line_def has_prefix_def)

lemma asked_idle: "stack_idle (stk (new_driver 64) served asked [])"
  by (simp add: stack_idle_def served_fields new_driver_def asked_def demo_client_def)

lemma reach_returned:
  "\<exists>d m c. stack_reach (stk d m c [demo_line]) \<and> gcalls c 0 = Some (demo_call (C_Returned (Inr demo_answer)))"
proof -
  let ?s = "stk (new_driver 64) served asked []"
  have "decode (Payload demo_datagram) = Inr demo_answer"
    by (simp add: demo_datagram_def decode_demo_answer)
  moreover have "tid_pending asked (TID demo_answer) = Some 0"
    by (simp add: asked_def demo_client_def demo_answer_def)
  ultimately obtain d m c where up: "quiet ?s (stk d m c [demo_line])"
      "delivering c = Some (0, demo_answer)" "gcalls c = gcalls asked"
    using answer_delivered [OF asked_idle demo_line_prefix demo_line_parsed] by fastforce
  have "gcalls asked 0 = Some (demo_call C_Sent)" by (simp add: asked_def demo_client_def)
  then obtain c' where "quiet ?s (stk d m c' [demo_line])"
      "gcalls c' 0 = Some ((demo_call C_Sent)\<lparr>gc_phase := C_Returned (Inr demo_answer)\<rparr>)"
    using answer_taken [OF up(1,2), of "demo_call C_Sent"] by (auto simp: up(3)) (auto simp: demo_call_def)
  then show ?thesis
    using reachable_steps [OF reach_asked quiet_steps] by (auto simp: demo_call_def)
qed

section \<open>The end of the driver reaches the supervisor\<close>

lemma manager_steps:
  "mgr_alone\<^sup>*\<^sup>* m m' \<Longrightarrow> stack_step\<^sup>*\<^sup>* (stk d m c ls) (stk d m' c ls)"
proof (induction rule: rtranclp_induct)
  case (step m1 m2)
  have "stack_step (stk d m1 c ls) (stk d m2 c ls)"
    using s_manager [of "stk d m1 c ls" m2] step(2) by simp
  with step(3) show ?case by (rule rtranclp.rtrancl_into_rtrancl)
qed simp

lemma handleEvent_dispatching:
  "scan_ch m = None \<Longrightarrow> disp_at (handleEvent now ev m) = disp_at m"
  by (auto simp: handleEvent_def handle_code_def scanNotify_def joinNotify_def notifyDisconnect_def
      push_incoming_def split: option.split)

lemma handleEvent_reconnects [simp]: "reconnects (handleEvent now ev m) = reconnects m"
  by (auto simp: handleEvent_def handle_code_def scanNotify_def joinNotify_def notifyDisconnect_def
      push_incoming_def split: option.split)

lemma stack_manager_inv: "stack_reach (stk d m c ls) \<Longrightarrow> mgr_inv m"
  using stack.reachable_invar [of "stk d m c ls"] mgr.reachable_invar
  by (simp add: stack_inv_def components_reachable_def)

lemma drain_events:
  assumes "stack_reach (stk d m c ls)" "disp_at m = Dispatching" "run_at m = Await_Disconnect"
  shows "\<exists>m'. stack_step\<^sup>*\<^sup>* (stk d m c ls) (stk (d\<lparr>events := []\<rparr>) m' c ls) \<and>
    disp_at m' = Dispatching \<and> owned m' = owned m \<and> reconnects m' = reconnects m"
  using assms
proof (induction "events d" arbitrary: d m)
  case Nil
  then have "d\<lparr>events := []\<rparr> = d" by (cases d) simp
  then have "stack_step\<^sup>*\<^sup>* (stk d m c ls) (stk (d\<lparr>events := []\<rparr>) m c ls)"
    by (simp del: driver.update_convs)
  with Nil show ?case by blast
next
  case (Cons ev evs)
  let ?d = "d\<lparr>events := evs\<rparr>" and ?m = "handleEvent 0 ev m"
  have first: "stack_step (stk d m c ls) (stk ?d ?m c ls)"
    using s_event [of "stk d m c ls" ev evs 0] Cons(2)[symmetric] Cons(4) by (simp add: take_event_def)
  have "scan_ch m = None"
    using stack_manager_inv [OF Cons(3)] Cons(5) by (auto simp: mgr_inv_def queue_inv_def)
  then have "disp_at ?m = Dispatching" using Cons(4) by (simp add: handleEvent_dispatching)
  moreover have "owned ?m = owned m" by simp
  moreover from this have "run_at ?m = Await_Disconnect" using Cons(5) by (simp add: owned_def)
  moreover have "stack_reach (stk ?d ?m c ls)" using Cons(3) first by (rule reachable.next_state)
  ultimately obtain m' where "stack_step\<^sup>*\<^sup>* (stk ?d ?m c ls) (stk (?d\<lparr>events := []\<rparr>) m' c ls)"
      "disp_at m' = Dispatching" "owned m' = owned m" "reconnects m' = reconnects m"
    using Cons(1) [of ?d ?m] by auto
  with first show ?case by (intro exI [of _ m']) (simp add: converse_rtranclp_into_rtranclp)
qed

section \<open>Properties\<close>

text \<open>
  The stack refines its components: in every reachable state of the composed system the
  driver, the manager and the client are in states each can reach alone, so every invariant
  proved of one of them holds while they run together.
\<close>

theorem stack_refines_components:
  assumes "reachable stack_init stack_step s"
  shows "reachable drv_init drv_step (drv_of s) \<and> reachable mgr_init mgr_step (mgr_of s) \<and>
    reachable client_init client_step (cli_of s)"
  using stack.reachable_invar [OF assms] by (simp_all add: stack_inv_def components_reachable_def)

theorem stack_refines_components_witness:
  "reachable mgr_init mgr_step served \<and> reachable drv_init drv_step (new_driver 64)"
  using stack_refines_components [OF quiet_reach [OF path_served]] by simp

text \<open>
  C7: A reply can be traced to the wire: a frame that \<open>Get\<close> or \<open>SetC\<close> returns was read by the
  driver as an \<open>ERXUDP\<close> line, parsed as a datagram and decoded from its payload, and carries
  the call's own transaction ID, however driver, manager, client and their callers
  interleave and whatever the full queues between them drop. (Its source address is
  not compared with the session's.)
\<close>

theorem reply_provenance:
  assumes "reachable stack_init stack_step s"
    and "gcalls (cli_of s) i = Some gc" "gc_phase gc = C_Returned (Inr f)"
  shows "TID f = gc_tid gc \<and>
    (\<exists>l \<in> set (rx s). \<exists>now inc. has_prefix l ''ERXUDP '' \<and>
       parseIncoming now (parseERXUDP l) = Some inc \<and> decode (Payload inc) = Inr f)"
proof -
  have inv: "traced s" "reachable client_init client_step (cli_of s)"
    using stack.reachable_invar [OF assms(1)] by (simp_all add: stack_inv_def components_reachable_def)
  have "call_ok (cli_of s) i gc"
    using client.reachable_invar [OF inv(2)] client_invD(1) assms(2) by blast
  with assms(3) have "TID f = gc_tid gc" "f \<in> set (seen (cli_of s))"
    by (simp_all add: call_ok_def)
  with inv(1) show ?thesis
    unfolding traced_def frame_of_line_def datagram_of_def by blast
qed

theorem reply_provenance_witness:
  "\<exists>now inc. parseIncoming now (parseERXUDP demo_line) = Some inc \<and> decode (Payload inc) = Inr demo_answer"
proof -
  obtain d m c where "stack_reach (stk d m c [demo_line])"
      "gcalls c 0 = Some (demo_call (C_Returned (Inr demo_answer)))" using reach_returned by blast
  from reply_provenance [OF this(1), of 0 "demo_call (C_Returned (Inr demo_answer))"] this(2) show ?thesis
    by (auto simp: demo_call_def)
qed


text \<open>A connected manager whose driver has read an unused event and then the end of its input.\<close>

definition waiting_manager :: manager where
  "waiting_manager = wait_prepare ((setState StateConnected ((install_signal serving)\<lparr>run_at := Announce\<rparr>))
     \<lparr>run_at := Prepare_Wait\<rparr>)"


end
