(* ===== verification/Meter_EPC.thy ===== *)
theory Meter_EPC
  imports Go_Float Go_Time
begin

text \<open>
  \<open>internal/meter/epc.go\<close>: the EPC codes of the low-voltage smart meter class and the
  decoders of their data (\<open>EDT\<close>). Each decoder returns \<open>Inl\<close> where the Go function
  returns an error. Signed readings go through two's complement (\<open>sint\<close>), as the
  conversions \<open>int16(...)\<close> and \<open>int32(...)\<close> do.
\<close>

section \<open>EPC codes\<close>

definition EPCVersion :: byte where "EPCVersion = 0x82"
definition EPCFaultStatus :: byte where "EPCFaultStatus = 0x88"
definition EPCManufacturerCode :: byte where "EPCManufacturerCode = 0x8A"
definition EPCCoefficient :: byte where "EPCCoefficient = 0xD3"
definition EPCEffectiveDigits :: byte where "EPCEffectiveDigits = 0xD7"
definition EPCCumulativeForward :: byte where "EPCCumulativeForward = 0xE0"
definition EPCCumulativeUnit :: byte where "EPCCumulativeUnit = 0xE1"
definition EPCCumulativeReverse :: byte where "EPCCumulativeReverse = 0xE3"
definition EPCInstantPower :: byte where "EPCInstantPower = 0xE7"
definition EPCInstantCurrent :: byte where "EPCInstantCurrent = 0xE8"
definition EPCInstantVoltage :: byte where "EPCInstantVoltage = 0xE9"
definition EPCScheduledCumForward :: byte where "EPCScheduledCumForward = 0xEA"
definition EPCScheduledCumReverse :: byte where "EPCScheduledCumReverse = 0xEB"
definition EPCGetPropertyMap :: byte where "EPCGetPropertyMap = 0x9F"

lemmas epc_codes = EPCVersion_def EPCFaultStatus_def EPCManufacturerCode_def EPCCoefficient_def
  EPCEffectiveDigits_def EPCCumulativeForward_def EPCCumulativeUnit_def EPCCumulativeReverse_def
  EPCInstantPower_def EPCInstantCurrent_def EPCInstantVoltage_def EPCScheduledCumForward_def
  EPCScheduledCumReverse_def EPCGetPropertyMap_def

datatype epc_error =
    WrongLength byte nat
  | UnknownUnit byte
  | UnknownFault byte
  | EmptyMap
  | ShortMapTruncated
  | LongMapTruncated

section \<open>Decoders\<close>

text \<open>\<open>UnitKWh\<close>: the multiplier of the unit byte \<open>0xE1\<close>.\<close>

definition UnitKWh :: "byte \<Rightarrow> epc_error + float64" where
  "UnitKWh u =
     (if u = 0x00 then Inr (f_of_int 1)
      else if u = 0x01 then Inr (f_lit 1 10)
      else if u = 0x02 then Inr (f_lit 1 100)
      else if u = 0x03 then Inr (f_lit 1 1000)
      else if u = 0x04 then Inr (f_lit 1 10000)
      else if u = 0x0A then Inr (f_of_int 10)
      else if u = 0x0B then Inr (f_of_int 100)
      else if u = 0x0C then Inr (f_of_int 1000)
      else if u = 0x0D then Inr (f_of_int 10000)
      else Inl (UnknownUnit u))"

definition DecodeInstantPowerW :: "byte list \<Rightarrow> epc_error + u32" where
  "DecodeInstantPowerW edt =
     (if length edt \<noteq> 4 then Inl (WrongLength 0xE7 (length edt))
      else Inr (be32 (edt ! 0) (edt ! 1) (edt ! 2) (edt ! 3)))"

record instant_current =
  RPhaseA :: float64
  TPhaseA :: float64
  HasT :: bool

definition DecodeInstantCurrent :: "byte list \<Rightarrow> epc_error + instant_current" where
  "DecodeInstantCurrent edt =
     (if length edt \<noteq> 4 then Inl (WrongLength 0xE8 (length edt))
      else
        let r = be16 (edt ! 0) (edt ! 1); tRaw = be16 (edt ! 2) (edt ! 3);
            out = \<lparr>RPhaseA = f_div (f_of_int (sint r)) (f_of_int 10), TPhaseA = Fin 0,
                   HasT = True\<rparr>
        in if tRaw = 0x7FFE then Inr (out\<lparr>HasT := False\<rparr>)
           else Inr (out\<lparr>TPhaseA := f_div (f_of_int (sint tRaw)) (f_of_int 10)\<rparr>))"

record instant_voltage =
  RPhaseV :: float64
  TPhaseV :: float64

definition DecodeInstantVoltage :: "byte list \<Rightarrow> epc_error + instant_voltage" where
  "DecodeInstantVoltage edt =
     (if length edt \<noteq> 4 then Inl (WrongLength 0xE9 (length edt))
      else Inr \<lparr>RPhaseV = f_div (f_of_int (uint (be16 (edt ! 0) (edt ! 1)))) (f_of_int 10),
                TPhaseV = f_div (f_of_int (uint (be16 (edt ! 2) (edt ! 3)))) (f_of_int 10)\<rparr>)"

definition DecodeCumulativeRaw :: "byte list \<Rightarrow> epc_error + u32" where
  "DecodeCumulativeRaw edt =
     (if length edt \<noteq> 4 then Inl (WrongLength 0xE0 (length edt))
      else Inr (be32 (edt ! 0) (edt ! 1) (edt ! 2) (edt ! 3)))"

record scheduled_cumulative =
  SchedAt :: instant
  SchedValue :: u32

definition DecodeScheduledCumulative :: "zone \<Rightarrow> byte list \<Rightarrow> epc_error + scheduled_cumulative" where
  "DecodeScheduledCumulative z edt =
     (if length edt \<noteq> 11 then Inl (WrongLength 0xEA (length edt))
      else
        let year = uint (be16 (edt ! 0) (edt ! 1)); mon = uint (edt ! 2); day = uint (edt ! 3);
            hh = uint (edt ! 4); mm = uint (edt ! 5); ss = uint (edt ! 6);
            val = be32 (edt ! 7) (edt ! 8) (edt ! 9) (edt ! 10)
        in Inr \<lparr>SchedAt = date_in z year mon day hh mm ss, SchedValue = val\<rparr>)"

definition CumulativeKWh :: "u32 \<Rightarrow> u32 \<Rightarrow> byte \<Rightarrow> epc_error + float64" where
  "CumulativeKWh raw coefficient unitByte =
     (case UnitKWh unitByte of
        Inl e \<Rightarrow> Inl e
      | Inr unit \<Rightarrow>
          let coefficient = (if coefficient = 0 then 1 else coefficient)
          in Inr (f_mul (f_mul (f_of_int (uint raw)) (f_of_int (uint coefficient))) unit))"

definition DecodeCoefficient :: "byte list \<Rightarrow> epc_error + u32" where
  "DecodeCoefficient edt =
     (if length edt \<noteq> 4 then Inl (WrongLength 0xD3 (length edt))
      else Inr (be32 (edt ! 0) (edt ! 1) (edt ! 2) (edt ! 3)))"

definition DecodeFaultStatus :: "byte list \<Rightarrow> epc_error + bool" where
  "DecodeFaultStatus edt =
     (if length edt \<noteq> 1 then Inl (WrongLength 0x88 (length edt))
      else if edt ! 0 = 0x41 then Inr True
      else if edt ! 0 = 0x42 then Inr False
      else Inl (UnknownFault (edt ! 0)))"

text \<open>
  The long form of the property map: bit \<open>bit\<close> of byte \<open>i\<close> stands for the EPC
  \<open>((bit + 8) << 4) | i\<close>. The list is in the order the loops insert into the map.
\<close>

definition long_form_epcs :: "byte list \<Rightarrow> byte list" where
  "long_form_epcs bm =
     concat (map (\<lambda>(i, b). map (\<lambda>bit. push_bit 4 (of_nat (bit + 8)) OR of_nat i)
                              (filter (\<lambda>bit. b AND push_bit bit 1 \<noteq> 0) [0 ..< 8]))
       (enumerate 0 bm))"

definition DecodeGetPropertyMap :: "byte list \<Rightarrow> epc_error + byte set" where
  "DecodeGetPropertyMap edt =
     (if length edt < 1 then Inl EmptyMap
      else
        let n = unat (edt ! 0) in
        if n \<le> 15 then
          (if length edt < 1 + n then Inl ShortMapTruncated
           else Inr (set (take n (drop 1 edt))))
        else if length edt < 1 + 16 then Inl LongMapTruncated
        else Inr (set (long_form_epcs (take 16 (drop 1 edt)))))"

section \<open>Lengths and bytes\<close>

lemma length_4: "length xs = 4 \<longleftrightarrow> xs = [xs ! 0, xs ! 1, xs ! 2, xs ! 3]"
proof
  assume "length xs = 4"
  then obtain a b c d where "xs = [a, b, c, d]"
    by (auto simp: numeral_eq_Suc length_Suc_conv)
  then show "xs = [xs ! 0, xs ! 1, xs ! 2, xs ! 3]" by simp
next
  assume "xs = [xs ! 0, xs ! 1, xs ! 2, xs ! 3]"
  then have "length xs = length [xs ! 0, xs ! 1, xs ! 2, xs ! 3]" by (rule arg_cong)
  then show "length xs = 4" by simp
qed

lemma put_be32_be32: "put_be32 (be32 a b c d) = [a, b, c, d]"
proof -
  have "ucast (drop_bit 24 (be32 a b c d)) = a" "ucast (drop_bit 16 (be32 a b c d)) = b"
    "ucast (drop_bit 8 (be32 a b c d)) = c" "ucast (be32 a b c d) = d"
    unfolding be32_def
    by (rule bit_word_eqI, auto simp: bit_simps dest: bit_byte_len)+
  then show ?thesis by (simp add: put_be32_def)
qed

text \<open>The three decoders that read one big-endian 32-bit word read it as it was written.\<close>

lemma be32_of_list:
  "length edt = 4 \<and> be32 (edt ! 0) (edt ! 1) (edt ! 2) (edt ! 3) = w \<longleftrightarrow> edt = put_be32 w"
proof
  assume "length edt = 4 \<and> be32 (edt ! 0) (edt ! 1) (edt ! 2) (edt ! 3) = w"
  then have "edt = [edt ! 0, edt ! 1, edt ! 2, edt ! 3]"
    and "put_be32 w = [edt ! 0, edt ! 1, edt ! 2, edt ! 3]"
    using length_4 [of edt] put_be32_be32 by auto
  then show "edt = put_be32 w" by simp
next
  assume "edt = put_be32 w"
  then show "length edt = 4 \<and> be32 (edt ! 0) (edt ! 1) (edt ! 2) (edt ! 3) = w"
    by (simp add: put_be32_def)
qed

lemmas word_decoders = DecodeInstantPowerW_def DecodeCumulativeRaw_def DecodeCoefficient_def

lemma decode_word_iff:
  "DecodeInstantPowerW edt = Inr w \<longleftrightarrow> edt = put_be32 w"
  "DecodeCumulativeRaw edt = Inr w \<longleftrightarrow> edt = put_be32 w"
  "DecodeCoefficient edt = Inr w \<longleftrightarrow> edt = put_be32 w"
  unfolding be32_of_list [symmetric] by (auto simp: word_decoders)

interpretation power_edt: canonical_codec put_be32 "\<lambda>b. ok_of (DecodeInstantPowerW b)" "\<lambda>_. True"
  by unfold_locales (simp_all add: decode_word_iff)

section \<open>Units and energy\<close>

lemma sint_u16_bounds: "\<bar>sint (w :: u16)\<bar> \<le> 2 ^ 53"
  using sint_range_size [of w] by (auto simp: word_size)

lemma uint_u16_bounds: "\<bar>uint (w :: u16)\<bar> \<le> 2 ^ 53"
  using uint_lt2p [of w] by simp

lemma uint_u32_bounds: "\<bar>uint (w :: u32)\<bar> \<le> 2 ^ 53"
  using uint_lt2p [of w] by simp

text \<open>A reading in tenths is the correctly rounded tenth of the integer.\<close>

lemma f_tenth: "\<bar>z\<bar> \<le> 2 ^ 53 \<Longrightarrow> f_div (f_of_int z) (f_of_int 10) = f_lit z 10"
  using f_div_ints [of z 10] by simp

lemma decode_tenths:
  "DecodeInstantCurrent (put_be16 r @ put_be16 t) =
      Inr \<lparr>RPhaseA = f_lit (sint r) 10,
           TPhaseA = (if t = 0x7FFE then Fin 0 else f_lit (sint t) 10), HasT = (t \<noteq> 0x7FFE)\<rparr>"
  "DecodeInstantVoltage (put_be16 r @ put_be16 t) =
      Inr \<lparr>RPhaseV = f_lit (uint r) 10, TPhaseV = f_lit (uint t) 10\<rparr>"
  by (simp_all add: DecodeInstantCurrent_def DecodeInstantVoltage_def Let_def put_be16_def
      f_tenth [OF sint_u16_bounds] f_tenth [OF uint_u16_bounds])

lemma decode_words [simp]:
  "DecodeInstantPowerW (put_be32 w) = Inr w" "DecodeCumulativeRaw (put_be32 w) = Inr w"
  "DecodeCoefficient (put_be32 w) = Inr w"
  by (simp_all add: decode_word_iff)

lemma UnitKWh_positive:
  assumes "UnitKWh u = Inr x"
  shows "\<exists>m. x = Fin m \<and> 0 < m"
proof -
  have frac: "\<exists>m. f_lit 1 d = Fin m \<and> 0 < m" if "d \<in> {10, 100, 1000, 10000}" for d
  proof -
    have "d \<le> 2 ^ 14" using that by auto
    also have "\<dots> \<le> fscale" unfolding fscale_def by (rule power_increasing) simp_all
    finally show ?thesis using that by (intro f_lit_fraction) auto
  qed
  have whole: "\<exists>m. f_of_int z = Fin m \<and> 0 < m" if "z \<in> {1, 10, 100, 1000, 10000}" for z
    using that by (auto simp: f_of_int_exact)
  show ?thesis
    using assms frac whole by (auto simp: UnitKWh_def split: if_splits)
qed

text \<open>The coefficient of a meter that reports none counts as 1.\<close>

definition effective_coefficient :: "u32 \<Rightarrow> int" where
  "effective_coefficient c = (if c = 0 then 1 else uint c)"

lemma CumulativeKWh_eq:
  "CumulativeKWh raw c u =
     map_sum id (f_mul (f_of_int (uint raw * effective_coefficient c))) (UnitKWh u)"
proof -
  have "f_mul (f_of_int (uint raw)) (f_of_int (uint (if c = 0 then 1 else c))) =
      f_of_int (uint raw * effective_coefficient c)"
    using uint_u32_bounds by (simp add: f_mul_ints effective_coefficient_def)
  then show ?thesis
    by (simp only: CumulativeKWh_def Let_def) (simp split: sum.split)
qed

lemma effective_coefficient_pos: "0 < effective_coefficient c"
  using uint_nonnegative [of c] by (auto simp: effective_coefficient_def less_le uint_0_iff)

lemma CumulativeKWh_mono_lemma:
  assumes "raw \<le> raw'" "CumulativeKWh raw c u = Inr x" "CumulativeKWh raw' c u = Inr y"
  shows "f_le x y"
proof -
  let ?k = "effective_coefficient c"
  obtain m where u: "UnitKWh u = Inr (Fin m)" "0 < m"
    using assms(2) UnitKWh_positive by (cases "UnitKWh u") (auto simp: CumulativeKWh_eq)
  have "f_le (f_of_int (uint raw * ?k)) (f_of_int (uint raw' * ?k))"
    using assms(1) effective_coefficient_pos [of c]
    by (intro f_of_int_mono mult_right_mono) (simp_all add: word_le_def)
  moreover have "f_le (Fin 0) (f_of_int (uint raw * ?k))"
    using f_of_int_mono [of 0 "uint raw * ?k"] effective_coefficient_pos [of c] by simp
  ultimately show ?thesis
    using assms(2,3) u by (auto simp: CumulativeKWh_eq intro: f_mul_mono)
qed

section \<open>The property map\<close>

definition epc_at :: "nat \<Rightarrow> nat \<Rightarrow> byte" where
  "epc_at i k = push_bit 4 (of_nat (k + 8)) OR of_nat i"

lemma and_bit_nonzero: "(b AND 2 ^ k = (0 :: byte)) \<longleftrightarrow> \<not> bit b k"
  by (simp add: and_exp_eq_0_iff_not_bit)

lemma unat_epc_at:
  assumes "i < 16" "k < 8"
  shows "unat (epc_at i k) = 16 * (k + 8) + i"
proof -
  have "\<forall>i \<in> set [0 ..< 16]. \<forall>k \<in> set [0 ..< 8]. unat (epc_at i k) = 16 * (k + 8) + i"
    by code_simp
  with assms show ?thesis by simp
qed

lemma epc_at_unique:
  assumes "i < 16" "k < 8"
  shows "epc_at i k = e \<longleftrightarrow> unat e mod 16 = i \<and> unat e div 16 = k + 8"
proof -
  have "epc_at i k = e \<longleftrightarrow> 16 * (k + 8) + i = unat e"
    using unat_epc_at [OF assms] by (metis word_unat_eq_iff)
  also have "\<dots> \<longleftrightarrow> unat e mod 16 = i \<and> unat e div 16 = k + 8"
  proof
    assume "16 * (k + 8) + i = unat e"
    then have e: "unat e = i + (k + 8) * 16" by simp
    have "(i + (k + 8) * 16) mod 16 = i"
      using assms(1) by (simp only: mod_mult_self1 mod_less)
    moreover have "(i + (k + 8) * 16) div 16 = k + 8"
      using assms(1) by (subst div_mult_self1) simp_all
    ultimately show "unat e mod 16 = i \<and> unat e div 16 = k + 8" by (simp only: e)
  next
    assume "unat e mod 16 = i \<and> unat e div 16 = k + 8"
    then show "16 * (k + 8) + i = unat e"
      using mult_div_mod_eq [of 16 "unat e"] by simp
  qed
  finally show ?thesis .
qed

lemma set_long_form:
  "set (long_form_epcs bm) = {epc_at i k | i k. i < length bm \<and> k < 8 \<and> bit (bm ! i) k}"
proof -
  have "set (enumerate 0 bm) = {(i, bm ! i) | i. i < length bm}"
    by (auto simp: in_set_enumerate_eq)
  then show ?thesis
    unfolding long_form_epcs_def epc_at_def by (auto simp: and_bit_nonzero)
qed

lemma long_form_iff:
  assumes "length bm = 16"
  shows "e \<in> set (long_form_epcs bm) \<longleftrightarrow>
    128 \<le> unat e \<and> bit (bm ! (unat e mod 16)) (unat e div 16 - 8)"
proof -
  have "e \<in> set (long_form_epcs bm) \<longleftrightarrow>
      (\<exists>i k. i < 16 \<and> k < 8 \<and> bit (bm ! i) k \<and> epc_at i k = e)"
    using assms by (auto simp: set_long_form)
  also have "\<dots> \<longleftrightarrow>
      (\<exists>i k. i < 16 \<and> k < 8 \<and> bit (bm ! i) k \<and> unat e mod 16 = i \<and> unat e div 16 = k + 8)"
    using epc_at_unique by blast
  also have "\<dots> \<longleftrightarrow> 128 \<le> unat e \<and> bit (bm ! (unat e mod 16)) (unat e div 16 - 8)"
  proof -
    have "unat e div 16 < 16" using unat_byte [of e] by simp
    then have "(\<exists>k < 8. unat e div 16 = k + 8 \<and> P k) \<longleftrightarrow> 128 \<le> unat e \<and> P (unat e div 16 - 8)"
      for P by (auto intro: exI [of _ "unat e div 16 - 8"])
    note this [of "\<lambda>k. bit (bm ! (unat e mod 16)) k"]
    then show ?thesis by auto
  qed
  finally show ?thesis .
qed

text \<open>The bitmap of a set of EPCs, as the specification's encoder writes it.\<close>

definition bitmap_byte :: "byte set \<Rightarrow> nat \<Rightarrow> byte" where
  "bitmap_byte S i = horner_sum of_bool 2 (map (\<lambda>k. epc_at i k \<in> S) [0 ..< 8])"

definition bitmap_of :: "byte set \<Rightarrow> byte list" where
  "bitmap_of S = map (bitmap_byte S) [0 ..< 16]"

lemma bit_bitmap_byte: "bit (bitmap_byte S i) k \<longleftrightarrow> k < 8 \<and> epc_at i k \<in> S"
  unfolding bitmap_byte_def
  by (auto simp: bit_horner_sum_bit_iff)

lemma bitmap_roundtrip:
  "set (long_form_epcs (bitmap_of S)) = {e \<in> S. 128 \<le> unat e}"
proof (rule set_eqI)
  fix e :: byte
  have m: "unat e mod 16 < 16" and d: "unat e div 16 < 16"
    using unat_byte [of e] by simp_all
  have "e \<in> set (long_form_epcs (bitmap_of S)) \<longleftrightarrow>
      128 \<le> unat e \<and> bit (bitmap_byte S (unat e mod 16)) (unat e div 16 - 8)"
    using m by (simp add: long_form_iff bitmap_of_def)
  also have "\<dots> \<longleftrightarrow> 128 \<le> unat e \<and> epc_at (unat e mod 16) (unat e div 16 - 8) \<in> S"
    using d by (auto simp: bit_bitmap_byte)
  also have "\<dots> \<longleftrightarrow> e \<in> {e \<in> S. 128 \<le> unat e}"
  proof -
    have "epc_at (unat e mod 16) (unat e div 16 - 8) = e" if "128 \<le> unat e"
      using that m d by (subst epc_at_unique) auto
    then show ?thesis by auto
  qed
  finally show "e \<in> set (long_form_epcs (bitmap_of S)) \<longleftrightarrow> e \<in> {e \<in> S. 128 \<le> unat e}" .
qed

section \<open>Properties\<close>

text \<open>
  The three decoders of a 32-bit value (instantaneous power, cumulative energy,
  coefficient) accept exactly the four-byte big-endian encodings and return the encoded
  word; every other length is an error. Power reads the word as two's complement.
\<close>

theorem word_decoders_exact:
  "(DecodeInstantPowerW edt = Inr w \<longleftrightarrow> edt = put_be32 w)
    \<and> (DecodeCumulativeRaw edt = Inr w \<longleftrightarrow> edt = put_be32 w)
    \<and> (DecodeCoefficient edt = Inr w \<longleftrightarrow> edt = put_be32 w)"
  by (simp add: decode_word_iff)

text \<open>
  Currents and voltages are the correctly rounded tenths of the raw integers: from the
  encoding of two 16-bit words \<open>r\<close> and \<open>t\<close>, the current decoder returns the float64
  nearest to \<open>r/10\<close> and \<open>t/10\<close> (signed), without a T phase exactly for the sentinel
  \<open>0x7FFE\<close>, and the voltage decoder the float64 nearest to the unsigned tenths.
\<close>

theorem tenths_correctly_rounded:
  "DecodeInstantCurrent (put_be16 r @ put_be16 t) =
      Inr \<lparr>RPhaseA = f_lit (sint r) 10,
           TPhaseA = (if t = 0x7FFE then Fin 0 else f_lit (sint t) 10), HasT = (t \<noteq> 0x7FFE)\<rparr>
    \<and> DecodeInstantVoltage (put_be16 r @ put_be16 t) =
      Inr \<lparr>RPhaseV = f_lit (uint r) 10, TPhaseV = f_lit (uint t) 10\<rparr>"
  by (simp add: decode_tenths)

text \<open>
  Cumulative energy never runs backwards: for a fixed coefficient and unit, a larger
  meter reading gives a float64 value that is at least as large, through both rounded
  multiplications and for each of the nine units.
\<close>

theorem CumulativeKWh_monotone:
  assumes "raw \<le> raw'" "CumulativeKWh raw c u = Inr x" "CumulativeKWh raw' c u = Inr y"
  shows "f_le x y"
  using assms by (rule CumulativeKWh_mono_lemma)

theorem CumulativeKWh_monotone_witness:
  "f_le (f_mul (f_mul (f_of_int 12345) (f_of_int 1)) (f_lit 1 10))
        (f_mul (f_mul (f_of_int 12346) (f_of_int 1)) (f_lit 1 10))"
  by (rule CumulativeKWh_monotone [of 12345 12346 0 1]) (simp_all add: CumulativeKWh_def UnitKWh_def)

text \<open>
  Cumulative energy is exact for whole units: with unit bytes \<open>0x00\<close> and \<open>0x0A\<close> to
  \<open>0x0D\<close> (1 to 10,000 kWh), as long as the product fits the 53-bit significand, the value
  is the integer product of reading, coefficient (0 counts as 1) and unit, not rounded.
\<close>

theorem CumulativeKWh_exact:
  assumes "(u, k) \<in> {(0x00, 1), (0x0A, 10), (0x0B, 100), (0x0C, 1000), (0x0D, 10000)}"
    and "uint raw * effective_coefficient c * k \<le> 2 ^ 53"
  shows "CumulativeKWh raw c u = Inr (f_of_int (uint raw * effective_coefficient c * k))
    \<and> f_of_int (uint raw * effective_coefficient c * k) =
        Fin (uint raw * effective_coefficient c * k * int fscale)"
proof -
  let ?p = "uint raw * effective_coefficient c"
  have k: "1 \<le> k" "k \<le> 10000" and u: "UnitKWh u = Inr (f_of_int k)"
    using assms(1) by (auto simp: UnitKWh_def)
  have p: "0 \<le> ?p" using effective_coefficient_pos [of c] by simp
  with k have "?p \<le> ?p * k" using mult_left_mono [of 1 k ?p] by simp
  with p k assms(2) have b: "\<bar>?p\<bar> \<le> 2 ^ 53" "\<bar>k\<bar> \<le> 2 ^ 53" "\<bar>?p * k\<bar> \<le> 2 ^ 53" by auto
  show ?thesis
    using f_mul_ints [OF b(1,2)] f_of_int_exact [OF b(3)] u
    by (simp only: CumulativeKWh_eq map_sum.simps simp_thms)
qed

theorem CumulativeKWh_exact_witness: "CumulativeKWh 12345 0 0x0A = Inr (f_of_int 123450)"
  using CumulativeKWh_exact [of "0x0A" 10 12345 0] by (simp add: effective_coefficient_def)

definition property_map_edt :: "byte list \<Rightarrow> byte list" where
  "property_map_edt es =
     of_nat (length es) # (if length es \<le> 15 then es else bitmap_of (set es))"

text \<open>
  The property map round trip in both of its forms: a list of EPCs (all at least
  \<open>0x80\<close>, at most 128 of them), written as the count followed by the codes when there are
  at most 15 and by the 16-byte bitmap otherwise, is read back as the same set whatever
  bytes follow.
\<close>

theorem property_map_roundtrip:
  assumes "list_all (\<lambda>e. 128 \<le> unat e) es" "length es \<le> 128"
  shows "DecodeGetPropertyMap (property_map_edt es @ r) = Inr (set es)"
proof -
  have n: "unat (of_nat (length es) :: byte) = length es"
    using assms(2) by (simp add: unat_of_nat)
  have len: "length (bitmap_of (set es)) = 16" by (simp add: bitmap_of_def)
  have "{e \<in> set es. 128 \<le> unat e} = set es" using assms(1) by (auto simp: list_all_iff)
  then show ?thesis
    by (cases "length es \<le> 15")
      (simp_all add: DecodeGetPropertyMap_def property_map_edt_def n len bitmap_roundtrip)
qed

theorem property_map_roundtrip_witness:
  "DecodeGetPropertyMap (property_map_edt [0x80, 0xE7] @ [0xFF]) = Inr (set [0x80, 0xE7])"
  by (rule property_map_roundtrip) simp_all

end
