(* ===== verification/Collector_Poll.thy ===== *)
theory Collector_Poll
  imports Meter_Client Meter_EPC Sink_Core
begin

text \<open>
  \<open>internal/collector/collector.go\<close>: the polling loop and the probe goroutine. Both work on
  the collector at the same time; each step below is one critical section, with the reply of
  \<open>meter.Client.Get\<close> (see \<open>Meter_Client\<close>), the tick that fires and the clock as inputs.
  \<open>requests\<close> logs the batches handed to \<open>Get\<close>, \<open>written\<close> the measurements handed to the sink.
\<close>

section \<open>Configuration and state\<close>

record poll_config =
  InstantInterval :: duration
  CumulativeInterval :: duration
  ScheduledInterval :: duration
  CollectTimeout :: duration

datatype poll_kind = PollInstant | PollCumulative | PollScheduled

text \<open>
  The loop is waiting for a tick, is building a batch (EPCs still to check, EPCs taken), or
  waits in \<open>Get\<close>. \<open>due\<close> holds the polls \<open>Run\<close> makes before its first tick.
\<close>

datatype poll_phase = P_Idle | P_Batch poll_kind "byte list" "byte list" | P_Asked poll_kind

record collector =
  poll_cfg :: poll_config
  coeff :: u32
  unitByte :: byte
  epcMap :: "byte set option"
  haveOneShot :: bool
  unsupported :: "byte set"
  probing :: bool
  due :: "poll_kind list"
  phase :: poll_phase
  requests :: "byte list list"
  written :: "measurement list"
  get_errors :: nat
  get_successes :: nat

definition poll_defaults :: "poll_config \<Rightarrow> poll_config" where
  "poll_defaults cfg =
     \<lparr>InstantInterval = (if InstantInterval cfg = 0 then 10 * second else InstantInterval cfg),
      CumulativeInterval = (if CumulativeInterval cfg = 0 then 60 * second else CumulativeInterval cfg),
      ScheduledInterval = (if ScheduledInterval cfg = 0 then 30 * minute else ScheduledInterval cfg),
      CollectTimeout = (if CollectTimeout cfg = 0 then 5 * second else CollectTimeout cfg)\<rparr>"

definition NewCollector :: "poll_config \<Rightarrow> collector" where
  "NewCollector cfg =
     \<lparr>poll_cfg = poll_defaults cfg, coeff = 0, unitByte = 0, epcMap = None, haveOneShot = False,
      unsupported = {}, probing = False, due = [], phase = P_Idle, requests = [], written = [],
      get_errors = 0, get_successes = 0\<rparr>"

text \<open>
  \<open>time.NewTicker\<close> panics on an interval that is not positive; otherwise \<open>Run\<close> starts the probe
  and polls once before the first tick.
\<close>

datatype run_panic = NonPositiveTicker duration

definition new_ticker :: "duration \<Rightarrow> run_panic option" where
  "new_ticker i = (if i \<le> 0 then Some (NonPositiveTicker i) else None)"

definition run_start :: "collector \<Rightarrow> run_panic + collector" where
  "run_start c =
     (let cfg = poll_cfg c in
      case new_ticker (InstantInterval cfg) of Some p \<Rightarrow> Inl p
      | None \<Rightarrow>
        (case new_ticker (CumulativeInterval cfg) of Some p \<Rightarrow> Inl p
         | None \<Rightarrow>
           (case new_ticker (ScheduledInterval cfg) of Some p \<Rightarrow> Inl p
            | None \<Rightarrow> Inr (c\<lparr>probing := True, due := [PollInstant, PollCumulative]\<rparr>))))"

section \<open>The probe\<close>

definition probe_epcs :: "byte list" where
  "probe_epcs = [EPCGetPropertyMap, EPCCoefficient, EPCCumulativeUnit]"

definition probe_prop :: "property \<Rightarrow> collector \<Rightarrow> collector" where
  "probe_prop p c =
     (if EPC p = EPCGetPropertyMap then
        (case DecodeGetPropertyMap (EDT p) of Inl _ \<Rightarrow> c | Inr m \<Rightarrow> c\<lparr>epcMap := Some m\<rparr>)
      else if EPC p = EPCCoefficient then
        (case DecodeCoefficient (EDT p) of Inl _ \<Rightarrow> c | Inr v \<Rightarrow> c\<lparr>coeff := v\<rparr>)
      else if EPC p = EPCCumulativeUnit then
        (if length (EDT p) = 1 then c\<lparr>unitByte := EDT p ! 0\<rparr> else c)
      else c)"

definition probeOnce :: "client_error + frame \<Rightarrow> collector \<Rightarrow> client_error option \<times> collector" where
  "probeOnce answer c =
     (case answer of
        Inl e \<Rightarrow> (Some e, c)
      | Inr f \<Rightarrow> (None, (fold probe_prop (Props f) c)\<lparr>haveOneShot := True\<rparr>))"

text \<open>One turn of \<open>probeUntilSuccess\<close>: the goroutine ends with the first success.\<close>

definition probe_turn :: "client_error + frame \<Rightarrow> collector \<Rightarrow> collector" where
  "probe_turn answer c =
     (case probeOnce answer c of
        (Some e, c') \<Rightarrow> c'
      | (None, c') \<Rightarrow> c'\<lparr>probing := False\<rparr>)"

section \<open>Batches\<close>

definition supports :: "collector \<Rightarrow> byte \<Rightarrow> bool" where
  "supports c e =
     (if e \<in> unsupported c then False
      else if \<not> haveOneShot c then True
      else (case epcMap c of None \<Rightarrow> True | Some m \<Rightarrow> e \<in> m))"

definition markUnsupported :: "byte \<Rightarrow> collector \<Rightarrow> collector" where
  "markUnsupported e c = c\<lparr>unsupported := insert e (unsupported c)\<rparr>"

definition instant_epcs :: "byte list" where
  "instant_epcs = [EPCInstantPower, EPCInstantCurrent, EPCInstantVoltage]"

definition cumulative_epcs :: "byte list" where
  "cumulative_epcs = [EPCCumulativeForward, EPCCumulativeReverse, EPCFaultStatus]"

definition scheduled_epcs :: "byte list" where
  "scheduled_epcs = [EPCScheduledCumForward, EPCScheduledCumReverse]"

definition poll_epcs :: "poll_kind \<Rightarrow> byte list" where
  "poll_epcs k =
     (case k of PollInstant \<Rightarrow> instant_epcs | PollCumulative \<Rightarrow> cumulative_epcs
      | PollScheduled \<Rightarrow> scheduled_epcs)"

text \<open>Entering a collect function; checking one EPC; the request, or the early return.\<close>

definition collect_begin :: "poll_kind \<Rightarrow> collector \<Rightarrow> collector" where
  "collect_begin k c = c\<lparr>phase := P_Batch k (poll_epcs k) []\<rparr>"

definition collect_check :: "poll_kind \<Rightarrow> byte \<Rightarrow> byte list \<Rightarrow> byte list \<Rightarrow> collector \<Rightarrow> collector" where
  "collect_check k e es got c =
     c\<lparr>phase := P_Batch k es (if supports c e then got @ [e] else got)\<rparr>"

definition collect_ask :: "poll_kind \<Rightarrow> byte list \<Rightarrow> collector \<Rightarrow> collector" where
  "collect_ask k got c =
     (if got = [] then c\<lparr>phase := P_Idle\<rparr>
      else c\<lparr>phase := P_Asked k, requests := requests c @ [got]\<rparr>)"

definition collect_failed :: "collector \<Rightarrow> collector" where
  "collect_failed c = c\<lparr>phase := P_Idle, get_errors := Suc (get_errors c)\<rparr>"

section \<open>Emitting\<close>

definition gauge :: "instant \<Rightarrow> string \<Rightarrow> float64 \<Rightarrow> string \<Rightarrow> tags \<Rightarrow> measurement" where
  "gauge t n v u ts = \<lparr>Timestamp = t, Name = n, Value = v, Unit = u, Tags = ts\<rparr>"

definition emitInstant :: "property \<Rightarrow> instant \<Rightarrow> measurement list" where
  "emitInstant p at =
     (if EPC p = EPCInstantPower then
        (case DecodeInstantPowerW (EDT p) of
           Inl _ \<Rightarrow> []
         | Inr v \<Rightarrow> [gauge at ''smartmeter_power_instant_w'' (f_of_int (sint v)) ''W'' []])
      else if EPC p = EPCInstantCurrent then
        (case DecodeInstantCurrent (EDT p) of
           Inl _ \<Rightarrow> []
         | Inr i \<Rightarrow>
             [gauge at ''smartmeter_current_instant_a'' (RPhaseA i) ''A'' [(''phase'', ''r'')]] @
             (if HasT i
              then [gauge at ''smartmeter_current_instant_a'' (TPhaseA i) ''A'' [(''phase'', ''t'')]] else []))
      else if EPC p = EPCInstantVoltage then
        (case DecodeInstantVoltage (EDT p) of
           Inl _ \<Rightarrow> []
         | Inr v \<Rightarrow>
             [gauge at ''smartmeter_voltage_instant_v'' (RPhaseV v) ''V'' [(''phase'', ''r'')],
              gauge at ''smartmeter_voltage_instant_v'' (TPhaseV v) ''V'' [(''phase'', ''t'')]])
      else [])"

definition emit_kwh :: "instant \<Rightarrow> string \<Rightarrow> u32 \<Rightarrow> u32 \<Rightarrow> byte \<Rightarrow> measurement list" where
  "emit_kwh at n raw k u =
     (case CumulativeKWh raw k u of Inl _ \<Rightarrow> [] | Inr v \<Rightarrow> [gauge at n v ''kWh'' []])"

definition emitCumulative :: "property \<Rightarrow> instant \<Rightarrow> u32 \<Rightarrow> byte \<Rightarrow> measurement list" where
  "emitCumulative p at k u =
     (if EPC p = EPCCumulativeForward then
        (case DecodeCumulativeRaw (EDT p) of
           Inl _ \<Rightarrow> [] | Inr raw \<Rightarrow> emit_kwh at ''smartmeter_energy_forward_kwh'' raw k u)
      else if EPC p = EPCCumulativeReverse then
        (case DecodeCumulativeRaw (EDT p) of
           Inl _ \<Rightarrow> [] | Inr raw \<Rightarrow> emit_kwh at ''smartmeter_energy_reverse_kwh'' raw k u)
      else if EPC p = EPCFaultStatus then
        (case DecodeFaultStatus (EDT p) of
           Inl _ \<Rightarrow> []
         | Inr fault \<Rightarrow> [gauge at ''smartmeter_fault'' (f_of_int (if fault then 1 else 0)) [] []])
      else [])"

definition emitScheduled :: "zone \<Rightarrow> property \<Rightarrow> u32 \<Rightarrow> byte \<Rightarrow> measurement list" where
  "emitScheduled z p k u =
     (if EPC p = EPCScheduledCumForward then
        (case DecodeScheduledCumulative z (EDT p) of
           Inl _ \<Rightarrow> []
         | Inr s \<Rightarrow> emit_kwh (SchedAt s) ''smartmeter_energy_forward_scheduled_kwh'' (SchedValue s) k u)
      else if EPC p = EPCScheduledCumReverse then
        (case DecodeScheduledCumulative z (EDT p) of
           Inl _ \<Rightarrow> []
         | Inr s \<Rightarrow> emit_kwh (SchedAt s) ''smartmeter_energy_reverse_scheduled_kwh'' (SchedValue s) k u)
      else [])"

text \<open>\<open>write\<close> hands the measurement to the sink; an error is only logged.\<close>

definition collector_write :: "measurement list \<Rightarrow> collector \<Rightarrow> collector" where
  "collector_write ms c = c\<lparr>written := written c @ ms\<rparr>"

definition collect_prop :: "(property \<Rightarrow> measurement list) \<Rightarrow> property \<Rightarrow> collector \<Rightarrow> collector" where
  "collect_prop emit p c =
     (if EDT p = [] then markUnsupported (EPC p) c else collector_write (emit p) c)"

definition got_reply :: "collector \<Rightarrow> collector" where
  "got_reply c = c\<lparr>phase := P_Idle, get_successes := Suc (get_successes c)\<rparr>"

definition collectInstant :: "instant \<Rightarrow> frame \<Rightarrow> collector \<Rightarrow> collector" where
  "collectInstant now f c = fold (collect_prop (\<lambda>p. emitInstant p now)) (Props f) (got_reply c)"

definition collectCumulative :: "instant \<Rightarrow> frame \<Rightarrow> collector \<Rightarrow> collector" where
  "collectCumulative now f c =
     (let k = coeff c; u = unitByte c
      in fold (collect_prop (\<lambda>p. emitCumulative p now k u)) (Props f) (got_reply c))"

definition collectScheduled :: "zone \<Rightarrow> frame \<Rightarrow> collector \<Rightarrow> collector" where
  "collectScheduled z f c =
     (let k = coeff c; u = unitByte c
      in fold (collect_prop (\<lambda>p. emitScheduled z p k u)) (Props f) (got_reply c))"

definition collect_reply :: "zone \<Rightarrow> instant \<Rightarrow> poll_kind \<Rightarrow> frame \<Rightarrow> collector \<Rightarrow> collector" where
  "collect_reply z now k f c =
     (case k of PollInstant \<Rightarrow> collectInstant now f c | PollCumulative \<Rightarrow> collectCumulative now f c
      | PollScheduled \<Rightarrow> collectScheduled z f c)"

section \<open>The steps\<close>

inductive poll_step :: "zone \<Rightarrow> collector \<Rightarrow> collector \<Rightarrow> bool" for z where
  pl_probe: "probing c \<Longrightarrow> poll_step z c (probe_turn answer c)"
| pl_first: "phase c = P_Idle \<Longrightarrow> due c = k # ks \<Longrightarrow> poll_step z c (collect_begin k (c\<lparr>due := ks\<rparr>))"
| pl_tick: "phase c = P_Idle \<Longrightarrow> due c = [] \<Longrightarrow> poll_step z c (collect_begin k c)"
| pl_check: "phase c = P_Batch k (e # es) got \<Longrightarrow> poll_step z c (collect_check k e es got c)"
| pl_ask: "phase c = P_Batch k [] got \<Longrightarrow> poll_step z c (collect_ask k got c)"
| pl_failed: "phase c = P_Asked k \<Longrightarrow> poll_step z c (collect_failed c)"
| pl_reply: "phase c = P_Asked k \<Longrightarrow> poll_step z c (collect_reply z now k f c)"

definition started :: "collector \<Rightarrow> bool" where
  "started c \<longleftrightarrow> (\<exists>cfg. run_start (NewCollector cfg) = Inr c)"

end
