(* ===== verification/Collector_Safety.thy ===== *)
theory Collector_Safety
  imports Collector_Poll "HOL-Library.Sublist"
begin

text \<open>
  What the polling loop asks the meter for and what it hands to the sinks, in every
  interleaving with the probe goroutine.
\<close>

section \<open>The series the collector can write\<close>

definition catalogue :: "(string \<times> string \<times> tags) list" where
  "catalogue =
     [(''smartmeter_power_instant_w'', ''W'', []),
      (''smartmeter_current_instant_a'', ''A'', [(''phase'', ''r'')]),
      (''smartmeter_current_instant_a'', ''A'', [(''phase'', ''t'')]),
      (''smartmeter_voltage_instant_v'', ''V'', [(''phase'', ''r'')]),
      (''smartmeter_voltage_instant_v'', ''V'', [(''phase'', ''t'')]),
      (''smartmeter_energy_forward_kwh'', ''kWh'', []),
      (''smartmeter_energy_reverse_kwh'', ''kWh'', []),
      (''smartmeter_fault'', [], []),
      (''smartmeter_energy_forward_scheduled_kwh'', ''kWh'', []),
      (''smartmeter_energy_reverse_scheduled_kwh'', ''kWh'', [])]"

definition listed :: "measurement \<Rightarrow> bool" where
  "listed m \<longleftrightarrow> (Name m, Unit m, Tags m) \<in> set catalogue \<and> proper_float (Value m)"

lemma gauge_listed: "(n, u, ts) \<in> set catalogue \<Longrightarrow> proper_float v \<Longrightarrow> listed (gauge t n v u ts)"
  by (simp add: listed_def gauge_def)

lemma lit_proper: "0 < d \<Longrightarrow> \<bar>z\<bar> < 2 ^ 64 \<Longrightarrow> proper_float (f_lit z d)"
  unfolding proper_float_def
  by (intro conjI small_finite f_lit_small arithmetic_is_float64) (auto intro: less_le_trans)

lemma int_proper: "\<bar>z\<bar> < 2 ^ 64 \<Longrightarrow> proper_float (f_of_int z)"
  by (simp add: f_of_int_lit lit_proper)

lemma tenth_proper: "\<bar>z\<bar> \<le> 2 ^ 53 \<Longrightarrow> proper_float (f_div (f_of_int z) (f_of_int 10))"
  by (simp add: f_tenth lit_proper)

lemma word_proper: "proper_float (f_of_int (sint (w :: u32)))"
  using sint_range_size [of w] by (intro int_proper) (auto simp: word_size)

lemma current_proper:
  "DecodeInstantCurrent edt = Inr i \<Longrightarrow> proper_float (RPhaseA i) \<and> proper_float (TPhaseA i)"
  by (auto simp: DecodeInstantCurrent_def Let_def tenth_proper [OF sint_u16_bounds] split: if_splits)

lemma voltage_proper:
  "DecodeInstantVoltage edt = Inr v \<Longrightarrow> proper_float (RPhaseV v) \<and> proper_float (TPhaseV v)"
  by (auto simp: DecodeInstantVoltage_def Let_def tenth_proper [OF uint_u16_bounds] split: if_splits)

lemma unit_small: "UnitKWh u = Inr x \<Longrightarrow> small_float x"
  by (auto simp: UnitKWh_def f_of_int_lit intro!: f_lit_small split: if_splits)

lemma kwh_proper:
  assumes "CumulativeKWh raw k u = Inr v"
  shows "proper_float v"
proof -
  have "uint raw * effective_coefficient k < 2 ^ 32 * 2 ^ 32"
    using uint_lt2p [of raw] uint_lt2p [of k]
    by (intro mult_strict_mono) (auto simp: effective_coefficient_def)
  then have "\<bar>uint raw * effective_coefficient k\<bar> < 2 ^ 64" by (simp add: effective_coefficient_def)
  then have "small_float (f_of_int (uint raw * effective_coefficient k))"
    unfolding f_of_int_lit by (intro f_lit_small) simp_all
  then show ?thesis
    using assms by (cases "UnitKWh u") (auto simp: CumulativeKWh_eq proper_float_def intro: f_mul_finite unit_small)
qed

lemma emit_kwh_listed: "(n, ''kWh'', []) \<in> set catalogue \<Longrightarrow> list_all listed (emit_kwh t n raw k u)"
  by (auto simp: emit_kwh_def intro!: gauge_listed intro: kwh_proper split: sum.split)

lemma emitInstant_listed: "list_all listed (emitInstant p now)"
  by (auto simp: emitInstant_def catalogue_def word_proper intro!: gauge_listed
      dest: current_proper voltage_proper split: sum.split)

lemma emitCumulative_listed: "list_all listed (emitCumulative p now k u)"
  by (auto simp: emitCumulative_def catalogue_def intro!: gauge_listed emit_kwh_listed int_proper split: sum.split)

lemma emitScheduled_listed: "list_all listed (emitScheduled z p k u)"
  by (auto simp: emitScheduled_def catalogue_def intro!: emit_kwh_listed split: sum.split)

section \<open>What the operations leave alone\<close>

lemma probe_frame [simp]:
  "phase (probe_turn r c) = phase c" "unsupported (probe_turn r c) = unsupported c"
  "requests (probe_turn r c) = requests c" "written (probe_turn r c) = written c"
  "get_errors (probe_turn r c) = get_errors c" "get_successes (probe_turn r c) = get_successes c"
proof -
  have one: "phase (probe_prop p c) = phase c" "unsupported (probe_prop p c) = unsupported c"
    "requests (probe_prop p c) = requests c" "written (probe_prop p c) = written c"
    "get_errors (probe_prop p c) = get_errors c" "get_successes (probe_prop p c) = get_successes c" for p c
    by (auto simp: probe_prop_def split: sum.split)
  have fold: "phase (fold probe_prop ps c) = phase c" "unsupported (fold probe_prop ps c) = unsupported c"
    "requests (fold probe_prop ps c) = requests c" "written (fold probe_prop ps c) = written c"
    "get_errors (fold probe_prop ps c) = get_errors c" "get_successes (fold probe_prop ps c) = get_successes c"
    for ps by (induction ps arbitrary: c) (simp_all add: one)
  show "phase (probe_turn r c) = phase c" "unsupported (probe_turn r c) = unsupported c"
    "requests (probe_turn r c) = requests c" "written (probe_turn r c) = written c"
    "get_errors (probe_turn r c) = get_errors c" "get_successes (probe_turn r c) = get_successes c"
    by (auto simp: probe_turn_def probeOnce_def fold split: sum.split)
qed

lemma collect_prop_frame [simp]:
  "phase (collect_prop e p c) = phase c" "requests (collect_prop e p c) = requests c"
  "get_errors (collect_prop e p c) = get_errors c" "get_successes (collect_prop e p c) = get_successes c"
  "coeff (collect_prop e p c) = coeff c" "unitByte (collect_prop e p c) = unitByte c"
  by (simp_all add: collect_prop_def markUnsupported_def collector_write_def)

lemma collect_fold_frame [simp]:
  "phase (fold (collect_prop e) ps c) = phase c" "requests (fold (collect_prop e) ps c) = requests c"
  "get_errors (fold (collect_prop e) ps c) = get_errors c"
  "get_successes (fold (collect_prop e) ps c) = get_successes c"
  by (induction ps arbitrary: c) simp_all

lemma collect_fold_unsupported:
  "unsupported (fold (collect_prop e) ps c) = unsupported c \<union> {EPC p |p. p \<in> set ps \<and> EDT p = []}"
  by (induction ps arbitrary: c) (auto simp: collect_prop_def markUnsupported_def collector_write_def)

lemma collect_fold_written:
  "written (fold (collect_prop e) ps c) =
     written c @ concat (map (\<lambda>p. if EDT p = [] then [] else e p) ps)"
  by (induction ps arbitrary: c) (simp_all add: collect_prop_def markUnsupported_def collector_write_def)

lemmas collect_defs = collect_reply_def collectInstant_def collectCumulative_def collectScheduled_def Let_def

lemma collect_reply_frame [simp]:
  "phase (collect_reply z now k f c) = P_Idle" "requests (collect_reply z now k f c) = requests c"
  "get_errors (collect_reply z now k f c) = get_errors c"
  "get_successes (collect_reply z now k f c) = Suc (get_successes c)"
  "unsupported (collect_reply z now k f c) = unsupported c \<union> {EPC p |p. p \<in> set (Props f) \<and> EDT p = []}"
  by (cases k; simp add: collect_defs got_reply_def collect_fold_unsupported)+

lemma collect_written:
  "written (collectInstant now f c) =
     written c @ concat (map (\<lambda>p. if EDT p = [] then [] else emitInstant p now) (Props f))"
  "written (collectCumulative now f c) = written c @
     concat (map (\<lambda>p. if EDT p = [] then [] else emitCumulative p now (coeff c) (unitByte c)) (Props f))"
  "written (collectScheduled z f c) = written c @
     concat (map (\<lambda>p. if EDT p = [] then [] else emitScheduled z p (coeff c) (unitByte c)) (Props f))"
  by (simp_all only: collectInstant_def collectCumulative_def collectScheduled_def Let_def
      collect_fold_written) (simp_all add: got_reply_def)

lemma collect_reply_listed:
  "list_all listed (written c) \<Longrightarrow> list_all listed (written (collect_reply z now k f c))"
proof -
  have emit: "list_all listed (concat (map (\<lambda>p. if EDT p = [] then [] else e p) ps))"
    if "\<And>p. list_all listed (e p)" for e :: "property \<Rightarrow> measurement list" and ps
    using that by (induction ps) simp_all
  assume "list_all listed (written c)"
  then show ?thesis
    by (cases k) (simp_all add: collect_reply_def collect_written emit
        emitInstant_listed emitCumulative_listed emitScheduled_listed)
qed

section \<open>The invariant\<close>

definition batch_ok :: "byte set \<Rightarrow> poll_phase \<Rightarrow> bool" where
  "batch_ok bad ph =
     (case ph of
        P_Batch k es got \<Rightarrow>
          (\<exists>pre. poll_epcs k = pre @ es \<and> subseq got pre) \<and> set got \<inter> bad = {}
      | _ \<Rightarrow> True)"

definition waiting :: "poll_phase \<Rightarrow> nat" where
  "waiting ph = (case ph of P_Asked _ \<Rightarrow> 1 | _ \<Rightarrow> 0)"

definition collector_inv :: "collector \<Rightarrow> bool" where
  "collector_inv c \<longleftrightarrow>
     batch_ok (unsupported c) (phase c) \<and>
     list_all (\<lambda>b. b \<noteq> [] \<and> (\<exists>k. subseq b (poll_epcs k))) (requests c) \<and>
     list_all listed (written c) \<and>
     length (requests c) = get_errors c + get_successes c + waiting (phase c)"

lemma batch_ok_check:
  assumes "batch_ok bad (P_Batch k (e # es) got)" "s \<Longrightarrow> e \<notin> bad"
  shows "batch_ok bad (P_Batch k es (if s then got @ [e] else got))"
proof -
  obtain pre where "poll_epcs k = pre @ e # es" "subseq got pre" "set got \<inter> bad = {}"
    using assms(1) by (auto simp: batch_ok_def)
  moreover from this have "subseq (if s then got @ [e] else got) (pre @ [e])"
    by (auto intro: list_emb_append_mono subseq_rev_drop_many)
  ultimately show ?thesis
    using assms(2) by (auto simp: batch_ok_def intro!: exI [of _ "pre @ [e]"])
qed

lemma collector_step_inv:
  assumes "poll_step z c c'" "collector_inv c"
  shows "collector_inv c'"
  using assms
proof (induction rule: poll_step.induct)
  case (pl_probe c answer)
  then show ?case by (simp add: collector_inv_def)
next
  case (pl_first c k ks)
  then show ?case
    by (simp add: collector_inv_def collect_begin_def batch_ok_def waiting_def)
next
  case (pl_tick c k)
  then show ?case
    by (simp add: collector_inv_def collect_begin_def batch_ok_def waiting_def)
next
  case (pl_check c k e es got)
  then have "batch_ok (unsupported c) (P_Batch k es (if supports c e then got @ [e] else got))"
    by (intro batch_ok_check) (auto simp: collector_inv_def supports_def)
  with pl_check show ?case by (simp add: collector_inv_def collect_check_def waiting_def)
next
  case (pl_ask c k got)
  then show ?case
    by (auto simp: collector_inv_def collect_ask_def batch_ok_def waiting_def)
next
  case (pl_failed c k)
  then show ?case by (simp add: collector_inv_def collect_failed_def batch_ok_def waiting_def)
next
  case (pl_reply c k now f)
  then show ?case
    by (simp add: collector_inv_def collect_reply_listed batch_ok_def waiting_def)
qed

lemma started_inv: "started c \<Longrightarrow> collector_inv c"
  by (auto simp: started_def run_start_def NewCollector_def collector_inv_def batch_ok_def waiting_def Let_def
      split: option.splits)

interpretation coll: step_system started "poll_step z" collector_inv for z
  by unfold_locales (auto intro: started_inv collector_step_inv)

section \<open>An uninterrupted poll\<close>

lemma collect_ask_phase [simp]: "collect_ask k got (c\<lparr>phase := x\<rparr>) = collect_ask k got c"
  by (simp add: collect_ask_def)

lemma supports_phase [simp]: "supports (c\<lparr>phase := x\<rparr>) = supports c" "supports (c\<lparr>due := y\<rparr>) = supports c"
  by (simp_all add: supports_def fun_eq_iff split: option.split)

lemma batch_steps:
  "phase c = P_Batch k es got \<Longrightarrow>
     (poll_step z)\<^sup>*\<^sup>* c (collect_ask k (got @ filter (supports c) es) c)"
proof (induction es arbitrary: c got)
  case Nil
  then show ?case using pl_ask [of c k got z] by auto
next
  case (Cons e es)
  let ?c = "collect_check k e es got c"
  have "poll_step z c ?c" by (rule pl_check) (rule Cons.prems)
  moreover have "(poll_step z)\<^sup>*\<^sup>* ?c (collect_ask k ((if supports c e then got @ [e] else got) @ filter (supports ?c) es) ?c)"
    by (rule Cons.IH) (simp add: collect_check_def)
  ultimately show ?case
    by (auto simp: collect_check_def intro: converse_rtranclp_into_rtranclp split: if_splits)
qed

lemma put_ne [simp]: "put_be32 w \<noteq> []" "put_be16 r \<noteq> []"
  by (simp_all add: put_be32_def put_be16_def)

definition get_response :: "property list \<Rightarrow> frame" where
  "get_response ps =
     \<lparr>TID = 2, SEOJ = EOJSmartMeter, DEOJ = EOJController, ESV = ESVGetRes, Props = ps\<rparr>"

text \<open>A start of the polling loop.\<close>

definition fresh_collector :: collector where
  "fresh_collector = (NewCollector \<lparr>InstantInterval = 0, CumulativeInterval = 0, ScheduledInterval = 0,
     CollectTimeout = 0\<rparr>)\<lparr>probing := True, due := [PollInstant, PollCumulative]\<rparr>"

lemma fresh_started: "started fresh_collector"
  unfolding started_def fresh_collector_def
  by (rule exI [of _ "\<lparr>InstantInterval = 0, CumulativeInterval = 0, ScheduledInterval = 0, CollectTimeout = 0\<rparr>"])
    (simp add: run_start_def NewCollector_def poll_defaults_def new_ticker_def second_def minute_def Let_def)

lemmas poll_ops = NewCollector_def collect_begin_def collect_ask_def collect_failed_def
  supports_def poll_epcs_def instant_epcs_def cumulative_epcs_def

text \<open>The first poll is on its way: all three EPCs have been requested.\<close>

definition first_asked :: collector where
  "first_asked = collect_ask PollInstant instant_epcs
     (collect_begin PollInstant (fresh_collector\<lparr>due := [PollCumulative]\<rparr>))"

lemma first_asked_reachable: "reachable started (poll_step z) first_asked"
proof -
  let ?c = "collect_begin PollInstant (fresh_collector\<lparr>due := [PollCumulative]\<rparr>)"
  have "poll_step z fresh_collector ?c" by (rule pl_first) (simp_all add: fresh_collector_def poll_ops)
  moreover have "(poll_step z)\<^sup>*\<^sup>* ?c first_asked"
    using batch_steps [of ?c PollInstant instant_epcs "[]" z]
    by (simp add: first_asked_def fresh_collector_def poll_ops)
  ultimately have "(poll_step z)\<^sup>*\<^sup>* fresh_collector first_asked" by auto
  moreover have "reachable started (poll_step z) fresh_collector" by (rule reachable.start) (rule fresh_started)
  ultimately show ?thesis by (blast intro: reachable_steps)
qed

text \<open>It is answered without a voltage; the next poll follows.\<close>

definition no_voltage :: "zone \<Rightarrow> collector" where
  "no_voltage z = collect_reply z 5 PollInstant (get_response [\<lparr>EPC = EPCInstantVoltage, EDT = []\<rparr>]) first_asked"

lemma no_voltage_reachable: "reachable started (poll_step z) (no_voltage z)"
  unfolding no_voltage_def
  by (rule reachable.next_state [OF first_asked_reachable pl_reply])
    (simp add: first_asked_def fresh_collector_def poll_ops)

section \<open>Properties\<close>

text \<open>
  C19: An EPC the meter reported as unsupported is never requested again: once it is on the
  list, no later batch contains it, whatever the meter answers, however the probe goroutine
  interleaves, and although the property map may still advertise it.
\<close>

theorem unsupported_never_requested:
  assumes "reachable started (poll_step z) c" "e \<in> unsupported c" "(poll_step z)\<^sup>*\<^sup>* c c'"
  shows "\<exists>bs. requests c' = requests c @ bs \<and> list_all (\<lambda>b. e \<notin> set b) bs"
proof -
  have inv: "collector_inv c" by (rule coll.reachable_invar [OF assms(1)])
  have one_step: "e \<in> unsupported d' \<and> (\<exists>bs. requests d' = requests d @ bs \<and> list_all (\<lambda>b. e \<notin> set b) bs)"
    if "poll_step z d d'" "collector_inv d" "e \<in> unsupported d" for d d'
    using that
    by (cases rule: poll_step.cases)
      (auto simp: collect_begin_def collect_check_def collect_ask_def collect_failed_def collector_inv_def
        batch_ok_def)
  have "collector_inv c' \<and> e \<in> unsupported c' \<and>
      (\<exists>bs. requests c' = requests c @ bs \<and> list_all (\<lambda>b. e \<notin> set b) bs)"
    using assms(3)
  proof (induction rule: rtranclp_induct)
    case base
    then show ?case using inv assms(2) by simp
  next
    case (step d d')
    then obtain bs where "requests d = requests c @ bs" "list_all (\<lambda>b. e \<notin> set b) bs" by auto
    moreover obtain bs' where "requests d' = requests d @ bs'" "list_all (\<lambda>b. e \<notin> set b) bs'"
      and "e \<in> unsupported d'"
      using one_step [OF step.hyps(2)] step.IH by auto
    ultimately show ?case
      using collector_step_inv [OF step.hyps(2)] step.IH by (intro conjI exI [of _ "bs @ bs'"]) auto
  qed
  then show ?thesis by simp
qed

theorem unsupported_never_requested_witness:
  "\<exists>bs. requests (no_voltage (fixed_zone 0)) = requests (no_voltage (fixed_zone 0)) @ bs
     \<and> list_all (\<lambda>b. EPCInstantVoltage \<notin> set b) bs"
  by (rule unsupported_never_requested [OF no_voltage_reachable [of "fixed_zone 0"]])
    (simp_all add: no_voltage_def get_response_def)

text \<open>
  C28: Everything the collector ever hands to a sink belongs to one of ten series, each with
  its fixed name, unit and tags; their series keys are pairwise different, so neither the
  downsampler nor the Prometheus cache mixes two of them.
\<close>

theorem written_in_catalogue:
  assumes "reachable started (poll_step z) c"
  shows "list_all listed (written c) \<and> distinct (map (\<lambda>(n, u, ts). seriesKey n ts) catalogue)"
proof
  show "list_all listed (written c)"
    using coll.reachable_invar [OF assms] by (simp add: collector_inv_def)
  show "distinct (map (\<lambda>(n, u, ts). seriesKey n ts) catalogue)"
    by (simp add: catalogue_def seriesKey_def tag_segments_def sorted_keys_def tag_value_def)
qed

theorem written_in_catalogue_witness:
  "list_all listed (written (no_voltage (fixed_zone 0))) \<and>
     distinct (map (\<lambda>(n, u, ts). seriesKey n ts) catalogue)"
  by (rule written_in_catalogue [OF no_voltage_reachable])

text \<open>
  Every request is accounted for exactly once: it is nonempty and part of one poll's
  EPCs in their order, and once answered it has called exactly one of the two hooks, the
  error counter or the liveness mark; at most one request is outstanding.
\<close>

theorem requests_accounted:
  assumes "reachable started (poll_step z) c"
  shows "list_all (\<lambda>b. b \<noteq> [] \<and> (\<exists>k. subseq b (poll_epcs k))) (requests c)
    \<and> get_errors c + get_successes c \<le> length (requests c)
    \<and> length (requests c) \<le> Suc (get_errors c + get_successes c)
    \<and> (phase c = P_Idle \<longrightarrow> length (requests c) = get_errors c + get_successes c)"
  using coll.reachable_invar [OF assms]
  by (auto simp: collector_inv_def waiting_def split: poll_phase.splits)

theorem requests_accounted_witness:
  "length (requests (no_voltage (fixed_zone 0))) =
     get_errors (no_voltage (fixed_zone 0)) + get_successes (no_voltage (fixed_zone 0))"
  using requests_accounted [OF no_voltage_reachable [of "fixed_zone 0"]] by (simp add: no_voltage_def)

text \<open>The steps left before the loop waits for a tick again.\<close>

definition steps_left :: "poll_phase \<Rightarrow> nat" where
  "steps_left ph = (case ph of P_Idle \<Rightarrow> 0 | P_Batch _ es _ \<Rightarrow> length es + 2 | P_Asked _ \<Rightarrow> 1)"



text \<open>
  An instantaneous poll is exact: from a reply with the power, the current and the
  voltage it hands to the sinks, in order and stamped with the time of the reply, the signed
  power in watts without rounding, one current per phase (no T phase for the sentinel) and
  two voltages, each the tenth nearest to the raw integer.
\<close>

theorem instant_poll_exact:
  "written (collectInstant now
      (f\<lparr>Props := [\<lparr>EPC = EPCInstantPower, EDT = put_be32 w\<rparr>,
                 \<lparr>EPC = EPCInstantCurrent, EDT = put_be16 r @ put_be16 t\<rparr>,
                 \<lparr>EPC = EPCInstantVoltage, EDT = put_be16 v @ put_be16 v'\<rparr>]\<rparr>) c) =
     written c @
     [gauge now ''smartmeter_power_instant_w'' (Fin (sint w * int fscale)) ''W'' [],
      gauge now ''smartmeter_current_instant_a'' (f_lit (sint r) 10) ''A'' [(''phase'', ''r'')]] @
     (if t = 0x7FFE then []
      else [gauge now ''smartmeter_current_instant_a'' (f_lit (sint t) 10) ''A'' [(''phase'', ''t'')]]) @
     [gauge now ''smartmeter_voltage_instant_v'' (f_lit (uint v) 10) ''V'' [(''phase'', ''r'')],
      gauge now ''smartmeter_voltage_instant_v'' (f_lit (uint v') 10) ''V'' [(''phase'', ''t'')]]"
proof -
  have w: "f_of_int (sint w) = Fin (sint w * int fscale)"
    using sint_range_size [of w] by (intro f_of_int_exact) (auto simp: word_size)
  show ?thesis by (simp add: collect_written emitInstant_def epc_codes decode_tenths w)
qed

text \<open>
  C20: Once the probe has read coefficient and unit, the cumulative readings are scaled by
  them: a reply with both readings and the fault status becomes, in order, forward and
  reverse energy in kWh (reading times coefficient, 0 counting as 1, times unit) and the
  fault as 0 or 1.
\<close>

theorem cumulative_scaled:
  assumes "UnitKWh u = Inr scale"
  shows "written (collectCumulative now
      (g\<lparr>Props := [\<lparr>EPC = EPCCumulativeForward, EDT = put_be32 a\<rparr>,
                 \<lparr>EPC = EPCCumulativeReverse, EDT = put_be32 b\<rparr>,
                 \<lparr>EPC = EPCFaultStatus, EDT = [if fault then 0x41 else 0x42]\<rparr>]\<rparr>)
      (probe_turn (Inr (f\<lparr>Props := [\<lparr>EPC = EPCGetPropertyMap, EDT = edt\<rparr>,
                 \<lparr>EPC = EPCCoefficient, EDT = put_be32 k\<rparr>,
                 \<lparr>EPC = EPCCumulativeUnit, EDT = [u]\<rparr>]\<rparr>)) c)) =
    written c @
    [gauge now ''smartmeter_energy_forward_kwh''
       (f_mul (f_of_int (uint a * effective_coefficient k)) scale) ''kWh'' [],
     gauge now ''smartmeter_energy_reverse_kwh''
       (f_mul (f_of_int (uint b * effective_coefficient k)) scale) ''kWh'' [],
     gauge now ''smartmeter_fault'' (f_of_int (if fault then 1 else 0)) [] []]"
proof -
  define d where "d = probe_turn (Inr (f\<lparr>Props := [\<lparr>EPC = EPCGetPropertyMap, EDT = edt\<rparr>,
       \<lparr>EPC = EPCCoefficient, EDT = put_be32 k\<rparr>, \<lparr>EPC = EPCCumulativeUnit, EDT = [u]\<rparr>]\<rparr>)) c"
  have d: "coeff d = k" "unitByte d = u" "written d = written c"
    by (simp_all add: d_def) (simp_all add: probe_turn_def probeOnce_def probe_prop_def epc_codes split: sum.split)
  show ?thesis
    unfolding d_def [symmetric]
    by (simp add: collect_written d emitCumulative_def epc_codes emit_kwh_def CumulativeKWh_eq assms
        DecodeFaultStatus_def)
qed

theorem cumulative_scaled_witness:
  "map Value (written (collectCumulative 5
      (get_response []\<lparr>Props := [\<lparr>EPC = EPCCumulativeForward, EDT = put_be32 222355\<rparr>,
                 \<lparr>EPC = EPCCumulativeReverse, EDT = put_be32 7\<rparr>,
                 \<lparr>EPC = EPCFaultStatus, EDT = [if False then 0x41 else 0x42]\<rparr>]\<rparr>)
      (probe_turn (Inr (get_response []\<lparr>Props := [\<lparr>EPC = EPCGetPropertyMap, EDT = []\<rparr>,
                 \<lparr>EPC = EPCCoefficient, EDT = put_be32 1\<rparr>,
                 \<lparr>EPC = EPCCumulativeUnit, EDT = [0x01]\<rparr>]\<rparr>)) fresh_collector))) =
    [f_mul (f_of_int 222355) (f_lit 1 10), f_mul (f_of_int 7) (f_lit 1 10), Fin 0]"
  using cumulative_scaled [where u = "0x01" and scale = "f_lit 1 10" and now = 5 and g = "get_response []"
      and f = "get_response []" and a = 222355 and b = 7 and fault = False and edt = "[]" and k = 1
      and c = fresh_collector]
  by (simp add: UnitKWh_def effective_coefficient_def gauge_def fresh_collector_def NewCollector_def)

text \<open>
  C36: Before the probe has succeeded the cumulative readings are forwarded unscaled: the
  loop reaches, with the probe still running and no unit read, a state in which any raw
  reading has been handed to the sinks as that many kWh.
\<close>

theorem unprobed_reading_unscaled:
  "\<exists>c. reachable started (poll_step z) c \<and> probing c \<and> \<not> haveOneShot c \<and>
     gauge now ''smartmeter_energy_forward_kwh'' (f_of_int (uint (raw :: u32))) ''kWh'' [] \<in> set (written c)"
proof -
  let ?c3 = "collect_begin PollCumulative ((collect_failed first_asked)\<lparr>due := []\<rparr>)"
  let ?c4 = "collect_ask PollCumulative cumulative_epcs ?c3"
  let ?f = "get_response [\<lparr>EPC = EPCCumulativeForward, EDT = put_be32 raw\<rparr>]"
  let ?c5 = "collect_reply z now PollCumulative ?f ?c4"
  note ops = first_asked_def fresh_collector_def poll_ops
  have "poll_step z first_asked (collect_failed first_asked)" by (rule pl_failed) (simp add: ops)
  moreover have "poll_step z (collect_failed first_asked) ?c3" by (rule pl_first) (simp_all add: ops)
  moreover have "(poll_step z)\<^sup>*\<^sup>* ?c3 ?c4"
    using batch_steps [of ?c3 PollCumulative cumulative_epcs "[]" z] by (simp add: ops)
  moreover have "poll_step z ?c4 ?c5" by (rule pl_reply) (simp add: ops)
  ultimately have "(poll_step z)\<^sup>*\<^sup>* first_asked ?c5" by auto
  then have reach: "reachable started (poll_step z) ?c5"
    by (rule reachable_steps [OF first_asked_reachable])
  have "f_mul (f_of_int (uint raw)) (f_of_int 1) = f_of_int (uint raw)"
    using f_mul_ints [OF uint_u32_bounds, of 1 raw] by simp
  then have "gauge now ''smartmeter_energy_forward_kwh'' (f_of_int (uint raw)) ''kWh'' [] \<in> set (written ?c5)"
    by (simp add: collect_reply_def collect_written emitCumulative_def emit_kwh_def CumulativeKWh_eq
        UnitKWh_def effective_coefficient_def get_response_def ops)
  moreover have "probing ?c5 \<and> \<not> haveOneShot ?c5"
    by (simp add: collect_reply_def collectCumulative_def Let_def get_response_def ops got_reply_def
        collect_prop_def collector_write_def)
  ultimately show ?thesis using reach by blast
qed

end
