(* ===== verification/System_Daemon.thy ===== *)
theory System_Daemon
  imports System_Stack Collector_Safety
begin

text \<open>
  The collector on top of the communication stack: its requests are calls of the client, and
  what \<open>Get\<close> returns to it is what such a call returned. The polling loop and the probe
  goroutine are the only callers, each with one call at a time. So a measurement that the
  sinks are handed can be followed back to a line of the serial port, and a reply on
  the serial line forward to the sinks.
\<close>

section \<open>The system\<close>

text \<open>\<open>poll_call\<close> and \<open>probe_call\<close> are the calls of \<open>Get\<close> under way.\<close>

record daemon =
  net :: stack
  col :: collector
  poll_call :: "nat option"
  probe_call :: "nat option"

definition put_client :: "client \<Rightarrow> stack \<Rightarrow> stack" where
  "put_client c s = s\<lparr>cli_of := c\<rparr>"

text \<open>\<open>c.cli.Get(cctx, epcs...)\<close> of a poll, and its return.\<close>

definition poll_get :: "poll_kind \<Rightarrow> byte list \<Rightarrow> nat \<Rightarrow> daemon \<Rightarrow> daemon" where
  "poll_get k got i s =
     s\<lparr>net := put_client (call_begin i (GetReq got) (cli_of (net s))) (net s),
       col := collect_ask k got (col s), poll_call := Some i\<rparr>"

definition poll_return :: "zone \<Rightarrow> instant \<Rightarrow> poll_kind \<Rightarrow> client_error + frame \<Rightarrow> daemon \<Rightarrow> daemon" where
  "poll_return z now k r s =
     s\<lparr>col := (case r of Inl e \<Rightarrow> collect_failed (col s) | Inr f \<Rightarrow> collect_reply z now k f (col s)),
       poll_call := None\<rparr>"

text \<open>The same of \<open>probeOnce\<close>.\<close>

definition probe_get :: "nat \<Rightarrow> daemon \<Rightarrow> daemon" where
  "probe_get i s =
     s\<lparr>net := put_client (call_begin i (GetReq probe_epcs) (cli_of (net s))) (net s), probe_call := Some i\<rparr>"

definition probe_return :: "client_error + frame \<Rightarrow> daemon \<Rightarrow> daemon" where
  "probe_return r s = s\<lparr>col := probe_turn r (col s), probe_call := None\<rparr>"

definition call_returned :: "stack \<Rightarrow> nat \<Rightarrow> client_error + frame \<Rightarrow> bool" where
  "call_returned s i r \<longleftrightarrow> (\<exists>gc. in_phase (cli_of s) i gc (C_Returned r))"

inductive daemon_step :: "zone \<Rightarrow> daemon \<Rightarrow> daemon \<Rightarrow> bool" for z where
  dm_stack: "quiet_step (net s) t \<Longrightarrow> daemon_step z s (s\<lparr>net := t\<rparr>)"
| dm_first: "phase (col s) = P_Idle \<Longrightarrow> due (col s) = k # ks \<Longrightarrow>
    daemon_step z s (s\<lparr>col := collect_begin k ((col s)\<lparr>due := ks\<rparr>)\<rparr>)"
| dm_tick: "phase (col s) = P_Idle \<Longrightarrow> due (col s) = [] \<Longrightarrow>
    daemon_step z s (s\<lparr>col := collect_begin k (col s)\<rparr>)"
| dm_check: "phase (col s) = P_Batch k (e # es) got \<Longrightarrow>
    daemon_step z s (s\<lparr>col := collect_check k e es got (col s)\<rparr>)"
| dm_nothing: "phase (col s) = P_Batch k [] [] \<Longrightarrow> daemon_step z s (s\<lparr>col := collect_ask k [] (col s)\<rparr>)"
| dm_ask: "phase (col s) = P_Batch k [] got \<Longrightarrow> got \<noteq> [] \<Longrightarrow> gcalls (cli_of (net s)) i = None \<Longrightarrow>
    daemon_step z s (poll_get k got i s)"
| dm_answer: "phase (col s) = P_Asked k \<Longrightarrow> poll_call s = Some i \<Longrightarrow> call_returned (net s) i r \<Longrightarrow>
    daemon_step z s (poll_return z now k r s)"
| dm_probe: "probing (col s) \<Longrightarrow> probe_call s = None \<Longrightarrow> gcalls (cli_of (net s)) i = None \<Longrightarrow>
    daemon_step z s (probe_get i s)"
| dm_probed: "probing (col s) \<Longrightarrow> probe_call s = Some i \<Longrightarrow> call_returned (net s) i r \<Longrightarrow>
    daemon_step z s (probe_return r s)"

definition daemon_init :: "daemon \<Rightarrow> bool" where
  "daemon_init s \<longleftrightarrow> stack_init (net s) \<and> started (col s) \<and> poll_call s = None \<and> probe_call s = None"

section \<open>Stack and collector keep to their own steps\<close>

lemma begin_step:
  "gcalls (cli_of s) i = None \<Longrightarrow> stack_step s (put_client (call_begin i req (cli_of s)) s)"
  unfolding put_client_def
proof (rule s_client)
  assume i: "gcalls (cli_of s) i = None"
  then have "client_step (cli_of s) (call_begin i req (cli_of s))" by (rule c_begin)
  with i show "cli_alone (cli_of s) (call_begin i req (cli_of s))"
    by (auto simp: cli_alone_def call_begin_def set_call_def in_phase_def)
qed

lemma daemon_parts:
  assumes "daemon_step z s t"
  shows "(net t = net s \<or> stack_step (net s) (net t)) \<and> (col t = col s \<or> poll_step z (col s) (col t))"
  using assms
  by (induction rule: daemon_step.induct)
    (auto simp: poll_get_def poll_return_def probe_get_def probe_return_def quiet_step_def begin_step
      intro: poll_step.intros split: sum.split)

section \<open>Where a measurement comes from\<close>

text \<open>The scaling factors are those the collector starts with, or were read from a received frame.\<close>

definition read_coefficient :: "string list \<Rightarrow> u32 \<Rightarrow> bool" where
  "read_coefficient ls k \<longleftrightarrow> k = 0 \<or>
     (\<exists>f p. frame_of_line ls f \<and> p \<in> set (Props f) \<and> EPC p = EPCCoefficient \<and> DecodeCoefficient (EDT p) = Inr k)"

definition read_unit :: "string list \<Rightarrow> byte \<Rightarrow> bool" where
  "read_unit ls u \<longleftrightarrow> u = 0 \<or>
     (\<exists>f p. frame_of_line ls f \<and> p \<in> set (Props f) \<and> EPC p = EPCCumulativeUnit \<and> EDT p = [u])"

text \<open>The readings of one property of a received frame.\<close>

definition measured :: "zone \<Rightarrow> string list \<Rightarrow> measurement \<Rightarrow> bool" where
  "measured z ls m \<longleftrightarrow>
     (\<exists>f p now k u. frame_of_line ls f \<and> p \<in> set (Props f) \<and> EDT p \<noteq> [] \<and>
        read_coefficient ls k \<and> read_unit ls u \<and>
        m \<in> set (emitInstant p now) \<union> set (emitCumulative p now k u) \<union> set (emitScheduled z p k u))"

definition traced_col :: "zone \<Rightarrow> string list \<Rightarrow> collector \<Rightarrow> bool" where
  "traced_col z ls c \<longleftrightarrow>
     read_coefficient ls (coeff c) \<and> read_unit ls (unitByte c) \<and> (\<forall>m \<in> set (written c). measured z ls m)"

lemma rx_grows: "stack_step s t \<Longrightarrow> \<exists>ls. rx t = rx s @ ls"
  by (induction rule: stack_step.induct) (auto simp: take_event_def take_incoming_def)

lemma frame_of_line_append: "frame_of_line ls f \<Longrightarrow> frame_of_line (ls @ ls') f"
  by (auto simp: frame_of_line_def datagram_of_def)

lemma read_append:
  "read_coefficient ls k \<Longrightarrow> read_coefficient (ls @ ls') k" "read_unit ls u \<Longrightarrow> read_unit (ls @ ls') u"
  by (auto simp: read_coefficient_def read_unit_def intro: frame_of_line_append)

lemma measured_append:
  assumes "measured z ls m"
  shows "measured z (ls @ ls') m"
proof -
  obtain f p now k u where "frame_of_line ls f" "p \<in> set (Props f)" "EDT p \<noteq> []"
      "read_coefficient ls k" "read_unit ls u"
      "m \<in> set (emitInstant p now) \<union> set (emitCumulative p now k u) \<union> set (emitScheduled z p k u)"
    using assms unfolding measured_def by (elim exE conjE)
  then show ?thesis
    unfolding measured_def by (intro exI conjI) (rule frame_of_line_append read_append | assumption)+
qed

lemma traced_col_append: "traced_col z ls c \<Longrightarrow> traced_col z (ls @ ls') c"
  by (simp add: traced_col_def read_append measured_append)

lemma traced_col_frame:
  "traced_col z ls c \<Longrightarrow> coeff c' = coeff c \<Longrightarrow> unitByte c' = unitByte c \<Longrightarrow> written c' = written c \<Longrightarrow>
    traced_col z ls c'"
  by (simp add: traced_col_def)

lemma traced_probe_prop:
  assumes "frame_of_line ls f" "p \<in> set (Props f)" "traced_col z ls c"
  shows "traced_col z ls (probe_prop p c)"
proof -
  have "read_unit ls (EDT p ! 0)" if "EPC p = EPCCumulativeUnit" "length (EDT p) = 1"
    using that assms(1,2) unfolding read_unit_def by (cases "EDT p") auto
  moreover have "read_coefficient ls k" if "EPC p = EPCCoefficient" "DecodeCoefficient (EDT p) = Inr k" for k
    using that assms(1,2) unfolding read_coefficient_def by blast
  ultimately show ?thesis
    using assms(3) by (auto simp: probe_prop_def traced_col_def split: sum.split)
qed

lemma traced_probe:
  assumes "frame_of_line ls f" "traced_col z ls c"
  shows "traced_col z ls (probe_turn (Inr f) c)"
proof -
  have "traced_col z ls (fold probe_prop ps c)" if "set ps \<subseteq> set (Props f)" for ps
    using that assms(2) by (induction ps arbitrary: c) (auto intro: traced_probe_prop [OF assms(1)])
  from this [of "Props f"] show ?thesis
    by (simp add: probe_turn_def probeOnce_def) (erule traced_col_frame; simp)
qed

lemma collect_reply_scales [simp]:
  "coeff (collect_reply z now k f c) = coeff c" "unitByte (collect_reply z now k f c) = unitByte c"
proof -
  have "coeff (fold (collect_prop e) ps c) = coeff c \<and> unitByte (fold (collect_prop e) ps c) = unitByte c"
    for e ps c by (induction ps arbitrary: c) simp_all
  then show "coeff (collect_reply z now k f c) = coeff c" "unitByte (collect_reply z now k f c) = unitByte c"
    by (cases k; simp add: collect_defs got_reply_def)+
qed

lemma collect_reply_measured:
  assumes "frame_of_line ls f" "traced_col z ls c"
  shows "traced_col z ls (collect_reply z now k f c)"
proof -
  have "measured z ls m" if new: "m \<in> set (written (collect_reply z now k f c))" and old: "m \<notin> set (written c)" for m
  proof -
    obtain p where "p \<in> set (Props f)" "EDT p \<noteq> []"
        "m \<in> set (emitInstant p now) \<union> set (emitCumulative p now (coeff c) (unitByte c)) \<union>
           set (emitScheduled z p (coeff c) (unitByte c))"
      using new old by (cases k) (auto simp: collect_reply_def collect_written split: if_splits)
    then show ?thesis using assms unfolding measured_def traced_col_def by blast
  qed
  with assms(2) show ?thesis by (auto simp: traced_col_def)
qed

definition daemon_inv :: "zone \<Rightarrow> daemon \<Rightarrow> bool" where
  "daemon_inv z s \<longleftrightarrow>
     reachable stack_init stack_step (net s) \<and> reachable started (poll_step z) (col s) \<and>
     traced_col z (rx (net s)) (col s)"

lemma returned_line:
  assumes "reachable stack_init stack_step s" "call_returned s i (Inr f)"
  shows "frame_of_line (rx s) f"
proof -
  have inv: "traced s" "reachable client_init client_step (cli_of s)"
    using stack.reachable_invar [OF assms(1)] by (simp_all add: stack_inv_def components_reachable_def)
  obtain gc where "gcalls (cli_of s) i = Some gc" "gc_phase gc = C_Returned (Inr f)"
    using assms(2) by (auto simp: call_returned_def in_phase_def)
  then have "f \<in> set (seen (cli_of s))"
    using client_invD(1) [OF client.reachable_invar [OF inv(2)]] by (fastforce simp: call_ok_def)
  with inv(1) show ?thesis by (simp add: traced_def)
qed

lemma daemon_traced_step:
  assumes "daemon_step z s t" "reachable stack_init stack_step (net s)" "traced_col z (rx (net s)) (col s)"
  shows "traced_col z (rx (net t)) (col t)"
  using assms
proof (induction rule: daemon_step.induct)
  case (dm_stack s t)
  then obtain ls where "rx t = rx (net s) @ ls" using rx_grows [of "net s" t] by (auto simp: quiet_step_def)
  with dm_stack show ?case by (simp add: traced_col_append)
next
  case (dm_answer s k i r now)
  show ?case
  proof (cases r)
    case (Inl e)
    with dm_answer show ?thesis by (auto simp: poll_return_def collect_failed_def elim: traced_col_frame)
  next
    case (Inr f)
    with dm_answer have "frame_of_line (rx (net s)) f" by (auto intro: returned_line)
    with Inr dm_answer show ?thesis by (simp add: poll_return_def collect_reply_measured)
  qed
next
  case (dm_probed s i r)
  then show ?case
    by (cases r) (auto simp: probe_return_def probe_turn_def [of "Inl _"] probeOnce_def
        dest!: returned_line intro: traced_probe)
qed (auto simp: poll_get_def probe_get_def put_client_def collect_begin_def collect_check_def collect_ask_def
    elim!: traced_col_frame)

lemma started_values: "started c \<Longrightarrow> coeff c = 0 \<and> unitByte c = 0 \<and> written c = []"
  by (fastforce simp: started_def run_start_def NewCollector_def Let_def split: option.splits)

lemma daemon_start_inv: "daemon_init s \<Longrightarrow> daemon_inv z s"
  using started_values [of "col s"]
  by (auto simp: daemon_init_def daemon_inv_def traced_col_def read_coefficient_def read_unit_def
      intro: reachable.start)

lemma daemon_step_inv: "daemon_step z s t \<Longrightarrow> daemon_inv z s \<Longrightarrow> daemon_inv z t"
  using daemon_parts [of z s t] daemon_traced_step [of z s t] unfolding daemon_inv_def
  by (metis reachable.next_state)

interpretation daemon: step_system daemon_init "daemon_step z" "daemon_inv z" for z
  by unfold_locales (auto intro: daemon_start_inv daemon_step_inv)

section \<open>What the daemon asks\<close>

definition own_request :: "collector \<Rightarrow> request \<Rightarrow> bool" where
  "own_request c r \<longleftrightarrow> (\<exists>es. r = GetReq es \<and> (es = probe_epcs \<or> es \<in> set (requests c)))"

definition asks_only :: "collector \<Rightarrow> client \<Rightarrow> bool" where
  "asks_only c cl \<longleftrightarrow>
     (\<forall>i gc. gcalls cl i = Some gc \<longrightarrow> own_request c (gc_req gc)) \<and>
     (\<forall>d \<in> set (outbox cl). \<exists>t r. own_request c r \<and> snd d = encode (request_frame t r))"

lemma client_incoming_outbox [simp]: "outbox (client_incoming payload c) = outbox c"
  by (auto simp: client_incoming_def Let_def split: sum.split option.split)

lemma client_step_requests:
  assumes "client_step c c'" "dom (gcalls c') = dom (gcalls c)"
  shows "(gcalls c' i = Some gc' \<longrightarrow> (\<exists>gc. gcalls c i = Some gc \<and> gc_req gc' = gc_req gc)) \<and>
    (d \<in> set (outbox c') \<longrightarrow> d \<in> set (outbox c) \<or>
      (\<exists>j gc. gcalls c j = Some gc \<and> snd d = encode (request_frame (gc_tid gc) (gc_req gc))))"
  using assms
proof (induction rule: client_step.induct)
  case (c_begin c i req)
  then have "i \<in> dom (gcalls c)" by (auto simp: call_begin_def set_call_def)
  with c_begin show ?case by auto
qed (auto simp: in_phase_def call_connected_def call_draw_def call_redraw_def call_register_def call_send_def
    call_receive_def call_timeout_def call_leave_def client_deliver_def set_call_def request_payload_def Let_def
    split: option.splits if_splits)

lemma asks_only_quiet:
  assumes "asks_only c (cli_of s)" "quiet_step s t"
  shows "asks_only c (cli_of t)"
proof -
  have "cli_of t = cli_of s \<or> client_step (cli_of s) (cli_of t)" "dom (gcalls (cli_of t)) = dom (gcalls (cli_of s))"
    using assms(2) stack_components [of s t] by (auto simp: quiet_step_def)
  with assms(1) show ?thesis
    unfolding asks_only_def using client_step_requests [of "cli_of s" "cli_of t"] by metis
qed

lemma own_request_more: "own_request c r \<Longrightarrow> set (requests c) \<subseteq> set (requests c') \<Longrightarrow> own_request c' r"
  by (auto simp: own_request_def)

lemma asks_only_more:
  "asks_only c cl \<Longrightarrow> set (requests c) \<subseteq> set (requests c') \<Longrightarrow> asks_only c' cl"
  unfolding asks_only_def using own_request_more by blast

lemma asks_only_begin:
  "asks_only c cl \<Longrightarrow> own_request c r \<Longrightarrow> asks_only c (call_begin i r cl)"
  by (auto simp: asks_only_def call_begin_def set_call_def)

lemma asks_only_step: "daemon_step z s t \<Longrightarrow> asks_only (col s) (cli_of (net s)) \<Longrightarrow> asks_only (col t) (cli_of (net t))"
proof (induction rule: daemon_step.induct)
  case (dm_ask s k got i)
  then have "asks_only (collect_ask k got (col s)) (cli_of (net s))" "own_request (collect_ask k got (col s)) (GetReq got)"
    by (auto simp: collect_ask_def own_request_def elim!: asks_only_more)
  then show ?case by (simp add: poll_get_def put_client_def asks_only_begin)
next
  case (dm_answer s k i r now)
  then show ?case by (cases r) (auto simp: poll_return_def collect_failed_def elim!: asks_only_more)
qed (auto simp: asks_only_quiet collect_begin_def collect_check_def collect_ask_def probe_get_def probe_return_def
    put_client_def own_request_def elim!: asks_only_more intro!: asks_only_begin)

lemma asks_only_start: "daemon_init s \<Longrightarrow> asks_only (col s) (cli_of (net s))"
  by (auto simp: daemon_init_def stack_init_def stack_start_def NewClient_def asks_only_def)

interpretation asking: step_system daemon_init "daemon_step z" "\<lambda>s. asks_only (col s) (cli_of (net s))" for z
  by unfold_locales (auto intro: asks_only_start asks_only_step)

section \<open>The way of a reply to the sinks\<close>

lemma net_steps:
  "quiet s t \<Longrightarrow> (daemon_step z)\<^sup>*\<^sup>* \<lparr>net = s, col = c, poll_call = p, probe_call = q\<rparr>
     \<lparr>net = t, col = c, poll_call = p, probe_call = q\<rparr>"
proof (induction rule: rtranclp_induct)
  case (step t u)
  have "daemon_step z \<lparr>net = t, col = c, poll_call = p, probe_call = q\<rparr>
      \<lparr>net = u, col = c, poll_call = p, probe_call = q\<rparr>"
    using dm_stack [of "\<lparr>net = t, col = c, poll_call = p, probe_call = q\<rparr>" u] step(2) by simp
  with step(3) show ?case by (rule rtranclp.rtrancl_into_rtrancl)
qed simp

lemma answer_path:
  assumes "stack_idle (net s)" "phase (col s) = P_Asked k" "poll_call s = Some i"
    and "gcalls (cli_of (net s)) i = Some gc" "gc_phase gc = C_Sent" "gc_ch gc = []"
    and "tid_pending (cli_of (net s)) (TID f) = Some i"
    and "has_prefix l ''ERXUDP ''" "parseIncoming t (parseERXUDP l) = Some inc" "decode (Payload inc) = Inr f"
  shows "\<exists>u. (daemon_step z)\<^sup>*\<^sup>* s u \<and> rx (net u) = rx (net s) @ [l] \<and> col u = collect_reply z now k f (col s)"
proof -
  obtain d m c ls where n: "net s = stk d m c ls" by (cases "net s")
  note assms = assms [unfolded n, simplified]
  let ?c = "c\<lparr>seen := seen c @ [f], tid_pending := (tid_pending c)(TID f := None), delivering := Some (i, f)\<rparr>"
  obtain d' m' where up: "quiet (stk d m c ls) (stk d' m' ?c (ls @ [l]))"
    using answer_delivered [OF assms(1,8,9,10,7)] by blast
  obtain c' where c': "quiet (stk d m c ls) (stk d' m' c' (ls @ [l]))"
      "gcalls c' i = Some (gc\<lparr>gc_phase := C_Returned (Inr f)\<rparr>)"
    using answer_taken [OF up, of i f gc] assms(4-6) by auto
  let ?t = "s\<lparr>net := stk d' m' c' (ls @ [l])\<rparr>"
  have "(daemon_step z)\<^sup>*\<^sup>* s ?t"
    using net_steps [OF c'(1), of z "col s" "poll_call s" "probe_call s"] n by (cases s) simp
  moreover have "daemon_step z ?t (poll_return z now k (Inr f) ?t)"
    using assms(2,3) c'(2) by (intro dm_answer) (auto simp: call_returned_def in_phase_def)
  ultimately have "(daemon_step z)\<^sup>*\<^sup>* s (poll_return z now k (Inr f) ?t)"
    by (rule rtranclp.rtrancl_into_rtrancl)
  then show ?thesis
    by (intro exI [of _ "poll_return z now k (Inr f) ?t"]) (simp add: poll_return_def n)
qed

text \<open>The collector's first poll, sent to the meter.\<close>

lemma batch_path:
  "phase (col s) = P_Batch k es got \<Longrightarrow>
    (daemon_step z)\<^sup>*\<^sup>* s (s\<lparr>col := (col s)\<lparr>phase := P_Batch k [] (got @ filter (supports (col s)) es)\<rparr>\<rparr>)"
proof (induction es arbitrary: s got)
  case Nil
  then have "s\<lparr>col := (col s)\<lparr>phase := P_Batch k [] got\<rparr>\<rparr> = s" by (simp flip: Nil)
  then show ?case by simp
next
  case (Cons e es)
  let ?s = "s\<lparr>col := collect_check k e es got (col s)\<rparr>"
  have "daemon_step z s ?s" by (rule dm_check) (rule Cons.prems)
  moreover have "(daemon_step z)\<^sup>*\<^sup>* ?s (?s\<lparr>col := (col ?s)\<lparr>phase := P_Batch k []
      ((if supports (col s) e then got @ [e] else got) @ filter (supports (col ?s)) es)\<rparr>\<rparr>)"
    by (rule Cons.IH) (simp add: collect_check_def)
  ultimately show ?case
    by (auto simp: collect_check_def intro: converse_rtranclp_into_rtranclp split: if_splits)
qed

definition poll_sent :: daemon where
  "poll_sent = \<lparr>net = stk (new_driver 64) served asked [], col = first_asked, poll_call = Some 0, probe_call = None\<rparr>"

lemma poll_sent_reachable: "reachable daemon_init (daemon_step z) poll_sent"
proof -
  let ?s = "\<lambda>n c. \<lparr>net = n, col = c, poll_call = None, probe_call = None\<rparr>"
  let ?served = "stk (new_driver 64) served NewClient []"
  let ?c = "collect_begin PollInstant (fresh_collector\<lparr>due := [PollCumulative]\<rparr>)"
  let ?all = "fresh_collector\<lparr>due := [PollCumulative], phase := P_Batch PollInstant [] instant_epcs\<rparr>"
  have "reachable daemon_init (daemon_step z) (?s (stack_start 64 demo_config) fresh_collector)"
    by (rule reachable.start) (auto simp: daemon_init_def stack_init_def fresh_started)
  then have "reachable daemon_init (daemon_step z) (?s ?served fresh_collector)"
    by (rule reachable_steps) (rule net_steps [OF path_served])
  moreover have "daemon_step z (?s ?served fresh_collector) (?s ?served ?c)"
    using dm_first [of "?s ?served fresh_collector" PollInstant "[PollCumulative]" z]
    by (simp add: fresh_collector_def poll_ops)
  moreover have "(daemon_step z)\<^sup>*\<^sup>* (?s ?served ?c) (?s ?served ?all)"
    using batch_path [of "?s ?served ?c" PollInstant instant_epcs "[]" z]
    by (simp add: fresh_collector_def poll_ops)
  ultimately have "reachable daemon_init (daemon_step z) (?s ?served ?all)"
    by (blast intro: reachable.next_state reachable_steps)
  moreover have "daemon_step z (?s ?served ?all) (poll_get PollInstant instant_epcs 0 (?s ?served ?all))"
    by (rule dm_ask) (simp_all add: instant_epcs_def NewClient_def)
  moreover have "poll_get PollInstant instant_epcs 0 (?s ?served ?all) =
      \<lparr>net = stk (new_driver 64) served begun [], col = first_asked, poll_call = Some 0, probe_call = None\<rparr>"
    by (simp add: poll_get_def put_client_def begun_def first_asked_def poll_ops epc_codes fresh_collector_def)
  ultimately show ?thesis
    unfolding poll_sent_def using net_steps [OF path_asked, of z first_asked "Some 0" None]
    by (metis reachable.next_state reachable_steps)
qed

section \<open>Properties\<close>

text \<open>
  C2: Every measurement can be traced to the wire: whatever the sinks are handed was emitted
  for a property of a frame that came in as an \<open>ERXUDP\<close> line of the serial port, with
  its data unchanged, and scaled with a coefficient and a unit that were read from such
  frames too (or are still the initial zeros), however the goroutines of driver, manager, client,
  polling loop and probe interleave and whatever is dropped, late or lost between them.
\<close>

theorem reading_provenance:
  assumes "reachable daemon_init (daemon_step z) s" "m \<in> set (written (col s))"
  shows "\<exists>l \<in> set (rx (net s)). \<exists>t inc f p. has_prefix l ''ERXUDP '' \<and>
    parseIncoming t (parseERXUDP l) = Some inc \<and> decode (Payload inc) = Inr f \<and> p \<in> set (Props f) \<and> EDT p \<noteq> [] \<and>
    (\<exists>now k u. read_coefficient (rx (net s)) k \<and> read_unit (rx (net s)) u \<and>
      m \<in> set (emitInstant p now) \<union> set (emitCumulative p now k u) \<union> set (emitScheduled z p k u))"
proof -
  have "measured z (rx (net s)) m"
    using daemon.reachable_invar [OF assms(1)] assms(2) by (simp add: daemon_inv_def traced_col_def)
  then show ?thesis
    unfolding measured_def frame_of_line_def datagram_of_def by blast
qed


text \<open>A request of its own is a \<open>Get\<close> without data, for the EPCs of one batch.\<close>

lemma own_request_decodes:
  assumes "collector_inv c" "own_request c r"
  shows "\<exists>f. decode (encode (request_frame t r)) = Inr f \<and> ESV f = ESVGet \<and> SEOJ f = EOJController \<and>
    DEOJ f = EOJSmartMeter \<and> list_all (\<lambda>p. EDT p = []) (Props f) \<and>
    (map EPC (Props f) = probe_epcs \<or>
     map EPC (Props f) \<in> set (requests c) \<and> (\<exists>k. subseq (map EPC (Props f)) (poll_epcs k)))"
proof -
  obtain es where sent: "r = GetReq es" "es = probe_epcs \<or> es \<in> set (requests c)"
    using assms(2) by (auto simp: own_request_def)
  let ?f = "new_get_request t EOJSmartMeter es"
  have batch: "\<exists>k. subseq es (poll_epcs k)" if "es \<in> set (requests c)"
    using assms(1) that by (auto simp: collector_inv_def list_all_iff)
  have "length es \<le> 3"
    using sent(2)
  proof
    assume "es \<in> set (requests c)"
    then obtain k where "subseq es (poll_epcs k)" using batch by blast
    moreover have "length (poll_epcs k) \<le> 3"
      by (cases k) (simp_all add: poll_epcs_def instant_epcs_def cumulative_epcs_def scheduled_epcs_def)
    ultimately show ?thesis using list_emb_length [of "(=)" es "poll_epcs k"] by linarith
  qed (simp add: probe_epcs_def)
  then have "wf_frame ?f" by (simp add: wf_frame_def wf_prop_def new_get_request_def list_all_iff)
  then have "decode (encode (request_frame t r)) = Inr ?f"
    using echonet.dec_Some_iff [of "encode ?f" ?f] by (auto simp: sent(1))
  moreover have "map EPC (Props ?f) = es" by (simp add: new_get_request_def comp_def)
  ultimately show ?thesis
    using sent(2) batch by (intro exI [of _ ?f]) (auto simp: new_get_request_def list_all_iff)
qed

lemma poll_sent_ready:
  "stack_idle (net poll_sent)"
  "phase (col poll_sent) = P_Asked PollInstant" "poll_call poll_sent = Some 0"
  "gcalls (cli_of (net poll_sent)) 0 = Some (demo_call C_Sent)" "gc_phase (demo_call C_Sent) = C_Sent"
  "gc_ch (demo_call C_Sent) = []" "gc_tid (demo_call C_Sent) = 2"
  "tid_pending (cli_of (net poll_sent)) 2 = Some 0"
  using asked_idle
  by (simp add: poll_sent_def)
    (simp_all add: poll_sent_def first_asked_def poll_ops epc_codes asked_def demo_client_def demo_call_def)

lemma demo_decoded: "decode (Payload demo_datagram) = Inr demo_answer"
  by (simp add: demo_datagram_def decode_demo_answer)

lemma demo_tid: "TID demo_answer = 2"
  by (simp add: demo_answer_def)

lemma demo_written:
  "written (collect_reply z now PollInstant demo_answer first_asked) =
     [gauge now ''smartmeter_power_instant_w'' (f_of_int 256) ''W'' []]"
  by (simp add: collect_reply_def collect_written demo_answer_def emitInstant_def epc_codes DecodeInstantPowerW_def be32_def
      first_asked_def poll_ops fresh_collector_def)


theorem reading_provenance_witness:
  "\<exists>l t inc f p. parseIncoming t (parseERXUDP l) = Some inc \<and> decode (Payload inc) = Inr f \<and> p \<in> set (Props f) \<and> EDT p \<noteq> []"
proof -
  obtain u where u: "(daemon_step (fixed_zone 0))\<^sup>*\<^sup>* poll_sent u"
      "col u = collect_reply (fixed_zone 0) 7 PollInstant demo_answer first_asked"
    using answer_path [OF poll_sent_ready(1-6) _ demo_line_prefix demo_line_parsed demo_decoded,
        of "fixed_zone 0" 7] by (auto simp: poll_sent_ready demo_tid) (auto simp: poll_sent_def)
  have "gauge 7 ''smartmeter_power_instant_w'' (f_of_int 256) ''W'' [] \<in> set (written (col u))"
    by (simp add: u(2) demo_written)
  from reading_provenance [OF reachable_steps [OF poll_sent_reachable u(1)] this] show ?thesis by blast
qed

end
