(* ===== verification/System_Wire.thy ===== *)
theory System_Wire
  imports System_Daemon
begin

text \<open>
  The way down: what the daemon writes to the serial line. Commands have two sources, the
  supervisor's join sequence (\<open>connectOnce\<close>, through \<open>drv.Command\<close>) and the requests of the
  meter client (\<open>SendUDP\<close>, through \<open>drv.CommandBinary\<close>); here each of them is a call of the
  driver, and the result of a send is what that call returned.
\<close>

section \<open>The commands of the join sequence\<close>

definition join_command :: "broute_config \<Rightarrow> string \<Rightarrow> bool" where
  "join_command cfg line \<longleftrightarrow>
     line \<in> set (map fst (login_plan cfg)) \<or>
     (\<exists>d. line \<in> set (map fst (register_plan cfg d))) \<or> (\<exists>ip. line = join_line ip)"

lemma connectOnce_commands:
  assumes "line \<in> set (map fst (sent (snd (connectOnce cfg dg conn_start))))"
  shows "join_command cfg line"
proof -
  have "set (sent (snd (connectOnce cfg dg conn_start))) \<subseteq> set (planned cfg dg)"
    using connectOnce_sends_prefix [of cfg dg conn_start] by (auto simp: conn_start_def dest: set_mono_prefix)
  then have "line \<in> fst ` set (planned cfg dg)" using assms by auto
  then show ?thesis
    unfolding planned_def join_command_def by (auto split: sum.splits)
qed

section \<open>The system\<close>

text \<open>\<open>sends\<close> says for which request of the client a call of the driver is made.\<close>

record wired =
  dmn :: daemon
  sends :: "nat \<rightharpoonup> nat"

definition put_driver :: "driver \<Rightarrow> daemon \<Rightarrow> daemon" where
  "put_driver d s = s\<lparr>net := (net s)\<lparr>drv_of := d\<rparr>\<rparr>"

abbreviation drv :: "wired \<Rightarrow> driver" where "drv w \<equiv> drv_of (net (dmn w))"
abbreviation cli :: "wired \<Rightarrow> client" where "cli w \<equiv> cli_of (net (dmn w))"
abbreviation mgr :: "wired \<Rightarrow> manager" where "mgr w \<equiv> mgr_of (net (dmn w))"

text \<open>A step in which no command is issued and no request is sent.\<close>

definition silent :: "zone \<Rightarrow> daemon \<Rightarrow> daemon \<Rightarrow> bool" where
  "silent z s t \<longleftrightarrow> daemon_step z s t \<and> dom (calls (drv_of (net t))) = dom (calls (drv_of (net s))) \<and>
     (\<forall>i gc ss. in_phase (cli_of (net s)) i gc (C_Registered ss) \<longrightarrow> gcalls (cli_of (net t)) i = Some gc)"

text \<open>A command of the join sequence; a request handed to \<open>CommandBinary\<close>.\<close>

definition issue_join :: "nat \<Rightarrow> string \<Rightarrow> wired \<Rightarrow> wired" where
  "issue_join j line w = w\<lparr>dmn := put_driver (acquire_cmd j line [] (drv w)) (dmn w)\<rparr>"

definition issue_send :: "nat \<Rightarrow> nat \<Rightarrow> ip_addr \<Rightarrow> byte list \<Rightarrow> wired \<Rightarrow> wired" where
  "issue_send j i ip payload w =
     w\<lparr>dmn := put_driver (acquire_cmd j (sendto_header ip (length payload)) (map byte_char payload) (drv w)) (dmn w),
       sends := (sends w)(j \<mapsto> i)\<rparr>"

text \<open>\<open>SendUDP\<close> returns to the request: \<open>err\<close> is what \<open>CommandBinary\<close> returned, if it got there.\<close>

definition SendUDP :: "session \<Rightarrow> byte list \<Rightarrow> drv_error option \<Rightarrow> send_error option" where
  "SendUDP s payload err = sendUDP (\<lambda>_ _ _. err) None (MeterIP s) payload"

definition send_done_step :: "nat \<Rightarrow> get_call \<Rightarrow> session \<Rightarrow> drv_error option \<Rightarrow> wired \<Rightarrow> wired" where
  "send_done_step i gc s err w =
     w\<lparr>dmn := (dmn w)\<lparr>net := put_client (call_send i gc s (SendUDP s (request_payload gc) err) (cli w)) (net (dmn w))\<rparr>\<rparr>"

inductive wire_step :: "zone \<Rightarrow> wired \<Rightarrow> wired \<Rightarrow> bool" for z where
  w_silent: "silent z (dmn w) d \<Longrightarrow> wire_step z w (w\<lparr>dmn := d\<rparr>)"
| w_join: "run_at (mgr w) = Connecting \<Longrightarrow> join_command (mcfg (mgr w)) line \<Longrightarrow>
    cmd_mu (drv w) = None \<Longrightarrow> calls (drv w) j = None \<Longrightarrow> wire_step z w (issue_join j line w)"
| w_send: "in_phase (cli w) i gc (C_Registered s) \<Longrightarrow> i \<notin> ran (sends w) \<Longrightarrow>
    SendUDP s (request_payload gc) None = None \<Longrightarrow> to16 (MeterIP s) = Some ip \<Longrightarrow>
    cmd_mu (drv w) = None \<Longrightarrow> calls (drv w) j = None \<Longrightarrow>
    wire_step z w (issue_send j i ip (request_payload gc) w)"
| w_sent: "in_phase (cli w) i gc (C_Registered s) \<Longrightarrow> sends w j = Some i \<Longrightarrow>
    phase_of (drv w) j = Some (Returned ls err) \<Longrightarrow> wire_step z w (send_done_step i gc s err w)"
| w_refused: "in_phase (cli w) i gc (C_Registered s) \<Longrightarrow> SendUDP s (request_payload gc) None \<noteq> None \<Longrightarrow>
    wire_step z w (send_done_step i gc s None w)"

definition wire_init :: "wired \<Rightarrow> bool" where
  "wire_init w \<longleftrightarrow> daemon_init (dmn w) \<and> sends w = Map.empty"

section \<open>The daemon keeps to its steps\<close>

lemma driver_daemon:
  "drv_step (drv_of (net s)) d \<Longrightarrow> events d = events (drv_of (net s)) \<Longrightarrow>
    \<forall>line. d \<noteq> read_line line (drv_of (net s)) \<Longrightarrow> daemon_step z s (put_driver d s)"
  using dm_stack [of s "(net s)\<lparr>drv_of := d\<rparr>" z] s_driver [of "net s" d]
  by (simp add: put_driver_def quiet_step_def drv_alone_def)

lemma send_daemon:
  assumes "in_phase (cli_of (net s)) i gc (C_Registered ss)"
  shows "daemon_step z s (s\<lparr>net := put_client (call_send i gc ss err (cli_of (net s))) (net s)\<rparr>)"
proof -
  have "cli_alone (cli_of (net s)) (call_send i gc ss err (cli_of (net s)))"
    using c_send [OF assms, of err] assms
    by (auto simp: cli_alone_def call_send_def set_call_def in_phase_def split: option.split)
  moreover have "dom (gcalls (call_send i gc ss err (cli_of (net s)))) = dom (gcalls (cli_of (net s)))"
    using assms by (auto simp: call_send_def set_call_def in_phase_def split: option.split)
  ultimately show ?thesis
    using s_client [of "net s"] by (intro dm_stack) (simp add: quiet_step_def put_client_def)
qed

lemma wire_daemon: "wire_step z w w' \<Longrightarrow> daemon_step z (dmn w) (dmn w')"
proof (induction rule: wire_step.induct)
  case (w_join w line j)
  then show ?case
    by (simp add: issue_join_def) (rule driver_daemon, rule step_acquire, simp_all add: acquire_cmd_def no_line)
next
  case (w_send w i gc s ip j)
  then show ?case
    by (simp add: issue_send_def) (rule driver_daemon, rule step_acquire, simp_all add: acquire_cmd_def no_line)
qed (simp_all add: silent_def send_done_step_def send_daemon)

section \<open>What a call of the driver carries\<close>

definition text_of :: "pending_cmd \<Rightarrow> string \<times> string" where
  "text_of pc = (pc_cmd pc, pc_payload pc)"

text \<open>The calls keep their texts, and nothing is written.\<close>

definition keeps_texts :: "driver \<Rightarrow> driver \<Rightarrow> bool" where
  "keeps_texts d d' \<longleftrightarrow> (\<forall>j. map_option text_of (calls d' j) = map_option text_of (calls d j)) \<and> wire d' = wire d"

lemma keeps_texts_trans: "keeps_texts a b \<Longrightarrow> keeps_texts b c \<Longrightarrow> keeps_texts a c"
  by (simp add: keeps_texts_def)

lemma keeps_texts_same: "calls d' = calls d \<Longrightarrow> wire d' = wire d \<Longrightarrow> keeps_texts d d'"
  by (simp add: keeps_texts_def)

lemma keeps_texts_more: "keeps_texts d e \<Longrightarrow> calls d' = calls e \<Longrightarrow> wire d' = wire e \<Longrightarrow> keeps_texts d d'"
  by (simp add: keeps_texts_def)

lemma keeps_phase: "keeps_texts d (set_phase i ph d)"
  by (auto simp: set_phase_def keeps_texts_def text_of_def split: option.split)

lemma keeps_send_done: "keeps_texts d (send_done i r d)"
  by (auto simp: send_done_def keeps_texts_def text_of_def split: option.split)

lemma keeps_return: "keeps_texts d (return_cmd i ls err d)"
  by (rule keeps_texts_more [OF keeps_phase [of d i "Returned ls err"]]) (simp_all add: return_cmd_def)

lemma keeps_complete: "keeps_texts d (completePending ok code err d)"
proof (cases "pending d")
  case (Some i)
  have "keeps_texts d (d\<lparr>pending := None\<rparr>)" by (simp add: keeps_texts_same)
  with Some show ?thesis
    by (simp add: completePending_def) (erule keeps_texts_trans, rule keeps_send_done)
qed (simp add: completePending_def keeps_texts_same)

lemma keeps_fail: "keeps_texts d (fail_pending d)"
proof (cases "pending d")
  case (Some i)
  let ?r = "\<lparr>r_ok = False, r_fail = [], r_lines = [], r_err = Some ErrClosed\<rparr>"
  show ?thesis
    by (rule keeps_texts_more [OF keeps_send_done [of d i ?r]]) (simp_all add: fail_pending_def Some)
qed (simp add: fail_pending_def keeps_texts_same)

lemma keeps_response: "keeps_texts d (response_line l d)"
  by (auto simp: response_line_def keeps_texts_def text_of_def split: option.split)

lemma keeps_dispatch: "keeps_texts d (dispatch_line l d)"
  unfolding dispatch_line_def
  by (simp add: keeps_complete keeps_response) (simp add: keeps_texts_same)

lemma keeps_read_line: "keeps_texts d (read_line l d)"
proof -
  have "keeps_texts d (d\<lparr>dlog := dlog d @ [redactCredential l]\<rparr>)" by (simp add: keeps_texts_same)
  moreover have "keeps_texts x (handleLine l x)" for x
  proof (cases "epan_buf x")
    case (Some buf)
    have "keeps_texts x (pushEvent (buildEPANDESC buf) (x\<lparr>epan_buf := None\<rparr>))" by (simp add: keeps_texts_same)
    with Some show ?thesis
      by (auto simp: handleLine_def intro: keeps_texts_same elim!: keeps_texts_trans intro!: keeps_dispatch)
  qed (simp add: handleLine_def keeps_dispatch)
  ultimately show ?thesis unfolding read_line_def by (rule keeps_texts_trans)
qed

lemma keeps_read_end: "keeps_texts d (read_end err d)"
proof -
  define e where "e = (case err of None \<Rightarrow> d | Some x \<Rightarrow>
      if closed d then d
      else if close_once d then d\<lparr>read_err := Some x\<rparr>
      else d\<lparr>read_err := Some x, close_once := True, closed := True\<rparr>)"
  have "read_end err d = (fail_pending e)\<lparr>events_closed := True, reader_done := True\<rparr>"
    by (simp add: read_end_def e_def Let_def split: option.split)
  moreover have "keeps_texts d e"
    by (rule keeps_texts_same) (auto simp: e_def split: option.split)
  moreover have "keeps_texts e ((fail_pending e)\<lparr>events_closed := True, reader_done := True\<rparr>)"
    by (rule keeps_texts_more [OF keeps_fail]) simp_all
  ultimately show ?thesis by (metis keeps_texts_trans)
qed

definition written_line :: "driver \<Rightarrow> string \<Rightarrow> bool" where
  "written_line d x \<longleftrightarrow> (\<exists>j pc. calls d j = Some pc \<and> x = pc_cmd pc @ pc_payload pc @ [CHR 0x0D, CHR 0x0A])"

text \<open>A step of the driver begins a call, writes the text of one, or keeps all texts.\<close>

lemma driver_kinds:
  assumes "drv_step d d'"
  shows "keeps_texts d d' \<or> (\<exists>i. phase_of d i = Some Registered \<and> d' = writeCommand i None d) \<or>
    (\<exists>i line payload. calls d i = None \<and> d' = acquire_cmd i line payload d)"
  using assms
proof (induction rule: drv_step.induct)
  case (step_write d i werr)
  then obtain pc where pc: "calls d i = Some pc" by (auto simp: phase_of_def)
  show ?case
  proof (cases werr)
    case (Some e)
    have "keeps_texts d (d\<lparr>dlog := dlog d @ [redactCredential (pc_cmd pc)]\<rparr>)" by (simp add: keeps_texts_same)
    with pc Some show ?thesis
      by (simp add: writeCommand_def Let_def) (meson keeps_return keeps_texts_trans)
  qed (use step_write in auto)
next
  case (step_register d i)
  have "keeps_texts d (d\<lparr>pending := Some i\<rparr>)" by (simp add: keeps_texts_same)
  then have "keeps_texts d (set_phase i Registered (d\<lparr>pending := Some i\<rparr>))"
    by (rule keeps_texts_trans [OF _ keeps_phase])
  moreover have "keeps_texts d ((set_phase i (Returned [] (Some ErrBusy)) d)\<lparr>cmd_mu := None\<rparr>)"
    by (rule keeps_texts_more [OF keeps_phase]) simp_all
  ultimately show ?case by (simp add: register_cmd_def)
next
  case (step_close_fail d)
  have "keeps_texts d ((fail_pending d)\<lparr>closing := False\<rparr>)"
    by (rule keeps_texts_more [OF keeps_fail]) simp_all
  then show ?case by (simp add: close_fail_def)
qed (auto simp: check_closed_def finish_done_def finish_timeout_def finish_closed_def close_begin_def
    keeps_return keeps_phase keeps_read_line keeps_read_end keeps_texts_same)

lemma driver_texts:
  assumes "drv_step d d'" "dom (calls d') = dom (calls d)"
  shows "(\<forall>j. map_option text_of (calls d' j) = map_option text_of (calls d j)) \<and>
    (\<forall>x \<in> set (wire d'). x \<in> set (wire d) \<or> written_line d x)"
  using driver_kinds [OF assms(1)]
proof (elim disjE exE conjE)
  assume "keeps_texts d d'"
  then show ?thesis by (simp add: keeps_texts_def)
next
  fix i
  assume "phase_of d i = Some Registered" "d' = writeCommand i None d"
  then show ?thesis
    by (auto simp: writeCommand_def set_phase_def Let_def text_of_def written_line_def phase_of_def)
next
  fix i line payload
  assume "calls d i = None" "d' = acquire_cmd i line payload d"
  then have "i \<in> dom (calls d')" "i \<notin> dom (calls d)" by (auto simp: acquire_cmd_def)
  with assms(2) show ?thesis by simp
qed

section \<open>What is written to the serial line\<close>

text \<open>A command with its payload, as the two sources issue it.\<close>

definition issued :: "broute_config \<Rightarrow> collector \<Rightarrow> string \<Rightarrow> string \<Rightarrow> bool" where
  "issued cfg c cmd payload \<longleftrightarrow>
     join_command cfg cmd \<and> payload = [] \<or>
     (\<exists>ip t r. own_request c r \<and> cmd = sendto_header ip (length (encode (request_frame t r))) \<and> length ip = 16 \<and>
        payload = map byte_char (encode (request_frame t r)))"

definition wire_inv :: "zone \<Rightarrow> wired \<Rightarrow> bool" where
  "wire_inv z w \<longleftrightarrow>
     reachable daemon_init (daemon_step z) (dmn w) \<and>
     (\<forall>j pc. calls (drv w) j = Some pc \<longrightarrow> issued (mcfg (mgr w)) (col (dmn w)) (pc_cmd pc) (pc_payload pc)) \<and>
     (\<forall>x \<in> set (wire (drv w)). \<exists>cmd payload. x = cmd @ payload @ [CHR 0x0D, CHR 0x0A] \<and>
        issued (mcfg (mgr w)) (col (dmn w)) cmd payload)"

lemma issued_more: "issued cfg c cmd p \<Longrightarrow> set (requests c) \<subseteq> set (requests c') \<Longrightarrow> issued cfg c' cmd p"
  unfolding issued_def using own_request_more by blast

lemma notify_config [simp]:
  "mcfg (scanNotify ev m) = mcfg m" "mcfg (joinNotify ev m) = mcfg m" "mcfg (notifyDisconnect r m) = mcfg m"
  by (auto simp: scanNotify_def joinNotify_def notifyDisconnect_def split: option.split)

lemma handleEvent_config [simp]: "mcfg (handleEvent now ev m) = mcfg m"
  by (auto simp: handleEvent_def handle_code_def push_incoming_def split: option.split)

lemma mgr_step_config: "mgr_step m m' \<Longrightarrow> mcfg m' = mcfg m"
  by (induction rule: mgr_step.induct)
    (auto simp: mgr_ops wait_over_def wait_prepare_def scan_unblock_def wait_look_def wait_take_ch_def set_waiter_def
      Let_def split: option.split)

lemma daemon_config: "daemon_step z s t \<Longrightarrow> mcfg (mgr_of (net t)) = mcfg (mgr_of (net s))"
  using daemon_parts [of z s t] stack_components [of "net s" "net t"] mgr_step_config by metis

lemma collector_requests: "poll_step z c c' \<Longrightarrow> set (requests c) \<subseteq> set (requests c')"
  by (induction rule: poll_step.induct)
    (auto simp: collect_begin_def collect_check_def collect_ask_def collect_failed_def)

lemma daemon_requests: "daemon_step z s t \<Longrightarrow> set (requests (col s)) \<subseteq> set (requests (col t))"
  using daemon_parts [of z s t] collector_requests by auto

lemma daemon_driver: "daemon_step z s t \<Longrightarrow> drv_of (net t) = drv_of (net s) \<or> drv_step (drv_of (net s)) (drv_of (net t))"
  using daemon_parts [of z s t] stack_components [of "net s" "net t"] by metis

lemma wire_inv_silent:
  assumes "wire_inv z w" "silent z (dmn w) s"
  shows "wire_inv z (w\<lparr>dmn := s\<rparr>)"
proof -
  let ?ok = "issued (mcfg (mgr w)) (col (dmn w))"
  have step: "daemon_step z (dmn w) s" "dom (calls (drv_of (net s))) = dom (calls (drv w))"
    using assms(2) by (auto simp: silent_def)
  note inv = assms(1) [unfolded wire_inv_def]
  have texts: "(\<forall>j. map_option text_of (calls (drv_of (net s)) j) = map_option text_of (calls (drv w) j)) \<and>
      (\<forall>x \<in> set (wire (drv_of (net s))). x \<in> set (wire (drv w)) \<or> written_line (drv w) x)"
    using daemon_driver [OF step(1)] driver_texts [OF _ step(2)] by auto
  have more: "issued (mcfg (mgr w)) (col s) cmd p" if "?ok cmd p" for cmd p
    using that daemon_requests [OF step(1)] by (rule issued_more)
  have "?ok (pc_cmd pc) (pc_payload pc)" if "calls (drv_of (net s)) j = Some pc" for j pc
  proof -
    have "map_option text_of (calls (drv w) j) = Some (text_of pc)" using texts that by (metis option.map(2))
    then obtain pc' where "calls (drv w) j = Some pc'" "text_of pc' = text_of pc" by blast
    with inv show ?thesis by (metis Pair_inject text_of_def)
  qed
  then have "\<forall>j pc. calls (drv_of (net s)) j = Some pc \<longrightarrow>
      issued (mcfg (mgr w)) (col s) (pc_cmd pc) (pc_payload pc)" using more by blast
  moreover have "\<exists>cmd payload. x = cmd @ payload @ [CHR 0x0D, CHR 0x0A] \<and> ?ok cmd payload"
    if "x \<in> set (wire (drv_of (net s)))" for x
    using texts that inv unfolding written_line_def by blast
  then have "\<forall>x \<in> set (wire (drv_of (net s))). \<exists>cmd payload. x = cmd @ payload @ [CHR 0x0D, CHR 0x0A] \<and>
      issued (mcfg (mgr w)) (col s) cmd payload" using more by blast
  moreover have "reachable daemon_init (daemon_step z) s"
    using inv step(1) by (blast intro: reachable.next_state)
  ultimately show ?thesis
    by (simp add: wire_inv_def daemon_config [OF step(1)])
qed

lemma wire_inv_issue:
  assumes "wire_inv z w" "issued (mcfg (mgr w)) (col (dmn w)) cmd payload"
    and "dmn w' = put_driver (acquire_cmd j cmd payload (drv w)) (dmn w)"
    and "reachable daemon_init (daemon_step z) (dmn w')"
  shows "wire_inv z w'"
  using assms by (auto simp: wire_inv_def put_driver_def acquire_cmd_def)

lemma wire_inv_step: "wire_step z w w' \<Longrightarrow> wire_inv z w \<Longrightarrow> wire_inv z w'"
proof -
  assume step: "wire_step z w w'" and inv: "wire_inv z w"
  have reach: "reachable daemon_init (daemon_step z) (dmn w')"
    using wire_daemon [OF step] inv by (auto simp: wire_inv_def intro: reachable.next_state)
  from step show "wire_inv z w'"
  proof cases
    case (w_silent d)
    with inv show ?thesis by (simp add: wire_inv_silent)
  next
    case (w_join line j)
    then have "issued (mcfg (mgr w)) (col (dmn w)) line []" by (simp add: issued_def)
    with w_join show ?thesis by (intro wire_inv_issue [OF inv _ _ reach]) (simp_all add: issue_join_def)
  next
    case (w_send i gc s ip j)
    have "own_request (col (dmn w)) (gc_req gc)"
      using asking.reachable_invar [of z "dmn w"] inv w_send(2)
      by (auto simp: wire_inv_def asks_only_def in_phase_def)
    then have "issued (mcfg (mgr w)) (col (dmn w)) (sendto_header ip (length (request_payload gc)))
        (map byte_char (request_payload gc))"
      using length_to16 [OF w_send(5)] unfolding issued_def request_payload_def by blast
    with w_send show ?thesis by (intro wire_inv_issue [OF inv _ _ reach]) (simp_all add: issue_send_def)
  next
    case (w_sent i gc s j ls err)
    with inv reach show ?thesis by (simp add: wire_inv_def send_done_step_def put_client_def)
  next
    case (w_refused i gc s)
    with inv reach show ?thesis by (simp add: wire_inv_def send_done_step_def put_client_def)
  qed
qed

lemma wire_start_inv: "wire_init w \<Longrightarrow> wire_inv z w"
proof -
  assume w: "wire_init w"
  then have "reachable daemon_init (daemon_step z) (dmn w)"
    by (intro reachable.start) (simp add: wire_init_def)
  moreover have "calls (drv w) = Map.empty" "wire (drv w) = []"
    using w by (auto simp: wire_init_def daemon_init_def stack_init_def stack_start_def new_driver_def)
  ultimately show ?thesis by (simp add: wire_inv_def)
qed

interpretation wired: step_system wire_init "wire_step z" "wire_inv z" for z
  by unfold_locales (auto intro: wire_start_inv wire_inv_step)

section \<open>Properties\<close>

lemma silent_reach:
  "reachable wire_init (wire_step z) w \<Longrightarrow> silent z (dmn w) d \<Longrightarrow> reachable wire_init (wire_step z) (w\<lparr>dmn := d\<rparr>)"
  by (erule reachable.next_state) (erule w_silent)

text \<open>A join sequence on its way: the reset has been written.\<close>

abbreviation joining :: "driver \<Rightarrow> wired" where
  "joining d \<equiv> \<lparr>dmn = \<lparr>net = stk d (run_top (NewManager demo_config)) NewClient [], col = fresh_collector,
     poll_call = None, probe_call = None\<rparr>, sends = Map.empty\<rparr>"

lemma joining_silent:
  assumes "reachable wire_init (wire_step z) (joining d)" "drv_step d d'" "events d' = events d"
    and "dom (calls d') = dom (calls d)" "phase_of d' i \<noteq> phase_of d i"
  shows "reachable wire_init (wire_step z) (joining d')"
proof -
  have "daemon_step z (dmn (joining d)) (put_driver d' (dmn (joining d)))"
    using assms(2,3) no_line(2) [OF assms(5)] by (intro driver_daemon) simp_all
  then have "silent z (dmn (joining d)) (put_driver d' (dmn (joining d)))"
    using assms(4) by (simp add: silent_def put_driver_def in_phase_def NewClient_def)
  then show ?thesis
    using silent_reach [OF assms(1)] by (simp add: put_driver_def)
qed

definition reset_issued :: driver where
  "reset_issued = acquire_cmd 0 ''SKRESET'' [] (new_driver 64)"

definition reset_written :: driver where
  "reset_written = writeCommand 0 None (register_cmd 0 (check_closed 0 reset_issued))"

lemmas reset_defs = reset_written_def reset_issued_def writeCommand_def register_cmd_def check_closed_def set_phase_def
  acquire_cmd_def new_driver_def phase_of_def

lemma reset_reachable: "reachable wire_init (wire_step z) (joining reset_written)"
proof -
  let ?new = "NewManager demo_config"
  let ?w = "\<lparr>dmn = \<lparr>net = stk (new_driver 64) ?new NewClient [], col = fresh_collector,
     poll_call = None, probe_call = None\<rparr>, sends = Map.empty\<rparr>"
  have "reachable wire_init (wire_step z) ?w"
    by (rule reachable.start)
      (auto simp: wire_init_def daemon_init_def stack_init_def stack_start_def fresh_started)
  moreover have "silent z (dmn ?w) (dmn (joining (new_driver 64)))"
  proof -
    have "stack_step (net (dmn ?w)) (net (dmn (joining (new_driver 64))))"
      using s_manager [of "net (dmn ?w)" "run_top ?new"] m_top [of ?new]
      by (simp add: mgr_alone_def NewManager_def mgr_ops undisturbed_def)
    then have "daemon_step z (dmn ?w) (dmn (joining (new_driver 64)))"
      using dm_stack [of "dmn ?w" "net (dmn (joining (new_driver 64)))" z] by (simp add: quiet_step_def)
    then show ?thesis by (simp add: silent_def in_phase_def)
  qed
  ultimately have "reachable wire_init (wire_step z) (joining (new_driver 64))"
    by (auto dest: silent_reach)
  moreover have "wire_step z (joining (new_driver 64)) (issue_join 0 ''SKRESET'' (joining (new_driver 64)))"
    by (rule w_join) (simp_all add: NewManager_def mgr_ops join_command_def login_plan_def new_driver_def)
  ultimately have "reachable wire_init (wire_step z) (joining reset_issued)"
    using reachable.next_state by (fastforce simp: issue_join_def put_driver_def reset_issued_def)
  then have "reachable wire_init (wire_step z) (joining (check_closed 0 reset_issued))"
    by (rule joining_silent [OF _ step_check]) (auto simp: reset_defs)
  then have "reachable wire_init (wire_step z) (joining (register_cmd 0 (check_closed 0 reset_issued)))"
    by (rule joining_silent [OF _ step_register]) (auto simp: reset_defs)
  then show ?thesis unfolding reset_written_def
    by (rule joining_silent [OF _ step_write]) (auto simp: reset_defs)
qed

text \<open>
  C12: The daemon only reads the meter, down to the serial line: everything ever written to the
  port is either a command of the join sequence, or an \<open>SKSENDTO\<close> command whose data is a
  \<open>Get\<close> request from the controller to the smart meter, without any property data, for the
  EPCs of the probe or of a logged batch of one poll kind; each followed by CR LF,
  whatever goroutines, answers, timeouts and reconnects do.
\<close>

theorem wire_read_only:
  assumes "reachable wire_init (wire_step z) w" "x \<in> set (wire (drv w))"
  shows "\<exists>cmd payload. x = cmd @ payload @ [CHR 0x0D, CHR 0x0A] \<and>
    (join_command (mcfg (mgr w)) cmd \<and> payload = [] \<or>
     (\<exists>ip data f. cmd = sendto_header ip (length data) \<and> payload = map byte_char data \<and> decode data = Inr f \<and>
        ESV f = ESVGet \<and> SEOJ f = EOJController \<and> DEOJ f = EOJSmartMeter \<and> list_all (\<lambda>p. EDT p = []) (Props f) \<and>
        (map EPC (Props f) = probe_epcs \<or> map EPC (Props f) \<in> set (requests (col (dmn w))) \<and>
           (\<exists>k. subseq (map EPC (Props f)) (poll_epcs k)))))"
proof -
  have inv: "wire_inv z w" by (rule wired.reachable_invar [OF assms(1)])
  then obtain cmd payload where x: "x = cmd @ payload @ [CHR 0x0D, CHR 0x0A]"
      "issued (mcfg (mgr w)) (col (dmn w)) cmd payload"
    using assms(2) by (auto simp: wire_inv_def)
  have "collector_inv (col (dmn w))"
    using inv daemon.reachable_invar coll.reachable_invar by (auto simp: wire_inv_def daemon_inv_def)
  note asked = own_request_decodes [OF this]
  show ?thesis
    using x(2) unfolding issued_def
  proof (elim disjE exE conjE)
    fix ip t r
    assume "own_request (col (dmn w)) r" "cmd = sendto_header ip (length (encode (request_frame t r)))"
      "payload = map byte_char (encode (request_frame t r))"
    with x(1) show ?thesis using asked [of r t] by blast
  qed (use x(1) in blast)
qed

theorem wire_read_only_witness:
  "\<exists>cmd. ''SKRESET'' @ [CHR 0x0D, CHR 0x0A] = cmd @ [CHR 0x0D, CHR 0x0A] \<and>
     (join_command (with_defaults demo_config) cmd \<or> (\<exists>ip n s. cmd = sendto_header ip n @ s))"
proof -
  have "''SKRESET'' @ [CHR 0x0D, CHR 0x0A] \<in> set (wire (drv (joining reset_written)))"
    by (simp add: reset_defs)
  from wire_read_only [OF reset_reachable this] show ?thesis
    by (force simp: NewManager_def mgr_ops)
qed

end
