(* ===== verification/System_Events.thy ===== *)
theory System_Events
  imports System_Stack
begin

text \<open>
  Where the events of the join sequence come from: a beacon that reaches the scan channel of
  the manager, and the event that reaches its join channel, were built by the reader of the
  driver from lines that it has read, whatever happens on the way between them.
\<close>

definition heard_event :: "string list \<Rightarrow> event \<Rightarrow> bool" where
  "heard_event ls ev \<longleftrightarrow>
     (Kind ev = ''EPANDESC'' \<longrightarrow> (\<exists>buf. sublist buf ls \<and> ev = buildEPANDESC buf)) \<and>
     (Kind ev = ''EVENT'' \<longrightarrow> (\<exists>l \<in> set ls. has_prefix l ''EVENT '' \<and> ev = parseEvent ''EVENT'' l))"

definition heard :: "stack \<Rightarrow> bool" where
  "heard s \<longleftrightarrow>
     (\<forall>ev \<in> set (events (drv_of s)). heard_event (rx s) ev) \<and>
     (\<forall>ev \<in> queued (scan_ch (mgr_of s)) \<union> blocked (disp_at (mgr_of s)). heard_event (rx s) ev) \<and>
     (\<forall>ev \<in> queued (join_ch (mgr_of s)). heard_event (rx s) ev \<and> Kind ev = ''EVENT'') \<and>
     (\<forall>buf. epan_buf (drv_of s) = Some buf \<longrightarrow> suffix buf (rx s))"

lemma heard_more: "heard_event ls ev \<Longrightarrow> sublist ls ls' \<Longrightarrow> heard_event ls' ev"
  unfolding heard_event_def using set_mono_sublist [of ls ls'] sublist_order.order_trans [of _ ls ls'] by blast

section \<open>The reader\<close>

lemma answer_keeps_rows [simp]:
  "epan_buf (completePending ok fl err d) = epan_buf d" "epan_buf (response_line l d) = epan_buf d"
  "epan_buf (fail_pending d) = epan_buf d" "epan_buf (set_phase i ph d) = epan_buf d"
  "epan_buf (return_cmd i ls e d) = epan_buf d"
  by (auto simp: completePending_def response_line_def fail_pending_def send_done_def return_cmd_def set_phase_def
      split: option.split)

lemma kinds_of_lines:
  "Kind (parseERXUDP l) = ''ERXUDP''" "Kind (parseEvent k l) = k" "Kind (buildEPANDESC buf) = ''EPANDESC''"
  by (simp_all add: parseERXUDP_kind parseEvent_def buildEPANDESC_def Let_def)

lemma first_word_kinds:
  "has_prefix l ''ERXTCP '' \<or> has_prefix l ''ETIMER'' \<Longrightarrow> first_word l \<noteq> ''EPANDESC'' \<and> first_word l \<noteq> ''EVENT''"
  by (auto simp: first_word_def elim!: has_prefixE)

lemma dispatch_line_heard:
  assumes "ev \<in> set (events (dispatch_line l d))"
  shows "ev \<in> set (events d) \<or> heard_event [l] ev"
  using assms first_word_kinds [of l]
  by (auto simp: dispatch_line_def answer_keeps_events heard_event_def kinds_of_lines
      split: if_splits dest!: pushEvent_events)

lemma read_line_heard:
  assumes "ev \<in> set (events (read_line l d))" "\<And>buf. epan_buf d = Some buf \<Longrightarrow> suffix buf ls"
  shows "ev \<in> set (events d) \<or> heard_event (ls @ [l]) ev"
proof -
  have "sublist buf (ls @ [l])" if "suffix buf ls" for buf
    using that by (meson prefix_imp_sublist prefixI sublist_order.order_trans suffix_imp_sublist)
  then have "heard_event (ls @ [l]) (buildEPANDESC buf)" if "suffix buf ls" for buf
    using that unfolding heard_event_def by (auto simp: kinds_of_lines)
  moreover have "heard_event (ls @ [l]) ev" if "heard_event [l] ev" for ev
    using that by (rule heard_more) (simp add: suffix_imp_sublist)
  ultimately show ?thesis
    using assms
    by (auto simp: read_line_def handleLine_def split: option.splits if_splits
        dest!: dispatch_line_heard pushEvent_events)
qed

lemma dispatch_line_rows:
  "epan_buf (dispatch_line l d) = (if l = ''EPANDESC'' then Some [l] else epan_buf d)"
  by (auto simp: dispatch_line_def is_ok_line_def has_prefix_def)

lemma read_line_rows:
  "epan_buf (read_line l d) = Some buf \<Longrightarrow> (\<And>b. epan_buf d = Some b \<Longrightarrow> suffix b ls) \<Longrightarrow>
     suffix buf (ls @ [l])"
  by (auto simp: suffix_def read_line_def handleLine_def dispatch_line_rows split: option.splits if_splits)

lemma drv_step_rows:
  "drv_step d d' \<Longrightarrow> \<forall>line. d' \<noteq> read_line line d \<Longrightarrow> epan_buf d' = epan_buf d"
  by (induction rule: drv_step.induct)
    (auto simp: acquire_cmd_def check_closed_def register_cmd_def writeCommand_def finish_done_def
      finish_timeout_def finish_closed_def read_end_def close_begin_def close_fail_def Let_def split: option.split)

section \<open>The dispatcher\<close>

lemma handleEvent_scan:
  "queued (scan_ch (handleEvent now ev m)) \<union> blocked (disp_at (handleEvent now ev m)) \<subseteq>
     insert ev (queued (scan_ch m) \<union> blocked (disp_at m))"
  by (auto simp: handleEvent_def handle_code_def scanNotify_def joinNotify_def notifyDisconnect_def
      push_incoming_def split: option.splits if_splits)

lemma handleEvent_join:
  assumes "x \<in> queued (join_ch (handleEvent now ev m))"
  shows "x \<in> queued (join_ch m) \<or> x = ev \<and> Kind ev = ''EVENT''"
  using assms
  by (auto simp: handleEvent_def handle_code_def scanNotify_def joinNotify_def notifyDisconnect_def
      push_incoming_def split: option.splits if_splits)

lemma dispatch_closed_queues:
  "scan_ch (dispatch_closed m) = scan_ch m" "join_ch (dispatch_closed m) = join_ch m"
  "disp_at (dispatch_closed m) = Dispatch_Done"
  by (simp_all add: notifyDisconnect_def split: option.split)

lemma heard_step: "stack_step s t \<Longrightarrow> heard s \<Longrightarrow> heard t"
proof (induction rule: stack_step.induct)
  case (s_driver s d)
  then show ?case using drv_step_rows [of "drv_of s" d] by (simp add: heard_def drv_alone_def)
next
  case (s_read s line)
  then have rows: "suffix buf (rx s)" if "epan_buf (drv_of s) = Some buf" for buf
    using that by (simp add: heard_def)
  have "heard_event (rx s @ [line]) ev" if "heard_event (rx s) ev" for ev
    using that by (rule heard_more) simp
  then show ?case
    using s_read read_line_heard [OF _ rows, where l = line] read_line_rows [OF _ rows, where l = line]
    by (simp add: heard_def) blast
next
  case (s_event s ev evs now)
  let ?m = "mgr_of s"
  have ev: "heard_event (rx s) ev" using s_event by (simp add: heard_def)
  have "heard_event (rx s) x"
    if "x \<in> queued (scan_ch (handleEvent now ev ?m)) \<union> blocked (disp_at (handleEvent now ev ?m))" for x
    using subsetD [OF handleEvent_scan that] ev s_event(3) by (auto simp: heard_def)
  moreover have "heard_event (rx s) x \<and> Kind x = ''EVENT''"
    if "x \<in> queued (join_ch (handleEvent now ev ?m))" for x
    using handleEvent_join [OF that] ev s_event(3) by (auto simp: heard_def)
  ultimately show ?case
    using s_event by (simp add: heard_def take_event_def)
next
  case (s_events_closed s)
  then show ?case by (simp add: heard_def dispatch_closed_queues del: dispatch_closed_def)
next
  case (s_manager s m)
  then show ?case unfolding heard_def mgr_alone_def undisturbed_def by auto
qed (simp_all add: heard_def take_incoming_def)

interpretation hearing: step_system stack_init stack_step heard
proof unfold_locales
  show "heard s" if "stack_init s" for s
    using that by (auto simp: stack_init_def stack_start_def heard_def new_driver_def NewManager_def)
qed (rule heard_step)

end
