(* ===== verification/Broute_Join.thy ===== *)
theory Broute_Join
  imports Broute_Supervise
begin

text \<open>
  \<open>connectOnce\<close> of \<open>internal/broute/connect.go\<close> step by step. \<open>Broute_Connect\<close> has it as a
  function of what the module does (the \<open>dongle\<close>); here it is the goroutine that it is in the
  program, which waits for each command, for the scan and for the join while everything
  else goes on, and the two are proved to give the same results.
\<close>

section \<open>Where the sequence is\<close>

text \<open>
  One program counter for each \<open>setState\<close>, each command and each critical section of
  \<open>connectOnce\<close>, \<open>activeScan\<close> and \<open>doJoin\<close>; \<open>J_Scanning\<close> and \<open>J_Await\<close> are their \<open>select\<close>
  statements, \<open>J_Scan_Off\<close> and \<open>J_Join_Off\<close> their deferred functions.
\<close>

datatype join_pc =
    J_Init | J_Reset | J_Wopt | J_Ropt | J_Password | J_Id
  | J_Scan_State | J_Scan_On | J_Scan_Cmd
  | J_Scanning "epan_descriptor option"
  | J_Scan_Off "scan_error + epan_descriptor"
  | J_Channel epan_descriptor | J_Pan epan_descriptor | J_Mac epan_descriptor
  | J_Join_State epan_descriptor ip_addr
  | J_Join_On epan_descriptor ip_addr
  | J_Join_Cmd epan_descriptor ip_addr
  | J_Await epan_descriptor ip_addr
  | J_Join_Off epan_descriptor ip_addr "connect_error + unit"
  | J_Result "connect_error + session"

text \<open>The command that is sent there, with its timeout, and where its result leads.\<close>

fun command_of :: "broute_config \<Rightarrow> join_pc \<Rightarrow> (string \<times> Duration) option" where
  "command_of cfg J_Reset = Some (''SKRESET'', go_s 5)"
| "command_of cfg J_Wopt = Some (''WOPT 01'', go_ms 500)"
| "command_of cfg J_Ropt = Some (''ROPT 01'', go_ms 500)"
| "command_of cfg J_Password = Some (password_line cfg, CommandTimeout cfg)"
| "command_of cfg J_Id = Some (id_line cfg, CommandTimeout cfg)"
| "command_of cfg J_Scan_Cmd = Some (scan_line cfg, CommandTimeout cfg)"
| "command_of cfg (J_Channel d) = Some (set_channel_line d, CommandTimeout cfg)"
| "command_of cfg (J_Pan d) = Some (set_pan_line d, CommandTimeout cfg)"
| "command_of cfg (J_Join_Cmd d ip) = Some (join_line ip, CommandTimeout cfg)"
| "command_of cfg p = None"

definition or_fail :: "string \<Rightarrow> join_pc \<Rightarrow> drv_error option \<Rightarrow> join_pc" where
  "or_fail label p err = (case err of None \<Rightarrow> p | Some e \<Rightarrow> J_Result (Inl (SimpleFailed label e)))"

fun after :: "join_pc \<Rightarrow> drv_error option \<Rightarrow> join_pc" where
  "after J_Reset err = or_fail ''SKRESET'' J_Wopt err"
| "after J_Wopt err = J_Ropt"
| "after J_Ropt err = J_Password"
| "after J_Password err = or_fail ''SKSETPWD'' J_Id err"
| "after J_Id err = or_fail ''SKSETRBID'' J_Scan_State err"
| "after J_Scan_Cmd err =
     (case err of None \<Rightarrow> J_Scanning None | Some e \<Rightarrow> J_Scan_Off (Inl (ScanCommand e)))"
| "after (J_Channel d) err = or_fail ''SKSREG S2'' (J_Pan d) err"
| "after (J_Pan d) err = or_fail ''SKSREG S3'' (J_Mac d) err"
| "after (J_Join_Cmd d ip) err =
     (case err of None \<Rightarrow> J_Await d ip | Some e \<Rightarrow> J_Join_Off d ip (Inl (JoinCommand e)))"
| "after p err = p"

text \<open>The steps in between, and the states they enter.\<close>

definition session_for :: "epan_descriptor \<Rightarrow> ip_addr \<Rightarrow> session" where
  "session_for d ip =
     \<lparr>MeterIP = ip, SessPANID = PANID d, SessChannel = Channel d, MeterMAC = Addr d\<rparr>"

fun moves :: "join_pc \<Rightarrow> join_pc option" where
  "moves J_Init = Some J_Reset"
| "moves J_Scan_State = Some J_Scan_On"
| "moves J_Scan_On = Some J_Scan_Cmd"
| "moves (J_Scan_Off r) =
     Some (case r of Inl e \<Rightarrow> J_Result (Inl (ScanFailed e)) | Inr d \<Rightarrow> J_Channel d)"
| "moves (J_Mac d) =
     Some (case macToLinkLocalIPv6 (Addr d) of
             Inl e \<Rightarrow> J_Result (Inl (MacFailed e)) | Inr ip \<Rightarrow> J_Join_State d ip)"
| "moves (J_Join_State d ip) = Some (J_Join_On d ip)"
| "moves (J_Join_On d ip) =
     Some (if formatIPv6Upper ip = None then J_Join_Off d ip (Inl IndexPanic) else J_Join_Cmd d ip)"
| "moves (J_Join_Off d ip r) =
     Some (case r of Inl e \<Rightarrow> J_Result (Inl e) | Inr u \<Rightarrow> J_Result (Inr (session_for d ip)))"
| "moves p = None"

fun enters :: "join_pc \<Rightarrow> State list" where
  "enters J_Init = [StateInitializing]"
| "enters J_Scan_State = [StateScanning]"
| "enters (J_Join_State d ip) = [StateJoining]"
| "enters p = []"

text \<open>\<open>case ev := <-scanCh\<close>.\<close>

definition scan_event :: "epan_descriptor option \<Rightarrow> event \<Rightarrow> join_pc" where
  "scan_event found ev =
     (if Kind ev = ''EPANDESC'' then
        (case parseEPANDESC ev of
           Inl e \<Rightarrow> J_Scanning found
         | Inr desc \<Rightarrow>
             J_Scanning (case found of None \<Rightarrow> Some desc
                         | Some f \<Rightarrow> Some (if LQI desc > LQI f then desc else f)))
      else if is_event ''22'' ev then
        J_Scan_Off (case found of Some d \<Rightarrow> Inr d | None \<Rightarrow> Inl NoMeterResponded)
      else J_Scanning found)"

text \<open>\<open>case <-wctx.Done()\<close> of the scan.\<close>

definition scan_timeout :: "epan_descriptor option \<Rightarrow> join_pc" where
  "scan_timeout found = J_Scan_Off (case found of Some d \<Rightarrow> Inr d | None \<Rightarrow> Inl ScanTimedOut)"

section \<open>The machine\<close>

text \<open>
  What an attempt has seen: the commands with their results, the events taken from the
  scan channel, the event taken from the join channel and the states entered.
\<close>

record attempt =
  told :: "((string \<times> Duration) \<times> drv_error option) list"
  taken :: "event list"
  verdict :: "event option"
  stages :: "State list"

definition no_attempt :: attempt where
  "no_attempt = \<lparr>told = [], taken = [], verdict = None, stages = []\<rparr>"

definition enter_stage :: "join_pc \<Rightarrow> attempt \<Rightarrow> attempt" where
  "enter_stage p a = a\<lparr>stages := stages a @ enters p\<rparr>"

inductive join_step :: "broute_config \<Rightarrow> join_pc \<times> attempt \<Rightarrow> join_pc \<times> attempt \<Rightarrow> bool" for cfg where
  j_command: "command_of cfg p = Some lt \<Longrightarrow>
    join_step cfg (p, a) (after p err, a\<lparr>told := told a @ [(lt, err)]\<rparr>)"
| j_move: "moves p = Some q \<Longrightarrow> join_step cfg (p, a) (q, enter_stage p a)"
| j_scan: "join_step cfg (J_Scanning found, a) (scan_event found ev, a\<lparr>taken := taken a @ [ev]\<rparr>)"
| j_scan_over: "join_step cfg (J_Scanning found, a) (scan_timeout found, a)"
| j_join: "join_step cfg (J_Await d ip, a) (J_Join_Off d ip (join_outcome je), a\<lparr>verdict := je\<rparr>)"

section \<open>A run against a given module\<close>

text \<open>How far the sequence is from its end.\<close>

fun left :: "join_pc \<Rightarrow> nat" where
  "left J_Init = 19" | "left J_Reset = 18" | "left J_Wopt = 17" | "left J_Ropt = 16"
| "left J_Password = 15" | "left J_Id = 14" | "left J_Scan_State = 13" | "left J_Scan_On = 12"
| "left J_Scan_Cmd = 11" | "left (J_Scanning f) = 10" | "left (J_Scan_Off r) = 9"
| "left (J_Channel d) = 8" | "left (J_Pan d) = 7" | "left (J_Mac d) = 6"
| "left (J_Join_State d ip) = 5" | "left (J_Join_On d ip) = 4" | "left (J_Join_Cmd d ip) = 3"
| "left (J_Await d ip) = 2" | "left (J_Join_Off d ip r) = 1" | "left (J_Result r) = 0"

lemma left_command: "command_of cfg p = Some lt \<Longrightarrow> left (after p err) < left p"
  by (cases p) (auto simp: or_fail_def split: option.split)

lemma left_move: "moves p = Some q \<Longrightarrow> left q < left p"
  by (cases p) (auto split: sum.splits if_splits)

lemma left_scan: "left (scan_event found ev) \<le> 10"
  by (simp add: scan_event_def split: sum.split)

definition enter_conn :: "join_pc \<Rightarrow> conn \<Rightarrow> conn" where
  "enter_conn p c = c\<lparr>entered := entered c @ enters p\<rparr>"

text \<open>The rest of the sequence; \<open>evs\<close> are the scan events that are still to come.\<close>

function resume :: "broute_config \<Rightarrow> dongle \<Rightarrow> event list \<Rightarrow> join_pc \<Rightarrow> session connecting" where
  "resume cfg dg evs p c =
     (case command_of cfg p of
        Some (line, t) \<Rightarrow>
          (let (err, c') = drv_command dg line t c in resume cfg dg evs (after p err) c')
      | None \<Rightarrow>
          (case moves p of
             Some q \<Rightarrow> resume cfg dg evs q (enter_conn p c)
           | None \<Rightarrow>
               (case p of
                  J_Scanning found \<Rightarrow> resume cfg dg [] (J_Scan_Off (scan_loop found evs)) c
                | J_Await d ip \<Rightarrow> resume cfg dg evs (J_Join_Off d ip (join_outcome (join_event dg))) c
                | J_Result r \<Rightarrow> (r, c)
                | _ \<Rightarrow> (Inl IndexPanic, c))))"
  by pat_completeness auto
termination
  by (relation "measure (\<lambda>(cfg, dg, evs, p, c). left p)")
    (auto simp: left_command left_move)

declare resume.simps [simp del]

lemma resume_command:
  "command_of cfg p = Some (line, t) \<Longrightarrow>
     resume cfg dg evs p c =
       resume cfg dg evs (after p (reply dg (map fst (sent c)) line)) (c\<lparr>sent := sent c @ [(line, t)]\<rparr>)"
  by (subst resume.simps) (simp add: drv_command_def)

lemma command_moves: "command_of cfg p = Some lt \<Longrightarrow> moves p = None"
  by (cases p) auto

lemma resume_move:
  "moves p = Some q \<Longrightarrow> resume cfg dg evs p c = resume cfg dg evs q (enter_conn p c)"
  using command_moves [of cfg p]
  by (subst resume.simps) (cases "command_of cfg p"; simp)

lemma resume_scan:
  "resume cfg dg evs (J_Scanning found) c = resume cfg dg [] (J_Scan_Off (scan_loop found evs)) c"
  "resume cfg dg evs (J_Await d ip) c =
     resume cfg dg evs (J_Join_Off d ip (join_outcome (join_event dg))) c"
  "resume cfg dg evs (J_Result r) c = (r, c)"
  by (subst resume.simps; simp)+

section \<open>The run is \<open>connectOnce\<close>\<close>

lemma resume_simple:
  assumes "command_of cfg p = Some (line, t)" "\<And>err. after p err = or_fail label q err"
  shows "resume cfg dg evs p = bind_c (simple dg label line t) (\<lambda>_. resume cfg dg evs q)"
  by (rule ext) (simp add: resume_command [OF assms(1)] assms(2) or_fail_def bind_c_def simple_def
      drv_command_def resume_scan split: option.split)

lemma resume_best_effort:
  assumes "command_of cfg p = Some (line, go_ms 500)" "\<And>err. after p err = q"
  shows "resume cfg dg evs p = bind_c (best_effort dg line) (\<lambda>_. resume cfg dg evs q)"
  by (rule ext) (simp add: resume_command [OF assms(1)] assms(2) bind_c_def best_effort_def drv_command_def)

lemma resume_enter:
  assumes "moves p = Some q" "enters p = [s]"
  shows "resume cfg dg evs p = bind_c (enter_state s) (\<lambda>_. resume cfg dg evs q)"
  by (rule ext) (simp add: resume_move [OF assms(1)] assms(2) enter_conn_def bind_c_def enter_state_def)

lemma enter_nothing: "enters p = [] \<Longrightarrow> enter_conn p c = c"
  by (simp add: enter_conn_def)

lemma resume_join:
  "resume cfg dg evs (J_Join_On d ip) =
     bind_c (doJoin cfg dg ip) (\<lambda>_ c. (Inr (session_for d ip), c))"
proof -
  have off: "resume cfg dg evs (J_Join_Off d ip r) c =
      (case r of Inl e \<Rightarrow> (Inl e, c) | Inr u \<Rightarrow> (Inr (session_for d ip), c))" for r c
    by (subst resume_move) (auto simp: enter_nothing resume_scan split: sum.split)
  show ?thesis
    by (rule ext, subst resume_move, simp)
      (auto simp: enter_nothing off resume_command resume_scan bind_c_def doJoin_def drv_command_def
        split: option.split sum.split)
qed

lemma resume_mac:
  "resume cfg dg evs (J_Mac d) = bind_c (mac_address d) (\<lambda>ip. resume cfg dg evs (J_Join_State d ip))"
  by (rule ext, subst resume_move, simp)
    (auto simp: enter_nothing resume_scan bind_c_def mac_address_def split: sum.split)

lemma resume_scanning:
  "resume cfg dg (scan_events dg) J_Scan_On =
     bind_c (activeScan cfg dg) (\<lambda>d. resume cfg dg [] (J_Channel d))"
proof -
  have off: "resume cfg dg evs (J_Scan_Off r) c =
      (case r of Inl e \<Rightarrow> (Inl (ScanFailed e), c) | Inr d \<Rightarrow> resume cfg dg evs (J_Channel d) c)" for evs r c
    by (subst resume_move) (auto simp: enter_nothing resume_scan split: sum.split)
  show ?thesis
    by (rule ext, subst resume_move, simp)
      (auto simp: enter_nothing off resume_command resume_scan bind_c_def activeScan_def drv_command_def
        split: option.split sum.split)
qed

lemma resume_connectOnce: "resume cfg dg (scan_events dg) J_Init = connectOnce cfg dg"
  by (simp add: connectOnce_def resume_join resume_mac resume_scanning session_for_def
      resume_enter [of J_Init J_Reset] resume_enter [of J_Scan_State J_Scan_On]
      resume_enter [of "J_Join_State d ip" "J_Join_On d ip" for d ip]
      resume_simple [of _ J_Reset _ _ "''SKRESET''" J_Wopt] resume_best_effort [of _ J_Wopt _ J_Ropt]
      resume_best_effort [of _ J_Ropt _ J_Password] resume_simple [of _ J_Password _ _ "''SKSETPWD''" J_Id]
      resume_simple [of _ J_Id _ _ "''SKSETRBID''" J_Scan_State]
      resume_simple [of _ "J_Channel d" _ _ "''SKSREG S2''" "J_Pan d" for d]
      resume_simple [of _ "J_Pan d" _ _ "''SKSREG S3''" "J_Mac d" for d])

section \<open>The machine follows \<open>connectOnce\<close>\<close>

text \<open>The log of an attempt, and the module that answers as it was answered.\<close>

definition conn_of :: "attempt \<Rightarrow> conn" where
  "conn_of a = \<lparr>sent = map fst (told a), entered = stages a\<rparr>"

definition dongle_of :: "attempt \<Rightarrow> dongle" where
  "dongle_of a =
     \<lparr>reply = (\<lambda>h line. if length h < length (told a) then snd (told a ! length h) else None),
      scan_events = taken a, join_event = verdict a\<rparr>"

definition told_line :: "attempt \<Rightarrow> nat \<Rightarrow> string" where
  "told_line a k = fst (fst (told a ! k))"

definition answers_as :: "dongle \<Rightarrow> attempt \<Rightarrow> bool" where
  "answers_as dg a \<longleftrightarrow>
     (\<forall>k < length (told a). reply dg (map (fst \<circ> fst) (take k (told a))) (told_line a k) = snd (told a ! k))"

definition agrees :: "dongle \<Rightarrow> join_pc \<Rightarrow> attempt \<Rightarrow> bool" where
  "agrees dg p a \<longleftrightarrow>
     answers_as dg a \<and> prefix (taken a) (scan_events dg) \<and>
     (left p < 10 \<longrightarrow> scan_events dg = taken a) \<and> (left p < 2 \<longrightarrow> join_event dg = verdict a)"

definition follows :: "broute_config \<Rightarrow> join_pc \<times> attempt \<Rightarrow> bool" where
  "follows cfg pa \<longleftrightarrow>
     (\<forall>dg. agrees dg (fst pa) (snd pa) \<longrightarrow>
        connectOnce cfg dg conn_start =
          resume cfg dg (drop (length (taken (snd pa))) (scan_events dg)) (fst pa) (conn_of (snd pa)))"

lemma agrees_dongle: "agrees (dongle_of a) p a"
  by (simp add: agrees_def answers_as_def dongle_of_def)

lemma answers_told:
  "answers_as dg (a\<lparr>told := told a @ [(lt, err)]\<rparr>) \<longleftrightarrow>
     answers_as dg a \<and> reply dg (map fst (sent (conn_of a))) (fst lt) = err"
  by (auto simp: answers_as_def told_line_def nth_append less_Suc_eq conn_of_def comp_def)

lemma scan_loop_event:
  "scan_event found ev = J_Scanning f \<Longrightarrow> scan_loop found (ev # evs) = scan_loop f evs"
  "scan_event found ev = J_Scan_Off r \<Longrightarrow> scan_loop found (ev # evs) = r"
  by (auto simp: scan_event_def split: if_splits sum.splits option.splits)

lemma scan_event_cases:
  obtains f where "scan_event found ev = J_Scanning f" | r where "scan_event found ev = J_Scan_Off r"
proof -
  have "(\<exists>f. scan_event found ev = J_Scanning f) \<or> (\<exists>r. scan_event found ev = J_Scan_Off r)"
    by (simp add: scan_event_def split: sum.split)
  with that show thesis by blast
qed

lemma follows_step: "join_step cfg pa pb \<Longrightarrow> follows cfg pa \<Longrightarrow> follows cfg pb"
proof (induction rule: join_step.induct)
  case (j_command p lt a err)
  have "agrees dg p a \<and> reply dg (map fst (sent (conn_of a))) (fst lt) = err"
    if "agrees dg (after p err) (a\<lparr>told := told a @ [(lt, err)]\<rparr>)" for dg
    using that left_command [OF j_command(1), of err] by (auto simp: agrees_def answers_told)
  with j_command show ?case
    by (cases lt) (auto simp: follows_def resume_command conn_of_def)
next
  case (j_move p q a)
  have "agrees dg p a" if "agrees dg q (enter_stage p a)" for dg
    using that left_move [OF j_move(1)]
    by (auto simp: agrees_def enter_stage_def answers_as_def told_line_def)
  with j_move show ?case
    by (auto simp: follows_def resume_move conn_of_def enter_stage_def enter_conn_def)
next
  case (j_scan found a ev)
  have "connectOnce cfg dg conn_start = resume cfg dg (drop (Suc (length (taken a))) (scan_events dg))
      (scan_event found ev) (conn_of a)"
    if ag: "agrees dg (scan_event found ev) (a\<lparr>taken := taken a @ [ev]\<rparr>)" for dg
  proof -
    obtain evs where evs: "scan_events dg = taken a @ ev # evs"
      using ag by (auto simp: agrees_def prefix_def)
    have "agrees dg (J_Scanning found) a"
      using ag evs by (auto simp: agrees_def answers_as_def told_line_def)
    then have start: "connectOnce cfg dg conn_start = resume cfg dg (ev # evs) (J_Scanning found) (conn_of a)"
      using j_scan evs by (simp add: follows_def)
    show ?thesis
    proof (rule scan_event_cases [of found ev])
      fix f
      assume "scan_event found ev = J_Scanning f"
      with start evs show ?thesis by (simp add: resume_scan scan_loop_event(1) del: scan_loop.simps)
    next
      fix r
      assume off: "scan_event found ev = J_Scan_Off r"
      with ag evs have "evs = []" by (simp add: agrees_def)
      with start evs off show ?thesis by (simp add: resume_scan scan_loop_event(2) del: scan_loop.simps)
    qed
  qed
  then show ?case by (simp add: follows_def conn_of_def)
next
  case (j_scan_over found a)
  then show ?case
    by (auto simp: follows_def agrees_def scan_timeout_def resume_scan)
next
  case (j_join d ip a je)
  have "agrees dg (J_Await d ip) a" if "agrees dg (J_Join_Off d ip (join_outcome je)) (a\<lparr>verdict := je\<rparr>)" for dg
    using that by (simp add: agrees_def answers_as_def told_line_def)
  with j_join show ?case by (auto simp: follows_def resume_scan agrees_def conn_of_def)
qed

lemma follows_run: "(join_step cfg)\<^sup>*\<^sup>* (J_Init, no_attempt) pa \<Longrightarrow> follows cfg pa"
proof (induction rule: rtranclp_induct)
  case base
  show ?case
    by (simp add: follows_def no_attempt_def resume_connectOnce conn_of_def conn_start_def)
qed (rule follows_step)

lemma machine_connects:
  assumes "(join_step cfg)\<^sup>*\<^sup>* (J_Init, no_attempt) (J_Result r, a)"
  shows "connectOnce cfg (dongle_of a) conn_start = (r, conn_of a)"
  using follows_run [OF assms] agrees_dongle by (simp add: follows_def resume_scan)

section \<open>What a successful attempt was told\<close>

lemma answered_told:
  assumes "answered_ok (dongle_of a) (map (fst \<circ> fst) xs) (map fst ys)" "told a = xs @ ys"
    and "(lt, err) \<in> set ys" "not_optional (fst lt)"
  shows "err = None"
  using assms
proof (induction ys arbitrary: xs)
  case (Cons y ys)
  obtain l u e where y: "y = ((l, u), e)" by (cases y) auto
  have "reply (dongle_of a) (map (fst \<circ> fst) xs) l = e"
    using Cons.prems(2) y by (simp add: dongle_of_def)
  then have "l = ''WOPT 01'' \<or> l = ''ROPT 01'' \<or> e = None"
    and rest: "answered_ok (dongle_of a) (map (fst \<circ> fst) (xs @ [y])) (map fst ys)"
    using Cons.prems(1) y by (simp_all add: comp_def)
  then show ?case
    using Cons.IH [OF rest] Cons.prems(2-4) y by (auto simp: not_optional_def)
qed simp

lemma scan_loop_heard:
  assumes "scan_loop None evs = Inr d"
  shows "\<exists>ev \<in> set evs. Kind ev = ''EPANDESC'' \<and> parseEPANDESC ev = Inr d"
proof -
  have "\<exists>ev \<in> set evs. Kind ev = ''EPANDESC'' \<and> parseEPANDESC ev = Inr b" if "b \<in> set (beacons evs)" for b
    using that by (induction evs) (auto split: if_splits sum.splits)
  moreover have "d \<in> set (beacons evs)"
    using assms by (auto simp: scan_loop_first_best first_best_def find_Some_iff split: option.splits)
  ultimately show ?thesis by blast
qed

lemma machine_session:
  assumes "(join_step cfg)\<^sup>*\<^sup>* (J_Init, no_attempt) (J_Result (Inr ss), a)"
  shows "\<exists>d ev jv ps. ss = session_for d (MeterIP ss) \<and> macToLinkLocalIPv6 (Addr d) = Inr (MeterIP ss) \<and>
    ev \<in> set (taken a) \<and> Kind ev = ''EPANDESC'' \<and> parseEPANDESC ev = Inr d \<and>
    verdict a = Some jv \<and> Params jv = ''25'' # ps \<and> map fst (told a) = join_plan cfg d (MeterIP ss) \<and>
    (\<forall>lt err. (lt, err) \<in> set (told a) \<longrightarrow> not_optional (fst lt) \<longrightarrow> err = None)"
proof -
  obtain d ip where d: "scan_loop None (taken a) = Inr d" "macToLinkLocalIPv6 (Addr d) = Inr ip"
      "answered_ok (dongle_of a) [] (join_plan cfg d ip)" "joined (verdict a)" "ss = session_for d ip"
      "map fst (told a) = join_plan cfg d ip"
    using machine_connects [OF assms]
    unfolding connectOnce_success_iff by (auto simp: dongle_of_def conn_of_def conn_start_def session_for_def)
  then obtain jv ps where "verdict a = Some jv" "Params jv = ''25'' # ps"
    by (auto simp: joined_def split: option.splits)
  moreover obtain ev where "ev \<in> set (taken a)" "Kind ev = ''EPANDESC''" "parseEPANDESC ev = Inr d"
    using scan_loop_heard [OF d(1)] by blast
  moreover have "err = None" if "(lt, err) \<in> set (told a)" "not_optional (fst lt)" for lt err
    using answered_told [of a "[]" "told a" lt err] d(3,6) that by simp
  moreover have "MeterIP ss = ip" using d(5) by (simp add: session_for_def)
  ultimately show ?thesis using d(2,5,6) by (intro exI [of _ d] exI [of _ ev] exI [of _ jv] exI [of _ ps]) simp
qed

section \<open>\<open>connectOnce\<close> is a run of the machine\<close>

lemma scan_run:
  "\<exists>evs'. (join_step cfg)\<^sup>*\<^sup>* (J_Scanning found, a) (J_Scan_Off (scan_loop found evs), a\<lparr>taken := taken a @ evs'\<rparr>)"
proof (induction evs arbitrary: found a)
  case Nil
  have "join_step cfg (J_Scanning found, a) (J_Scan_Off (scan_loop found []), a)"
    using j_scan_over [of cfg found a] by (simp add: scan_timeout_def)
  then show ?case by (intro exI [of _ "[]"]) auto
next
  case (Cons ev evs)
  let ?a = "a\<lparr>taken := taken a @ [ev]\<rparr>"
  have first: "join_step cfg (J_Scanning found, a) (scan_event found ev, ?a)" by (rule j_scan)
  show ?case
  proof (rule scan_event_cases [of found ev])
    fix f
    assume f: "scan_event found ev = J_Scanning f"
    obtain evs' where "(join_step cfg)\<^sup>*\<^sup>* (J_Scanning f, ?a) (J_Scan_Off (scan_loop f evs), ?a\<lparr>taken := taken ?a @ evs'\<rparr>)"
      using Cons by blast
    with first f show ?thesis
      by (intro exI [of _ "ev # evs'"]) (simp add: scan_loop_event(1) converse_rtranclp_into_rtranclp del: scan_loop.simps)
  next
    fix r
    assume "scan_event found ev = J_Scan_Off r"
    with first show ?thesis
      by (intro exI [of _ "[ev]"]) (simp add: scan_loop_event(2) r_into_rtranclp del: scan_loop.simps)
  qed
qed

lemma resume_run:
  "resume cfg dg evs p (conn_of a) = (r, c) \<Longrightarrow>
     \<exists>a'. (join_step cfg)\<^sup>*\<^sup>* (p, a) (J_Result r, a') \<and> conn_of a' = c"
proof (induction "left p" arbitrary: p a evs rule: less_induct)
  case less
  have step: "\<exists>a'. (join_step cfg)\<^sup>*\<^sup>* (p, a) (J_Result r, a') \<and> conn_of a' = c"
    if "(join_step cfg)\<^sup>*\<^sup>* (p, a) (q, b)" "left q < left p" "resume cfg dg evs q (conn_of b) = (r, c)" for q b evs
    using less(1) [OF that(2,3)] rtranclp_trans [OF that(1)] by blast
  consider lt where "command_of cfg p = Some lt" | q where "moves p = Some q"
    | found where "p = J_Scanning found" | d ip where "p = J_Await d ip" | r' where "p = J_Result r'"
    by (cases p) auto
  then show ?case
  proof cases
    case (1 lt)
    let ?err = "reply dg (map fst (sent (conn_of a))) (fst lt)"
    have "join_step cfg (p, a) (after p ?err, a\<lparr>told := told a @ [(lt, ?err)]\<rparr>)" using 1 by (rule j_command)
    moreover have "resume cfg dg evs (after p ?err) (conn_of (a\<lparr>told := told a @ [(lt, ?err)]\<rparr>)) = (r, c)"
      using less(2) 1 by (cases lt) (simp add: resume_command conn_of_def)
    ultimately show ?thesis using left_command [OF 1, of ?err] by (blast intro: step)
  next
    case (2 q)
    then have "join_step cfg (p, a) (q, enter_stage p a)" by (rule j_move)
    moreover have "resume cfg dg evs q (conn_of (enter_stage p a)) = (r, c)"
      using less(2) 2 by (simp add: resume_move conn_of_def enter_stage_def enter_conn_def)
    ultimately show ?thesis using left_move [OF 2] by (blast intro: step)
  next
    case (3 found)
    obtain evs' where run: "(join_step cfg)\<^sup>*\<^sup>* (p, a) (J_Scan_Off (scan_loop found evs), a\<lparr>taken := taken a @ evs'\<rparr>)"
      using scan_run 3 by blast
    then show ?thesis
      by (rule step) (use less(2) 3 in \<open>simp_all add: resume_scan conn_of_def\<close>)
  next
    case (4 d ip)
    have "join_step cfg (p, a) (J_Join_Off d ip (join_outcome (join_event dg)), a\<lparr>verdict := join_event dg\<rparr>)"
      unfolding 4 by (rule j_join)
    then have "(join_step cfg)\<^sup>*\<^sup>* (p, a) (J_Join_Off d ip (join_outcome (join_event dg)), a\<lparr>verdict := join_event dg\<rparr>)"
      by (rule r_into_rtranclp)
    then show ?thesis
      by (rule step) (use less(2) 4 in \<open>simp_all add: resume_scan conn_of_def\<close>)
  next
    case (5 r')
    with less(2) show ?thesis by (auto simp: resume_scan)
  qed
qed


end
