(* ===== verification/System_Join.thy ===== *)
theory System_Join
  imports System_Wire System_Events Broute_Join
begin

text \<open>
  The join sequence in the running system: the supervisor's goroutine goes through
  \<open>connectOnce\<close> (the machine of \<open>Broute_Join\<close>) while the reader, the dispatcher, the client,
  the collector and the callers of all of them run. Its commands are calls of the driver, and
  what the scan and the join receive is what the dispatcher has put on their channels. So a
  session can be followed back to what went over the serial line.
\<close>

section \<open>The system\<close>

text \<open>
  \<open>seq\<close> is the attempt under way, \<open>jcall\<close> the call of the driver that it waits for; \<open>won\<close>
  logs the last attempt that succeeded.
\<close>

record supervised =
  wrd :: wired
  seq :: "(join_pc \<times> attempt) option"
  jcall :: "nat option"
  won :: attempt

abbreviation smgr :: "supervised \<Rightarrow> manager" where "smgr x \<equiv> mgr (wrd x)"
abbreviation sdrv :: "supervised \<Rightarrow> driver" where "sdrv x \<equiv> drv (wrd x)"
abbreviation srx :: "supervised \<Rightarrow> string list" where "srx x \<equiv> rx (net (dmn (wrd x)))"

definition put_manager :: "manager \<Rightarrow> wired \<Rightarrow> wired" where
  "put_manager m w = w\<lparr>dmn := (dmn w)\<lparr>net := (net (dmn w))\<lparr>mgr_of := m\<rparr>\<rparr>\<rparr>"

text \<open>What the steps between the commands do to the manager.\<close>

fun effect :: "join_pc \<Rightarrow> manager \<Rightarrow> manager" where
  "effect J_Scan_On m = m\<lparr>scan_ch := Some [], scan_id := Suc (scan_id m)\<rparr>"
| "effect (J_Scan_Off r) m = m\<lparr>scan_ch := None\<rparr>"
| "effect (J_Join_On d ip) m = m\<lparr>join_ch := Some []\<rparr>"
| "effect (J_Join_Off d ip r) m = m\<lparr>join_ch := None\<rparr>"
| "effect p m = fold setState (enters p) m"

text \<open>
  What the other goroutines may do meanwhile: start no attempt and end none, take nothing off
  its channels, and give the driver no commands but those of the client.
\<close>

definition grown :: "'a list option \<Rightarrow> 'a list option \<Rightarrow> bool" where
  "grown ch ch' \<longleftrightarrow>
     (case (ch, ch') of (None, None) \<Rightarrow> True | (Some q, Some q') \<Rightarrow> prefix q q' | _ \<Rightarrow> False)"

definition leaves_join :: "wired \<Rightarrow> wired \<Rightarrow> bool" where
  "leaves_join w w' \<longleftrightarrow>
     (run_at (mgr w') = Connecting \<longleftrightarrow> run_at (mgr w) = Connecting) \<and>
     (run_at (mgr w) = Connecting \<longrightarrow>
        mstate (mgr w') = mstate (mgr w) \<and> scan_id (mgr w') = scan_id (mgr w) \<and>
        grown (scan_ch (mgr w)) (scan_ch (mgr w')) \<and> grown (join_ch (mgr w)) (join_ch (mgr w'))) \<and>
     (\<forall>j \<in> dom (calls (drv w')) - dom (calls (drv w)). j \<in> dom (sends w'))"

inductive sup_step :: "zone \<Rightarrow> supervised \<Rightarrow> supervised \<Rightarrow> bool" for z where
  sv_world: "wire_step z (wrd x) w \<Longrightarrow> leaves_join (wrd x) w \<Longrightarrow> sup_step z x (x\<lparr>wrd := w\<rparr>)"
| sv_start: "run_at (smgr x) = Top \<Longrightarrow> \<not> ctx_done (smgr x) \<Longrightarrow>
    sup_step z x (x\<lparr>wrd := put_manager (run_top (smgr x)) (wrd x), seq := Some (J_Init, no_attempt)\<rparr>)"
| sv_call: "seq x = Some (p, a) \<Longrightarrow> jcall x = None \<Longrightarrow> command_of (mcfg (smgr x)) p = Some (line, t) \<Longrightarrow>
    cmd_mu (sdrv x) = None \<Longrightarrow> calls (sdrv x) j = None \<Longrightarrow>
    sup_step z x (x\<lparr>wrd := issue_join j line (wrd x), jcall := Some j\<rparr>)"
| sv_return: "seq x = Some (p, a) \<Longrightarrow> jcall x = Some j \<Longrightarrow> command_of (mcfg (smgr x)) p = Some lt \<Longrightarrow>
    phase_of (sdrv x) j = Some (Returned ls err) \<Longrightarrow>
    sup_step z x (x\<lparr>seq := Some (after p err, a\<lparr>told := told a @ [(lt, err)]\<rparr>), jcall := None\<rparr>)"
| sv_move: "seq x = Some (p, a) \<Longrightarrow> moves p = Some q \<Longrightarrow>
    sup_step z x (x\<lparr>wrd := put_manager (effect p (smgr x)) (wrd x), seq := Some (q, enter_stage p a)\<rparr>)"
| sv_scan: "seq x = Some (J_Scanning found, a) \<Longrightarrow> scan_ch (smgr x) = Some (ev # evs) \<Longrightarrow>
    sup_step z x (x\<lparr>wrd := put_manager ((smgr x)\<lparr>scan_ch := Some evs\<rparr>) (wrd x),
      seq := Some (scan_event found ev, a\<lparr>taken := taken a @ [ev]\<rparr>)\<rparr>)"
| sv_scan_over: "seq x = Some (J_Scanning found, a) \<Longrightarrow>
    sup_step z x (x\<lparr>seq := Some (scan_timeout found, a)\<rparr>)"
| sv_join: "seq x = Some (J_Await d ip, a) \<Longrightarrow> join_ch (smgr x) = Some (ev # evs) \<Longrightarrow>
    sup_step z x (x\<lparr>wrd := put_manager ((smgr x)\<lparr>join_ch := Some evs\<rparr>) (wrd x),
      seq := Some (J_Join_Off d ip (join_outcome (Some ev)), a\<lparr>verdict := Some ev\<rparr>)\<rparr>)"
| sv_join_over: "seq x = Some (J_Await d ip, a) \<Longrightarrow>
    sup_step z x (x\<lparr>seq := Some (J_Join_Off d ip (join_outcome None), a\<lparr>verdict := None\<rparr>)\<rparr>)"
| sv_failed: "seq x = Some (J_Result (Inl e), a) \<Longrightarrow> e \<noteq> IndexPanic \<Longrightarrow>
    sup_step z x (x\<lparr>wrd := put_manager (run_failed (smgr x)) (wrd x), seq := None\<rparr>)"
| sv_connected: "seq x = Some (J_Result (Inr ss), a) \<Longrightarrow>
    sup_step z x (x\<lparr>wrd := put_manager (run_connected ss (smgr x)) (wrd x), seq := None, won := a\<rparr>)"

definition sup_init :: "supervised \<Rightarrow> bool" where
  "sup_init x \<longleftrightarrow> wire_init (wrd x) \<and> seq x = None \<and> jcall x = None"

section \<open>The driver has written what it answers\<close>

text \<open>A call that has not been written, or has failed.\<close>

definition unsent :: "phase option \<Rightarrow> bool" where
  "unsent ph \<longleftrightarrow> ph \<noteq> Some Waiting \<and> (\<forall>ls. ph \<noteq> Some (Returned ls None))"

lemma phase_set: "phase_of (set_phase i ph d) j = (if j = i \<and> phase_of d i \<noteq> None then Some ph else phase_of d j)"
  by (auto simp: set_phase_def phase_of_def split: option.split)

lemma phase_same: "calls d' = calls d \<Longrightarrow> phase_of d' j = phase_of d j"
  by (simp add: phase_of_def)

lemma phase_return:
  "phase_of (return_cmd i ls e d) j = (if j = i \<and> phase_of d i \<noteq> None then Some (Returned ls e) else phase_of d j)"
  using phase_set [of i "Returned ls e" d j]
  by (simp add: return_cmd_def phase_of_def)

lemma phase_fail: "phase_of (fail_pending d) j = phase_of d j"
  by (auto simp: fail_pending_def send_done_def phase_of_def split: option.split)

lemma phase_read_end: "phase_of (read_end err d) j = phase_of d j"
  using phase_fail by (auto simp: read_end_def phase_of_def Let_def split: option.split)

lemma driver_phases:
  assumes "drv_step d d'"
  shows "(\<forall>j. phase_of d' j = phase_of d j \<or> unsent (phase_of d' j) \<or> phase_of d j = Some Waiting) \<or>
    (\<exists>i. phase_of d i = Some Registered \<and> d' = writeCommand i None d)"
  using assms
proof (induction rule: drv_step.induct)
  case (step_acquire d i line payload)
  then show ?case by (auto simp: acquire_cmd_def phase_of_def unsent_def)
next
  case (step_check d i)
  then show ?case by (auto simp: check_closed_def phase_set phase_return unsent_def)
next
  case (step_register d i)
  have "phase_of (d\<lparr>pending := p\<rparr>) j = phase_of d j" "phase_of (x\<lparr>cmd_mu := q\<rparr>) j = phase_of x j" for p q x j
    by (simp_all add: phase_of_def)
  then show ?case by (auto simp: register_cmd_def phase_set unsent_def)
next
  case (step_write d i werr)
  have "phase_of (d\<lparr>dlog := l\<rparr>) j = phase_of d j" for l j by (simp add: phase_of_def)
  then show ?case
    using step_write by (cases werr) (auto simp: writeCommand_def phase_return unsent_def Let_def split: option.split)
next
  case (step_result d i r)
  then show ?case by (auto simp: finish_done_def phase_return)
next
  case (step_close_fail d)
  have "phase_of (x\<lparr>closing := b\<rparr>) j = phase_of x j" for x b j by (simp add: phase_of_def)
  then show ?case by (simp add: close_fail_def phase_fail)
next
  case (step_close d)
  then show ?case by (simp add: close_begin_def phase_of_def)
next
  case (step_receive d ev evs)
  then show ?case by (simp add: phase_of_def)
qed (simp_all add: finish_timeout_def finish_closed_def phase_return unsent_def read_line_frame phase_read_end)

definition call_text :: "pending_cmd \<Rightarrow> string" where
  "call_text pc = pc_cmd pc @ pc_payload pc @ [CHR 0x0D, CHR 0x0A]"

text \<open>A step only adds to the serial line, and a call stops being unsent by being written.\<close>

definition writes_on :: "driver \<Rightarrow> driver \<Rightarrow> bool" where
  "writes_on d d' \<longleftrightarrow>
     (\<exists>new. wire d' = wire d @ new \<and>
        (\<forall>j pc. calls d j = Some pc \<longrightarrow> map_option text_of (calls d' j) = Some (text_of pc) \<and>
           (unsent (phase_of d j) \<longrightarrow> unsent (phase_of d' j) \<or> call_text pc \<in> set new)))"

lemma writes_on_same: "writes_on d d"
  by (simp add: writes_on_def)

lemma writes_on_write: "phase_of d i = Some Registered \<Longrightarrow> writes_on d (writeCommand i None d)"
proof -
  assume "phase_of d i = Some Registered"
  then obtain pc where pc: "calls d i = Some pc" by (auto simp: phase_of_def)
  then have "wire (writeCommand i None d) = wire d @ [call_text pc]"
    by (simp add: writeCommand_def set_phase_def call_text_def)
  moreover have "map_option text_of (calls (writeCommand i None d) j) = Some (text_of q) \<and>
      (unsent (phase_of d j) \<longrightarrow> unsent (phase_of (writeCommand i None d) j) \<or> call_text q \<in> set [call_text pc])"
    if "calls d j = Some q" for j q
    using pc that by (auto simp: writeCommand_def set_phase_def text_of_def phase_of_def)
  ultimately show ?thesis unfolding writes_on_def by blast
qed

lemma writes_on_acquire: "calls d i = None \<Longrightarrow> writes_on d (acquire_cmd i line payload d)"
  by (auto simp: writes_on_def acquire_cmd_def phase_of_def)

lemma writes_on_step: "drv_step d d' \<Longrightarrow> writes_on d d'"
proof -
  assume step: "drv_step d d'"
  have "writes_on d d'" if "keeps_texts d d'"
    and "\<forall>j. phase_of d' j = phase_of d j \<or> unsent (phase_of d' j) \<or> phase_of d j = Some Waiting"
  proof -
    have "map_option text_of (calls d' j) = Some (text_of pc) \<and>
        (unsent (phase_of d j) \<longrightarrow> unsent (phase_of d' j) \<or> call_text pc \<in> set [])"
      if "calls d j = Some pc" for j pc
      using \<open>keeps_texts d d'\<close> that
        \<open>\<forall>j. phase_of d' j = phase_of d j \<or> unsent (phase_of d' j) \<or> phase_of d j = Some Waiting\<close> [rule_format, of j]
      by (metis keeps_texts_def option.map(2) unsent_def)
    then show ?thesis using that(1) unfolding writes_on_def keeps_texts_def by (intro exI [of _ "[]"]) simp
  qed
  then show ?thesis
    using driver_kinds [OF step] driver_phases [OF step] writes_on_write writes_on_acquire by blast
qed

section \<open>The world keeps to its steps\<close>

lemma manager_wire:
  assumes "mgr_step (mgr w) m" "undisturbed (mgr w) m"
  shows "wire_step z w (put_manager m w)"
proof -
  have "quiet_step (net (dmn w)) ((net (dmn w))\<lparr>mgr_of := m\<rparr>)"
    using s_manager [of "net (dmn w)" m] assms by (simp add: quiet_step_def mgr_alone_def)
  then have "daemon_step z (dmn w) ((dmn w)\<lparr>net := (net (dmn w))\<lparr>mgr_of := m\<rparr>\<rparr>)" by (rule dm_stack)
  then have "silent z (dmn w) ((dmn w)\<lparr>net := (net (dmn w))\<lparr>mgr_of := m\<rparr>\<rparr>)"
    by (simp add: silent_def in_phase_def)
  then show ?thesis unfolding put_manager_def by (rule w_silent)
qed

lemma enters_joining: "set (enters p) \<subseteq> joining_states"
  by (cases p) (simp_all add: joining_states_def)

lemma state_alone:
  "run_at m = Connecting \<Longrightarrow> s \<in> joining_states \<Longrightarrow> mgr_step m (setState s m) \<and> undisturbed m (setState s m)"
  using m_state [of m s] by (auto simp: joining_states_def undisturbed_def setState_def)

lemma effect_step:
  assumes "run_at m = Connecting" "moves p = Some q"
  shows "effect p m = m \<or> mgr_step m (effect p m) \<and> undisturbed m (effect p m)"
  using assms
  using enters_joining [of p]
  by (cases p) (auto simp: state_alone, auto simp: undisturbed_def intro: m_scan_on m_scan_off m_join_on m_join_off)

lemma effect_run_at: "run_at (effect p m) = run_at m"
  by (cases p) (simp_all add: setState_def)

lemma command_of_join: "command_of cfg p = Some (line, t) \<Longrightarrow> join_command cfg line"
  by (cases p) (auto simp: join_command_def login_plan_def register_plan_def)

lemma put_manager_fields [simp]:
  "mgr (put_manager m w) = m" "drv (put_manager m w) = drv w" "rx (net (dmn (put_manager m w))) = rx (net (dmn w))"
  by (simp_all add: put_manager_def)

lemma issue_join_fields [simp]:
  "mgr (issue_join j line w) = mgr w" "drv (issue_join j line w) = acquire_cmd j line [] (drv w)"
  "rx (net (dmn (issue_join j line w))) = rx (net (dmn w))"
  by (simp_all add: issue_join_def put_driver_def)

lemma wire_parts:
  assumes "reachable wire_init (wire_step z) w"
  shows "reachable stack_init stack_step (net (dmn w))" "heard (net (dmn w))" "session_inv (mgr w)"
proof -
  show stack: "reachable stack_init stack_step (net (dmn w))"
    using wired.reachable_invar [OF assms] daemon.reachable_invar by (auto simp: wire_inv_def daemon_inv_def)
  then show "heard (net (dmn w))" by (rule hearing.reachable_invar)
  have "components_reachable (net (dmn w))" using stack.reachable_invar [OF stack] by (simp add: stack_inv_def)
  then show "session_inv (mgr w)"
    using mgr.reachable_invar by (auto simp: components_reachable_def mgr_inv_def)
qed

text \<open>A step of the rest of the system keeps what has been written and read, and the configuration.\<close>

definition onward :: "wired \<Rightarrow> wired \<Rightarrow> bool" where
  "onward w w' \<longleftrightarrow>
     writes_on (drv w) (drv w') \<and> prefix (rx (net (dmn w))) (rx (net (dmn w'))) \<and> mcfg (mgr w') = mcfg (mgr w)"

lemma wire_onward:
  assumes "wire_step z w w'"
  shows "onward w w'"
proof -
  have step: "daemon_step z (dmn w) (dmn w')" using assms by (rule wire_daemon)
  have "drv w' = drv w \<or> drv_step (drv w) (drv w')" using daemon_driver [OF step] .
  moreover have "prefix (rx (net (dmn w))) (rx (net (dmn w')))"
    using daemon_parts [OF step] rx_grows [of "net (dmn w)" "net (dmn w')"] by auto
  ultimately show ?thesis
    using writes_on_step writes_on_same daemon_config [OF step] by (auto simp: onward_def)
qed

section \<open>What an attempt rests on\<close>

text \<open>
  The commands that were answered without an error have been written to the serial line, in
  this order, and the events were heard on it.
\<close>

definition with_crlf :: "string \<Rightarrow> string" where
  "with_crlf line = line @ [CHR 0x0D, CHR 0x0A]"

definition answered_lines :: "attempt \<Rightarrow> string list" where
  "answered_lines a = map (\<lambda>(lt, err). with_crlf (fst lt)) (filter (\<lambda>(lt, err). err = None) (told a))"

definition backed :: "wired \<Rightarrow> attempt \<Rightarrow> bool" where
  "backed w a \<longleftrightarrow>
     subseq (answered_lines a) (wire (drv w)) \<and>
     (\<forall>ev \<in> set (taken a). heard_event (rx (net (dmn w))) ev) \<and>
     (\<forall>ev. verdict a = Some ev \<longrightarrow> heard_event (rx (net (dmn w))) ev \<and> Kind ev = ''EVENT'')"

lemma answered_lines_simps [simp]:
  "answered_lines (a\<lparr>told := told a @ [(lt, err)]\<rparr>) =
     answered_lines a @ (if err = None then [with_crlf (fst lt)] else [])"
  "answered_lines (a\<lparr>taken := evs\<rparr>) = answered_lines a" "answered_lines (a\<lparr>verdict := je\<rparr>) = answered_lines a"
  "answered_lines (enter_stage p a) = answered_lines a" "answered_lines no_attempt = []"
  by (simp_all add: answered_lines_def enter_stage_def no_attempt_def)

lemma backed_onward: "onward w w' \<Longrightarrow> backed w a \<Longrightarrow> backed w' a"
proof -
  assume on: "onward w w'" and old: "backed w a"
  obtain new where "wire (drv w') = wire (drv w) @ new" using on by (auto simp: onward_def writes_on_def)
  then have "subseq (answered_lines a) (wire (drv w'))"
    using old list_emb_append_mono [of "(=)" "answered_lines a" "wire (drv w)" "[]" new] by (simp add: backed_def)
  moreover have "heard_event (rx (net (dmn w'))) ev" if "heard_event (rx (net (dmn w))) ev" for ev
    using on heard_more [OF that] by (simp add: onward_def prefix_imp_sublist)
  ultimately show ?thesis using old by (simp add: backed_def)
qed


lemma backed_frame [simp]:
  "backed (put_manager m w) a = backed w a" "backed w (enter_stage p a) = backed w a"
  by (simp_all add: backed_def) (simp add: enter_stage_def)

definition join_run :: "broute_config \<Rightarrow> join_pc \<times> attempt \<Rightarrow> bool" where
  "join_run cfg = (join_step cfg)\<^sup>*\<^sup>* (J_Init, no_attempt)"

lemma join_run_step: "join_run cfg pa \<Longrightarrow> join_step cfg pa pb \<Longrightarrow> join_run cfg pb"
  unfolding join_run_def by (rule rtranclp.rtrancl_into_rtrancl)

text \<open>The call that the attempt waits for: once it is not unsent, its line follows those before it.\<close>

definition waits_for :: "supervised \<Rightarrow> nat \<Rightarrow> bool" where
  "waits_for x j \<longleftrightarrow>
     (\<exists>p a lt before since. seq x = Some (p, a) \<and> command_of (mcfg (smgr x)) p = Some lt \<and>
        map_option text_of (calls (sdrv x) j) = Some (fst lt, []) \<and>
        wire (sdrv x) = before @ since \<and> subseq (answered_lines a) before \<and>
        (unsent (phase_of (sdrv x) j) \<or> with_crlf (fst lt) \<in> set since))"

text \<open>The session is in the hands of the supervisor, or visible to everybody.\<close>

definition shows_session :: "manager \<Rightarrow> session \<Rightarrow> bool" where
  "shows_session m ss \<longleftrightarrow> run_at m = Install_Session ss \<or> sess m = Some ss"

definition sup_inv :: "zone \<Rightarrow> supervised \<Rightarrow> bool" where
  "sup_inv z x \<longleftrightarrow>
     reachable wire_init (wire_step z) (wrd x) \<and>
     (seq x = None \<longleftrightarrow> run_at (smgr x) \<noteq> Connecting) \<and>
     (\<forall>pa. seq x = Some pa \<longrightarrow> join_run (mcfg (smgr x)) pa \<and> backed (wrd x) (snd pa)) \<and>
     (\<forall>j. jcall x = Some j \<longrightarrow> waits_for x j) \<and>
     (\<forall>ss. shows_session (smgr x) ss \<longrightarrow>
        join_run (mcfg (smgr x)) (J_Result (Inr ss), won x) \<and> backed (wrd x) (won x))"

lemma shows_before:
  "mgr_step m m' \<Longrightarrow> run_at m \<noteq> Connecting \<Longrightarrow> shows_session m' ss \<Longrightarrow> shows_session m ss"
proof (induction rule: mgr_step.induct)
  case (m_event m now ev)
  then show ?case using owned_handleEvent [of now ev m] by (simp add: shows_session_def owned_def)
next
  case (m_unblock m i ev)
  then show ?case using owned_dispatch(5) [of i ev m] by (simp add: shows_session_def owned_def)
next
  case (m_events_closed m)
  then show ?case using owned_dispatch(1) [of DriverGone m] by (simp add: shows_session_def owned_def)
qed (auto simp: shows_session_def mgr_ops Let_def split: if_splits option.splits)

lemma connecting_shows_nothing: "session_inv m \<Longrightarrow> run_at m = Connecting \<Longrightarrow> \<not> shows_session m ss"
  by (auto simp: shows_session_def session_inv_def)

section \<open>Every step keeps the invariant\<close>

lemma idle_call:
  assumes "sup_inv z x" "seq x = Some (p, a)" "command_of (mcfg (smgr x)) p = None"
  shows "jcall x = None"
  using assms by (cases "jcall x") (auto simp: sup_inv_def waits_for_def)

lemma sup_wire:
  assumes "sup_step z x y" "sup_inv z x"
  shows "wrd y = wrd x \<or> wire_step z (wrd x) (wrd y)"
  using assms
proof (induction rule: sup_step.induct)
  case (sv_start x)
  then have "wire_step z (wrd x) (put_manager (run_top (smgr x)) (wrd x))"
    by (intro manager_wire m_top) (simp_all add: undisturbed_def run_top_def setState_def)
  then show ?case by simp
next
  case (sv_call x p a line t j)
  then show ?case
    by (auto simp: sup_inv_def intro: w_join command_of_join)
next
  case (sv_move x p a q)
  then have "run_at (smgr x) = Connecting" by (auto simp: sup_inv_def)
  from effect_step [OF this sv_move(2)] show ?case
    by (auto simp: manager_wire) (simp add: put_manager_def)
next
  case (sv_scan x found a ev evs)
  then have "wire_step z (wrd x) (put_manager ((smgr x)\<lparr>scan_ch := Some evs\<rparr>) (wrd x))"
    by (intro manager_wire m_scan_take) (auto simp: undisturbed_def sup_inv_def)
  then show ?case by simp
next
  case (sv_join x d ip a ev evs)
  then have "wire_step z (wrd x) (put_manager ((smgr x)\<lparr>join_ch := Some evs\<rparr>) (wrd x))"
    by (intro manager_wire m_join_take) (auto simp: undisturbed_def sup_inv_def)
  then show ?case by simp
next
  case (sv_failed x e a)
  then have "wire_step z (wrd x) (put_manager (run_failed (smgr x)) (wrd x))"
    by (intro manager_wire m_failed) (auto simp: undisturbed_def sup_inv_def run_failed_def)
  then show ?case by simp
next
  case (sv_connected x ss a)
  then have "wire_step z (wrd x) (put_manager (run_connected ss (smgr x)) (wrd x))"
    by (intro manager_wire m_connected) (auto simp: undisturbed_def sup_inv_def run_connected_def)
  then show ?case by simp
qed simp_all

lemma sup_reach:
  assumes "sup_step z x y" "sup_inv z x"
  shows "reachable wire_init (wire_step z) (wrd y)" "onward (wrd x) (wrd y)"
proof -
  have "reachable wire_init (wire_step z) (wrd x)" using assms(2) by (simp add: sup_inv_def)
  then show "reachable wire_init (wire_step z) (wrd y)"
    using sup_wire [OF assms] by (auto intro: reachable.next_state)
  show "onward (wrd x) (wrd y)"
    using sup_wire [OF assms] by (auto simp: wire_onward) (simp add: onward_def writes_on_same)
qed

text \<open>A step of the attempt, after which no command is under way.\<close>

lemma attempt_next:
  assumes "sup_inv z x" "seq x = Some pa" "join_step (mcfg (smgr x)) pa pb"
    and "reachable wire_init (wire_step z) (wrd y)" "mcfg (smgr y) = mcfg (smgr x)"
    and "run_at (smgr y) = run_at (smgr x)" "seq y = Some pb" "jcall y = None" "backed (wrd y) (snd pb)"
  shows "sup_inv z y"
proof -
  have "run_at (smgr y) = Connecting" using assms(1,2,6) by (auto simp: sup_inv_def)
  moreover have "join_run (mcfg (smgr x)) pb" using assms(1-3) by (auto simp: sup_inv_def intro: join_run_step)
  ultimately show ?thesis
    using assms connecting_shows_nothing [OF wire_parts(3) [OF assms(4)]] by (simp add: sup_inv_def)
qed

lemma returned_backed:
  assumes "backed (wrd x) a" "waits_for x j" "seq x = Some (p, a)" "command_of (mcfg (smgr x)) p = Some lt"
    and "phase_of (sdrv x) j = Some (Returned ls err)"
  shows "backed (wrd x) (a\<lparr>told := told a @ [(lt, err)]\<rparr>)"
proof -
  obtain before since where wire: "wire (sdrv x) = before @ since" "subseq (answered_lines a) before"
      "unsent (phase_of (sdrv x) j) \<or> with_crlf (fst lt) \<in> set since"
    using assms(2-4) by (auto simp: waits_for_def)
  have "subseq [with_crlf (fst lt)] since" if "err = None"
    using wire(3) assms(5) that by (simp add: unsent_def subseq_singleton_left)
  then have "subseq (answered_lines a @ (if err = None then [with_crlf (fst lt)] else [])) (before @ since)"
    using wire(2) by (intro list_emb_append_mono) simp_all
  with assms(1) wire(1) show ?thesis by (simp add: backed_def)
qed

lemma waits_onward:
  assumes "waits_for x j" "onward (wrd x) w"
  shows "waits_for (x\<lparr>wrd := w\<rparr>) j"
proof -
  obtain p a lt before since where wait: "seq x = Some (p, a)" "command_of (mcfg (smgr x)) p = Some lt"
      "map_option text_of (calls (sdrv x) j) = Some (fst lt, [])" "wire (sdrv x) = before @ since"
      "subseq (answered_lines a) before" "unsent (phase_of (sdrv x) j) \<or> with_crlf (fst lt) \<in> set since"
    using assms(1) unfolding waits_for_def by blast
  obtain pc where pc: "calls (sdrv x) j = Some pc" "text_of pc = (fst lt, [])" using wait(3) by auto
  then have "call_text pc = with_crlf (fst lt)" by (simp add: call_text_def text_of_def with_crlf_def)
  then obtain new where "wire (drv w) = wire (sdrv x) @ new" "map_option text_of (calls (drv w) j) = Some (fst lt, [])"
      "unsent (phase_of (sdrv x) j) \<longrightarrow> unsent (phase_of (drv w) j) \<or> with_crlf (fst lt) \<in> set new"
    using assms(2) pc unfolding onward_def writes_on_def by metis
  moreover have "mcfg (mgr w) = mcfg (smgr x)" using assms(2) by (simp add: onward_def)
  ultimately show ?thesis
    using wait unfolding waits_for_def by (intro exI [of _ p] exI [of _ a] exI [of _ lt] exI [of _ before] exI [of _ "since @ new"]) auto
qed

lemma world_inv:
  assumes "sup_inv z x" "wire_step z (wrd x) w" "leaves_join (wrd x) w"
  shows "sup_inv z (x\<lparr>wrd := w\<rparr>)"
proof -
  note inv = assms(1) [unfolded sup_inv_def]
  have reach: "reachable wire_init (wire_step z) w" and on: "onward (wrd x) w"
    using sup_reach [OF sv_world [OF assms(2,3)] assms(1)] by simp_all
  have cfg: "mcfg (mgr w) = mcfg (smgr x)" using on by (simp add: onward_def)
  have at: "run_at (mgr w) = Connecting \<longleftrightarrow> run_at (smgr x) = Connecting"
    using assms(3) by (simp add: leaves_join_def)
  have shown: "shows_session (smgr x) ss" if "shows_session (mgr w) ss" for ss
  proof -
    have "run_at (smgr x) \<noteq> Connecting"
      using that at connecting_shows_nothing [OF wire_parts(3) [OF reach]] by blast
    moreover have "mgr w = smgr x \<or> mgr_step (smgr x) (mgr w)"
      using daemon_parts [OF wire_daemon [OF assms(2)]] stack_components [of "net (dmn (wrd x))" "net (dmn w)"] by metis
    ultimately show ?thesis using that shows_before by auto
  qed
  have "waits_for (x\<lparr>wrd := w\<rparr>) j" if "jcall x = Some j" for j
    using inv that by (intro waits_onward [OF _ on]) simp
  moreover have "join_run (mcfg (mgr w)) (J_Result (Inr ss), won x) \<and> backed w (won x)" if "shows_session (mgr w) ss" for ss
    using inv shown [OF that] backed_onward [OF on] by (simp add: cfg)
  ultimately show ?thesis
    using inv reach at backed_onward [OF on] by (simp add: sup_inv_def cfg)
qed

lemma sup_inv_step:
  assumes step: "sup_step z x y" and inv: "sup_inv z x"
  shows "sup_inv z y"
  using step
proof cases
  case (sv_world w)
  with inv show ?thesis by (simp add: world_inv)
next
  case sv_start
  have "run_at (smgr y) = Connecting" using sv_start by (simp add: run_top_def)
  moreover have "jcall x = None"
    using inv sv_start by (cases "jcall x") (auto simp: sup_inv_def waits_for_def)
  ultimately show ?thesis
    using sv_start sup_reach(1) [OF step inv] connecting_shows_nothing [OF wire_parts(3) [OF sup_reach(1) [OF step inv]]]
    by (simp add: sup_inv_def join_run_def) (simp add: backed_def, simp add: no_attempt_def)
next
  case (sv_call p a line t j)
  have "backed (wrd y) a" using inv sv_call backed_onward [OF sup_reach(2) [OF step inv]] by (auto simp: sup_inv_def)
  moreover have "waits_for y j"
    using sv_call inv
    by (auto simp: waits_for_def acquire_cmd_def text_of_def sup_inv_def backed_def unsent_def phase_of_def)
  moreover have "run_at (smgr y) = Connecting" using inv sv_call by (auto simp: sup_inv_def)
  ultimately show ?thesis
    using inv sv_call sup_reach(1) [OF step inv] connecting_shows_nothing [OF wire_parts(3) [OF sup_reach(1) [OF step inv]]]
    by (auto simp: sup_inv_def)
next
  case (sv_return p a j lt ls err)
  note reach = sup_reach(1) [OF step inv]
  have "backed (wrd y) (a\<lparr>told := told a @ [(lt, err)]\<rparr>)"
    using returned_backed [of x a j p lt ls err] inv sv_return by (simp add: sup_inv_def)
  then show ?thesis
    using sv_return reach by (intro attempt_next [OF inv sv_return(2) j_command [OF sv_return(4), of a err]]) simp_all
next
  case (sv_move p a q)
  have "effect p (smgr x) = smgr x \<or> mgr_step (smgr x) (effect p (smgr x))"
    using inv sv_move effect_step [of "smgr x" p q] by (auto simp: sup_inv_def)
  then have "mcfg (effect p (smgr x)) = mcfg (smgr x)" using mgr_step_config by auto
  moreover have "jcall x = None"
    using idle_call [OF inv sv_move(2)] command_moves [of "mcfg (smgr x)" p] sv_move(3)
    by (cases "command_of (mcfg (smgr x)) p") auto
  ultimately show ?thesis
    using sv_move inv sup_reach(1) [OF step inv]
    by (intro attempt_next [OF inv sv_move(2) j_move [OF sv_move(3), of _ a]])
      (simp_all add: effect_run_at sup_inv_def)
next
  case (sv_scan found a ev evs)
  have "heard_event (srx x) ev"
    using wire_parts(2) [of z "wrd x"] inv sv_scan by (auto simp: sup_inv_def heard_def)
  then have "backed (wrd y) (a\<lparr>taken := taken a @ [ev]\<rparr>)"
    using inv sv_scan by (auto simp: sup_inv_def backed_def)
  then show ?thesis
    using sv_scan inv sup_reach(1) [OF step inv] idle_call [OF inv sv_scan(2)]
    by (intro attempt_next [OF inv sv_scan(2) j_scan]) simp_all
next
  case (sv_scan_over found a)
  then show ?thesis
    using inv sup_reach(1) [OF step inv] idle_call [OF inv sv_scan_over(2)]
    by (intro attempt_next [OF inv sv_scan_over(2) j_scan_over]) (simp_all add: sup_inv_def)
next
  case (sv_join d ip a ev evs)
  have "heard_event (srx x) ev \<and> Kind ev = ''EVENT''"
    using wire_parts(2) [of z "wrd x"] inv sv_join by (auto simp: sup_inv_def heard_def)
  then have "backed (wrd y) (a\<lparr>verdict := Some ev\<rparr>)"
    using inv sv_join by (auto simp: sup_inv_def backed_def)
  then show ?thesis
    using sv_join inv sup_reach(1) [OF step inv] idle_call [OF inv sv_join(2)]
    by (intro attempt_next [OF inv sv_join(2) j_join]) simp_all
next
  case (sv_join_over d ip a)
  have "backed (wrd x) (a\<lparr>verdict := None\<rparr>)"
    using inv sv_join_over by (auto simp: sup_inv_def backed_def)
  then show ?thesis
    using sv_join_over inv sup_reach(1) [OF step inv] idle_call [OF inv sv_join_over(2)]
    by (intro attempt_next [OF inv sv_join_over(2) j_join]) simp_all
next
  case (sv_failed e a)
  have "sess (smgr x) = None" "jcall x = None"
    using wire_parts(3) [of z "wrd x"] inv sv_failed idle_call [OF inv sv_failed(2)]
    by (auto simp: sup_inv_def session_inv_def)
  then show ?thesis
    using sv_failed sup_reach(1) [OF step inv] by (simp add: sup_inv_def shows_session_def run_failed_def)
next
  case (sv_connected ss a)
  have "sess (smgr x) = None" "jcall x = None"
    using wire_parts(3) [of z "wrd x"] inv sv_connected idle_call [OF inv sv_connected(2)]
    by (auto simp: sup_inv_def session_inv_def)
  then show ?thesis
    using sv_connected inv sup_reach(1) [OF step inv]
    by (auto simp: sup_inv_def shows_session_def run_connected_def)
qed

lemma sup_start_inv: "sup_init x \<Longrightarrow> sup_inv z x"
  by (auto simp: sup_init_def sup_inv_def shows_session_def wire_init_def daemon_init_def stack_init_def
      stack_start_def NewManager_def intro!: reachable.start)

interpretation supervised: step_system sup_init "sup_step z" "sup_inv z" for z
  by unfold_locales (auto intro: sup_start_inv sup_inv_step)

section \<open>What a session rests on\<close>

text \<open>A block of consecutive lines that reads as the descriptor; the report that the join succeeded.\<close>

definition beacon_heard :: "string list \<Rightarrow> epan_descriptor \<Rightarrow> bool" where
  "beacon_heard ls d \<longleftrightarrow> (\<exists>rows. sublist rows ls \<and> parseEPANDESC (buildEPANDESC rows) = Inr d)"

definition joined_heard :: "string list \<Rightarrow> bool" where
  "joined_heard ls \<longleftrightarrow>
     (\<exists>l \<in> set ls. has_prefix l ''EVENT '' \<and> (\<exists>ps. Params (parseEvent ''EVENT'' l) = ''25'' # ps))"

text \<open>The commands of the plan that must succeed, as they are written.\<close>

definition mandatory_lines_of :: "(string \<times> Duration) list \<Rightarrow> string list" where
  "mandatory_lines_of plan = map (\<lambda>lt. with_crlf (fst lt)) (filter (\<lambda>lt. not_optional (fst lt)) plan)"

lemma mandatory_answered:
  "(\<And>lt err. (lt, err) \<in> set ts \<Longrightarrow> not_optional (fst lt) \<Longrightarrow> err = None) \<Longrightarrow>
     subseq (mandatory_lines_of (map fst ts)) (map (\<lambda>(lt, err). with_crlf (fst lt)) (filter (\<lambda>(lt, err). err = None) ts))"
proof (induction ts)
  case (Cons t ts)
  obtain lt err where t: "t = (lt, err)" by (cases t)
  have "subseq (mandatory_lines_of (map fst ts))
      (map (\<lambda>(lt, err). with_crlf (fst lt)) (filter (\<lambda>(lt, err). err = None) ts))"
    by (rule Cons.IH) (use Cons.prems in auto)
  with Cons.prems [of lt err] t show ?case by (auto simp: mandatory_lines_of_def)
qed (simp add: mandatory_lines_of_def)

lemma session_backed:
  assumes "reachable sup_init (sup_step z) x" "sess (smgr x) = Some ss"
  shows "\<exists>d. beacon_heard (srx x) d \<and> joined_heard (srx x) \<and>
    ss = session_for d (MeterIP ss) \<and> macToLinkLocalIPv6 (Addr d) = Inr (MeterIP ss) \<and>
    subseq (mandatory_lines_of (join_plan (mcfg (smgr x)) d (MeterIP ss))) (wire (sdrv x))"
proof -
  have "sup_inv z x" by (rule supervised.reachable_invar [OF assms(1)])
  then have won: "join_run (mcfg (smgr x)) (J_Result (Inr ss), won x)" "backed (wrd x) (won x)"
    using assms(2) by (auto simp: sup_inv_def shows_session_def)
  obtain d ev jv ps where d: "ss = session_for d (MeterIP ss)" "macToLinkLocalIPv6 (Addr d) = Inr (MeterIP ss)"
      and ev: "ev \<in> set (taken (won x))" "Kind ev = ''EPANDESC''" "parseEPANDESC ev = Inr d"
      and jv: "verdict (won x) = Some jv" "Params jv = ''25'' # ps"
      and plan: "map fst (told (won x)) = join_plan (mcfg (smgr x)) d (MeterIP ss)"
        "\<And>lt err. (lt, err) \<in> set (told (won x)) \<Longrightarrow> not_optional (fst lt) \<Longrightarrow> err = None"
    using machine_session [OF won(1) [unfolded join_run_def]] by blast
  have "heard_event (srx x) ev" using won(2) ev(1) by (simp add: backed_def)
  then have "beacon_heard (srx x) d" using ev(2,3) by (auto simp: heard_event_def beacon_heard_def)
  moreover have "heard_event (srx x) jv \<and> Kind jv = ''EVENT''" using won(2) jv(1) by (simp add: backed_def)
  then have "joined_heard (srx x)" using jv(2) by (auto simp: heard_event_def joined_heard_def)
  moreover have "subseq (mandatory_lines_of (join_plan (mcfg (smgr x)) d (MeterIP ss))) (answered_lines (won x))"
    using mandatory_answered [of "told (won x)", OF plan(2)] by (simp add: plan(1) answered_lines_def)
  then have "subseq (mandatory_lines_of (join_plan (mcfg (smgr x)) d (MeterIP ss))) (wire (sdrv x))"
    using won(2) by (auto simp: backed_def intro: subseq_order.trans)
  ultimately show ?thesis using d by blast
qed

end
