(* ===== verification/Broute_Beacon.thy ===== *)
theory Broute_Beacon
  imports Broute_Connect
begin

text \<open>
  The beacon block on the serial line: an \<open>EPANDESC\<close> line and one indented row for each
  field, as the tests of \<open>internal/broute\<close> and \<open>internal/bp35c2\<close> have the module print it.
  \<open>buildEPANDESC\<close> of the driver and \<open>parseEPANDESC\<close> of the manager together read it back.
\<close>

section \<open>Trimming a row\<close>

definition visible :: "char \<Rightarrow> bool" where
  "visible c \<longleftrightarrow> 32 < (of_char c :: nat) \<and> (of_char c :: nat) < 128"

definition edged :: "string \<Rightarrow> bool" where
  "edged s \<longleftrightarrow> s \<noteq> [] \<and> visible (hd s) \<and> visible (last s)"

lemma trim_left_visible:
  assumes "visible c" "rs = space_runes \<or> rs = map rev space_runes"
  shows "trim_left_by rs (c # s) = c # s"
proof -
  have "run_len rs (c # s) = 0"
    using assms by (auto simp: visible_def intro!: run_len_text dest: space_runes_heads rev_space_runes_heads)
  then show ?thesis by (simp add: trim_left_by.simps)
qed

lemma trim_space_edged:
  assumes "edged s"
  shows "trim_space s = s"
proof -
  obtain c t where s: "s = c # t" using assms by (cases s) (auto simp: edged_def)
  obtain e u where r: "rev s = e # u" using s by (cases "rev s") auto
  have "trim_left_by space_runes s = s"
    using assms s by (simp add: edged_def trim_left_visible)
  moreover have "last s = e" using r by (metis last_snoc rev_rev_ident rev.simps(2))
  ultimately show ?thesis
    using assms trim_left_visible [of e "map rev space_runes" u]
    by (simp add: trim_space_def edged_def flip: r)
qed

lemma trim_space_blank: "trim_space (CHR '' '' # s) = trim_space s"
  using run_len_space [of s] by (simp add: trim_space_def trim_left_by.simps [of space_runes "CHR '' '' # s"])

lemma edged_text: "ascii_text v \<Longrightarrow> v \<noteq> [] \<Longrightarrow> edged v"
  using hd_in_set [of v] last_in_set [of v] by (auto simp: edged_def visible_def ascii_text_def list_all_iff)

text \<open>The parameters of an event are the words after its name.\<close>

lemma edged_words:
  "(\<And>w. w \<in> set ws \<Longrightarrow> ascii_text w \<and> w \<noteq> []) \<Longrightarrow> ws \<noteq> [] \<Longrightarrow> edged (join_words ws)"
proof (induction ws rule: join_words.induct)
  case (2 w)
  then show ?case by (auto intro: edged_text)
next
  case (3 w v ws)
  have "edged (join_words (v # ws))" by (rule "3.IH") (use "3.prems" in auto)
  moreover have "edged w" by (rule edged_text) (use "3.prems" in auto)
  ultimately show ?case by (auto simp: edged_def hd_append)
qed simp

lemma event_words:
  assumes "\<And>w. w \<in> set ws \<Longrightarrow> ascii_text w \<and> w \<noteq> []" "ws \<noteq> []"
  shows "Params (parseEvent ''EVENT'' (''EVENT '' @ join_words ws)) = ws"
proof -
  have "trim_prefix (''EVENT '' @ join_words ws) ''EVENT'' = CHR '' '' # join_words ws"
    using trim_prefix_append [of "''EVENT''" "CHR '' '' # join_words ws"] by simp
  then show ?thesis
    using trim_space_edged [OF edged_words [OF assms]] fields_join [OF assms(1)]
    by (simp add: parseEvent_def Let_def trim_space_blank)
qed

section \<open>One row\<close>

definition row_text :: "string \<Rightarrow> string \<Rightarrow> string" where
  "row_text k v = ''  '' @ k @ '':'' @ v"

lemma index_char_first: "c \<notin> set k \<Longrightarrow> index_char c (k @ c # v) = Some (length k)"
  by (induction k) auto

lemma epan_row_text:
  assumes "edged k" "CHR '':'' \<notin> set k" "ascii_text v"
  shows "epan_row (row_text k v) = Some (k, v)"
proof -
  let ?l = "k @ CHR '':'' # v"
  have "visible (last ?l)"
    using edged_text [OF assms(3)] by (cases v) (auto simp: edged_def visible_def)
  then have "edged ?l" using assms(1) by (auto simp: edged_def hd_append)
  then have "trim_space (row_text k v) = ?l"
    by (simp add: row_text_def trim_space_blank trim_space_edged)
  moreover have "k \<noteq> []" using assms(1) by (simp add: edged_def)
  ultimately show ?thesis
    using assms by (simp add: epan_row_def Let_def index_char_first trim_space_edged trim_space_text)
qed

section \<open>The block\<close>

definition epan_rows :: "epan_descriptor \<Rightarrow> (string \<times> string) list" where
  "epan_rows d =
     [(''Channel'', fmt_hex 2 (unat (Channel d))), (''Channel Page'', ''09''),
      (''Pan ID'', fmt_hex 4 (unat (PANID d))), (''Addr'', Addr d), (''LQI'', fmt_hex 2 (unat (LQI d))),
      (''PairID'', PairID d)]"

definition epan_block :: "epan_descriptor \<Rightarrow> string list" where
  "epan_block d = ''EPANDESC'' # map (\<lambda>(k, v). row_text k v) (epan_rows d)"

lemma epan_fold:
  "(\<And>k v. (k, v) \<in> set kvs \<Longrightarrow> edged k \<and> CHR '':'' \<notin> set k \<and> ascii_text v) \<Longrightarrow>
     foldl (\<lambda>m row. case epan_row row of None \<Rightarrow> m | Some (k, v) \<Rightarrow> m(k \<mapsto> v)) m (map (\<lambda>(k, v). row_text k v) kvs) =
     foldl (\<lambda>m (k, v). m(k \<mapsto> v)) m kvs"
proof (induction kvs arbitrary: m)
  case (Cons kv kvs)
  obtain k v where "kv = (k, v)" by (cases kv)
  moreover from this have "epan_row (row_text k v) = Some (k, v)" using Cons.prems by (intro epan_row_text) auto
  moreover have "edged k' \<and> CHR '':'' \<notin> set k' \<and> ascii_text v'" if "(k', v') \<in> set kvs" for k' v'
    using Cons.prems that by auto
  ultimately show ?case using Cons.IH [of "m(k \<mapsto> v)"] by (simp del: fun_upd_apply)
qed simp

lemma beacon_reads:
  assumes "length (Addr d) = 16" "hex_decode (Addr d) \<noteq> None" "ascii_text (PairID d)"
  shows "parseEPANDESC (buildEPANDESC (epan_block d)) = Inr d"
proof -
  obtain bs where "hex_decode (Addr d) = Some bs" using assms(2) by blast
  then have addr: "ascii_text (Addr d)" by (rule hex_decode_text)
  have keys: "edged k \<and> CHR '':'' \<notin> set k" if "k \<in> fst ` set (epan_rows d)" for k
    using that by (auto simp: epan_rows_def edged_def visible_def)
  have vals: "ascii_text v" if "v \<in> snd ` set (epan_rows d)" for v
    using that addr assms(3) by (auto simp: epan_rows_def)
  have "foldl (\<lambda>m row. case epan_row row of None \<Rightarrow> m | Some (k, v) \<Rightarrow> m(k \<mapsto> v)) Map.empty
      (map (\<lambda>(k, v). row_text k v) (epan_rows d)) =
    foldl (\<lambda>m (k, v). m(k \<mapsto> v)) Map.empty (epan_rows d)"
    using keys vals by (intro epan_fold) force
  then have fields: "Fields (buildEPANDESC (epan_block d)) = Some (map_of (rev (epan_rows d)))"
    by (simp add: buildEPANDESC_def epan_block_def) (simp add: epan_rows_def)
  have get: "epan_get (map_of (rev (epan_rows d))) ''Channel'' = fmt_hex 2 (unat (Channel d))"
    "epan_get (map_of (rev (epan_rows d))) ''Pan ID'' = fmt_hex 4 (unat (PANID d))"
    "epan_get (map_of (rev (epan_rows d))) ''Addr'' = Addr d"
    "epan_get (map_of (rev (epan_rows d))) ''LQI'' = fmt_hex 2 (unat (LQI d))"
    "epan_get (map_of (rev (epan_rows d))) ''PairID'' = PairID d"
    using addr assms(3) by (simp_all add: epan_get_def epan_rows_def trim_space_text)
  have "unat (Channel d) < 2 ^ 8" "unat (LQI d) < 2 ^ 8" "unat (PANID d) < 2 ^ 16"
    using unsigned_less [of "Channel d"] unsigned_less [of "LQI d"] unsigned_less [of "PANID d"] by simp_all
  then have "parse_uint_hex 8 (fmt_hex 2 (unat (Channel d))) = Some (unat (Channel d))"
    "parse_uint_hex 8 (fmt_hex 2 (unat (LQI d))) = Some (unat (LQI d))"
    "parse_uint_hex 16 (fmt_hex 4 (unat (PANID d))) = Some (unat (PANID d))"
    by (simp_all only: parse_fmt_hex)
  then show ?thesis
    using assms(1,2) by (simp add: parseEPANDESC_def fields get Let_def)
qed

text \<open>
  C22: Beacons survive the way up: the block that the module prints for a scanned meter is read
  back as exactly that meter's channel, PAN ID, address, link quality and pair ID, for every
  channel, PAN ID and link quality, every 16-digit hexadecimal address and every pair ID
  without white space (or none).
\<close>

theorem beacon_roundtrip:
  assumes "length (Addr d) = 16" "hex_decode (Addr d) \<noteq> None" "ascii_text (PairID d)"
  shows "parseEPANDESC (buildEPANDESC (epan_block d)) = Inr d"
  using assms by (rule beacon_reads)

theorem beacon_roundtrip_witness:
  "parseEPANDESC (buildEPANDESC (epan_block
     \<lparr>Channel = 0x21, PANID = 0x8888, Addr = ''001D129012341234'', LQI = 0xE1, PairID = ''12345678''\<rparr>)) =
   Inr \<lparr>Channel = 0x21, PANID = 0x8888, Addr = ''001D129012341234'', LQI = 0xE1, PairID = ''12345678''\<rparr>"
  by (rule beacon_roundtrip) (simp_all add: hexval_def ascii_text_def)

end
