(* ===== verification/System_Session.thy ===== *)
theory System_Session
  imports System_Join Broute_Beacon Sk_Driver_Demux
begin

text \<open>
  A whole join over the modelled driver: each command written and answered, the beacon and the
  events read from the serial line and dispatched, up to the session that everybody sees.
  It shows that the system of \<open>System_Join\<close> can connect, and what it then rests on.
\<close>

section \<open>Steps of the running system\<close>

abbreviation running :: "driver \<Rightarrow> manager \<Rightarrow> string list \<Rightarrow> (join_pc \<times> attempt) option \<Rightarrow> nat option \<Rightarrow> attempt \<Rightarrow> supervised" where
  "running d m ls q j a \<equiv>
     \<lparr>wrd = \<lparr>dmn = \<lparr>net = stk d m NewClient ls, col = fresh_collector, poll_call = None, probe_call = None\<rparr>,
        sends = Map.empty\<rparr>, seq = q, jcall = j, won = a\<rparr>"

abbreviation sup_reachable :: "zone \<Rightarrow> supervised \<Rightarrow> bool" where
  "sup_reachable z \<equiv> reachable sup_init (sup_step z)"

lemma run_net:
  assumes "sup_reachable z (running d m ls q j a)" "stack_step (stk d m NewClient ls) (stk d' m' NewClient ls')"
    and "dom (calls d') = dom (calls d)" "run_at m' = Connecting \<longleftrightarrow> run_at m = Connecting"
    and "run_at m = Connecting \<Longrightarrow> mstate m' = mstate m \<and> scan_id m' = scan_id m \<and>
      grown (scan_ch m) (scan_ch m') \<and> grown (join_ch m) (join_ch m')"
  shows "sup_reachable z (running d' m' ls' q j a)"
proof -
  let ?w = "wrd (running d m ls q j a)" and ?w' = "wrd (running d' m' ls' q j a)"
  have "daemon_step z (dmn ?w) (dmn ?w')"
    using dm_stack [of "dmn ?w" "net (dmn ?w')" z] assms(2) by (simp add: quiet_step_def)
  then have "silent z (dmn ?w) (dmn ?w')" using assms(3) by (simp add: silent_def in_phase_def NewClient_def)
  then have "wire_step z ?w ?w'" using w_silent [of z ?w "dmn ?w'"] by simp
  moreover have "leaves_join ?w ?w'" using assms(3-5) by (simp add: leaves_join_def)
  ultimately have "sup_step z (running d m ls q j a) (running d' m' ls' q j a)"
    using sv_world [of z "running d m ls q j a" ?w'] by simp
  with assms(1) show ?thesis by (rule reachable.next_state)
qed

lemma grown_refl [simp]: "grown ch ch"
  by (simp add: grown_def split: option.split)

text \<open>A step of the caller \<open>i\<close>.\<close>

lemma run_caller:
  assumes "sup_reachable z (running d m ls q j a)" "drv_step d d'" "events d' = events d"
    and "phase_of d i = Some ph" "phase_of d' i = Some ph'" "ph' \<noteq> ph" "dom (calls d') = dom (calls d)"
  shows "sup_reachable z (running d' m ls q j a)"
  using s_driver [of "stk d m NewClient ls" d'] assms(2-7) no_line(2) [of d' i d]
  by (intro run_net [OF assms(1)]) (simp_all add: drv_alone_def)

lemma run_read:
  assumes "sup_reachable z (running d m ls q j a)" "\<not> reader_done d" "dom (calls (read_line l d)) = dom (calls d)"
  shows "sup_reachable z (running (read_line l d) m (ls @ [l]) q j a)"
  using s_read [of "stk d m NewClient ls" l] assms(2,3) by (intro run_net [OF assms(1)]) simp_all

section \<open>A command and its answer\<close>

definition idle_driver :: "driver \<Rightarrow> bool" where
  "idle_driver d \<longleftrightarrow> cmd_mu d = None \<and> pending d = None \<and> \<not> closed d \<and> epan_buf d = None \<and> \<not> reader_done d \<and>
     events d = [] \<and> event_cap d = 64 \<and> finite (dom (calls d))"

definition stands :: "zone \<Rightarrow> manager \<Rightarrow> join_pc \<Rightarrow> bool" where
  "stands z m p \<longleftrightarrow> (\<exists>d ls a b. idle_driver d \<and> sup_reachable z (running d m ls (Some (p, a)) None b))"

lemma stands_command:
  assumes "stands z m p" "command_of (mcfg m) p = Some (line, t)"
  shows "stands z m (after p None)"
proof -
  obtain d ls a b where idle: "idle_driver d" and reach: "sup_reachable z (running d m ls (Some (p, a)) None b)"
    using assms(1) by (auto simp: stands_def)
  note idle = idle [unfolded idle_driver_def]
  obtain n where n: "calls d n = None" using idle ex_new_if_finite [of "dom (calls d)"] by auto
  let ?pc = "\<lambda>ph. \<lparr>pc_cmd = line, pc_payload = [], pc_resp = [], pc_done = None, pc_phase = ph\<rparr>"
  let ?pc' = "\<lambda>ph. \<lparr>pc_cmd = line, pc_payload = [], pc_resp = [], pc_done = Some (term_result ''OK'' []), pc_phase = ph\<rparr>"
  let ?d1 = "d\<lparr>cmd_mu := Some n, calls := (calls d)(n \<mapsto> ?pc Locked)\<rparr>"
  let ?d2 = "d\<lparr>cmd_mu := Some n, calls := (calls d)(n \<mapsto> ?pc Checked)\<rparr>"
  let ?d3 = "d\<lparr>cmd_mu := Some n, pending := Some n, calls := (calls d)(n \<mapsto> ?pc Registered)\<rparr>"
  let ?d4 = "d\<lparr>cmd_mu := Some n, pending := Some n, calls := (calls d)(n \<mapsto> ?pc Waiting),
    wire := wire d @ [line @ [CHR 0x0D, CHR 0x0A]], dlog := dlog d @ [redactCredential line]\<rparr>"
  let ?d5 = "?d4\<lparr>pending := None, dlog := dlog d @ [redactCredential line, redactCredential ''OK''],
    calls := (calls d)(n \<mapsto> ?pc' Waiting)\<rparr>"
  let ?d6 = "?d5\<lparr>cmd_mu := None, calls := (calls d)(n \<mapsto> ?pc' (Returned [] None))\<rparr>"
  let ?R = "\<lambda>d. sup_reachable z (running d m ls (Some (p, a)) (Some n) b)"
  let ?S = "\<lambda>d. sup_reachable z (running d m (ls @ [''OK'']) (Some (p, a)) (Some n) b)"
  note eval = acquire_cmd_def check_closed_def register_cmd_def writeCommand_def finish_done_def return_cmd_def
    set_phase_def phase_of_def
  have "?R ?d1"
  proof (rule reachable.next_state [OF reach])
    show "sup_step z (running d m ls (Some (p, a)) None b) (running ?d1 m ls (Some (p, a)) (Some n) b)"
      using sv_call [of "running d m ls (Some (p, a)) None b" p a line t n z] assms(2) idle n
      by (simp add: issue_join_def put_driver_def acquire_cmd_def)
  qed
  moreover have "check_closed n ?d1 = ?d2" using idle by (simp add: eval)
  ultimately have "?R ?d2"
    using step_check [of ?d1 n] by (intro run_caller [of z ?d1 _ _ _ _ _ ?d2 n Locked Checked]) (simp_all add: phase_of_def)
  moreover have "register_cmd n ?d2 = ?d3" using idle by (simp add: eval)
  ultimately have "?R ?d3"
    using step_register [of ?d2 n] by (intro run_caller [of z ?d2 _ _ _ _ _ ?d3 n Checked Registered]) (simp_all add: phase_of_def)
  moreover have "writeCommand n None ?d3 = ?d4" by (simp add: eval)
  ultimately have "?R ?d4"
    using step_write [of ?d3 n None] by (intro run_caller [of z ?d3 _ _ _ _ _ ?d4 n Registered Waiting]) (simp_all add: phase_of_def)
  moreover have "terminal_line ''OK''" by code_simp
  then have "read_line ''OK'' ?d4 = ?d5"
    using idle by (subst read_line_terminal [where i = n and pc = "?pc Waiting"]) simp_all
  ultimately have "?S ?d5"
    using run_read [of z ?d4 m ls "Some (p, a)" "Some n" b "''OK''"] idle by auto
  moreover have "term_error ''OK'' = None" by code_simp
  then have "finish_done n (term_result ''OK'' []) ?d5 = ?d6" by (simp add: eval)
  ultimately have six: "?S ?d6"
    using step_result [of ?d5 n "term_result ''OK'' []"]
    by (intro run_caller [of z ?d5 _ _ _ _ _ ?d6 n Waiting "Returned [] None"]) (simp_all add: phase_of_def)
  have "sup_step z (running ?d6 m (ls @ [''OK'']) (Some (p, a)) (Some n) b)
      (running ?d6 m (ls @ [''OK'']) (Some (after p None, a\<lparr>told := told a @ [((line, t), None)]\<rparr>)) None b)"
    using sv_return [of "running ?d6 m (ls @ [''OK'']) (Some (p, a)) (Some n) b" p a n "(line, t)" "[]" None z] assms(2)
    by (simp add: phase_of_def)
  with six have "sup_reachable z (running ?d6 m (ls @ [''OK'']) (Some (after p None, a\<lparr>told := told a @ [((line, t), None)]\<rparr>)) None b)"
    by (rule reachable.next_state)
  moreover have "idle_driver ?d6" using idle by (simp add: idle_driver_def)
  ultimately show ?thesis unfolding stands_def by blast
qed

lemma stands_move:
  assumes "stands z m p" "moves p = Some q"
  shows "stands z (effect p m) q"
proof -
  obtain d ls a b where idle: "idle_driver d" and reach: "sup_reachable z (running d m ls (Some (p, a)) None b)"
    using assms(1) by (auto simp: stands_def)
  have "sup_step z (running d m ls (Some (p, a)) None b) (running d (effect p m) ls (Some (q, enter_stage p a)) None b)"
    using sv_move [of "running d m ls (Some (p, a)) None b" p a q z] assms(2) by (simp add: put_manager_def)
  with reach have "sup_reachable z (running d (effect p m) ls (Some (q, enter_stage p a)) None b)"
    by (rule reachable.next_state)
  with idle show ?thesis unfolding stands_def by blast
qed

section \<open>Events on their way to the attempt\<close>

lemma run_event:
  assumes "sup_reachable z (running d m ls q j a)" "disp_at m = Dispatching" "events d = ev # evs"
    and "handleEvent 0 ev m = m'" "run_at m' = run_at m" "mstate m' = mstate m" "scan_id m' = scan_id m"
    and "grown (scan_ch m) (scan_ch m')" "grown (join_ch m) (join_ch m')"
  shows "sup_reachable z (running (d\<lparr>events := evs\<rparr>) m' ls q j a)"
  using s_event [of "stk d m NewClient ls" ev evs 0] assms(2-9)
  by (intro run_net [OF assms(1)]) (simp_all add: take_event_def)

lemma run_rows:
  assumes "sup_reachable z (running d m ls q j a)" "epan_buf d = Some buf" "list_all starts_indented rows" "\<not> reader_done d"
  shows "sup_reachable z (running (d\<lparr>epan_buf := Some (buf @ rows), dlog := dlog d @ map redactCredential rows\<rparr>) m (ls @ rows) q j a)"
  using assms
proof (induction rows arbitrary: d buf ls)
  case Nil
  then have "d\<lparr>epan_buf := Some (buf @ []), dlog := dlog d @ map redactCredential []\<rparr> = d" by (cases d) simp
  with Nil.prems(1) show ?case by (simp only: append_Nil2)
next
  case (Cons row rows)
  have read: "read_line row d = d\<lparr>epan_buf := Some (buf @ [row]), dlog := dlog d @ [redactCredential row]\<rparr>"
    using read_block [OF Cons.prems(2), of "[row]"] Cons.prems(3) by simp
  then have "sup_reachable z (running (read_line row d) m (ls @ [row]) q j a)"
    using Cons.prems by (intro run_read) simp_all
  from Cons.IH [OF this [unfolded read], of "buf @ [row]"] Cons.prems show ?case by simp
qed

text \<open>The two events of the sequence, as lines.\<close>

definition scanned_line :: string where
  "scanned_line = ''EVENT '' @ join_words [''22'', ''FE80'']"

definition joined_line :: string where
  "joined_line = ''EVENT '' @ join_words [''25'', ''FE80'']"

lemma line_params:
  "Params (parseEvent ''EVENT'' scanned_line) = [''22'', ''FE80'']"
  "Params (parseEvent ''EVENT'' joined_line) = [''25'', ''FE80'']"
  unfolding scanned_line_def joined_line_def by (rule event_words; auto simp: ascii_text_def)+

lemma line_kinds:
  "async_line scanned_line" "async_event scanned_line = parseEvent ''EVENT'' scanned_line" "\<not> terminal_line scanned_line"
  "async_line joined_line" "async_event joined_line = parseEvent ''EVENT'' joined_line" "\<not> terminal_line joined_line"
  by (simp_all add: scanned_line_def joined_line_def async_line_def async_event_def terminal_line_def is_ok_line_def
      has_prefix_def)

lemma stands_scan:
  assumes "stands z m (J_Scanning None)" "disp_at m = Dispatching" "scan_ch m = Some []"
    and "parseEPANDESC (buildEPANDESC (epan_block e)) = Inr e"
  shows "stands z m (J_Scan_Off (Inr e))"
proof -
  obtain d ls a b where idle: "idle_driver d" and reach: "sup_reachable z (running d m ls (Some (J_Scanning None, a)) None b)"
    using assms(1) by (auto simp: stands_def)
  note idle' = idle [unfolded idle_driver_def]
  let ?q = "Some (J_Scanning None, a)"
  let ?rows = "map (\<lambda>(k, v). row_text k v) (epan_rows e)"
  let ?log = "dlog d @ ''EPANDESC'' # map redactCredential ?rows" and ?l = "(ls @ [''EPANDESC'']) @ ?rows"
  let ?e1 = "buildEPANDESC (epan_block e)" and ?e2 = "parseEvent ''EVENT'' scanned_line"
  let ?d1 = "d\<lparr>epan_buf := Some (epan_block e), dlog := ?log\<rparr>"
  let ?d2 = "d\<lparr>events := [?e1, ?e2], dlog := ?log @ [redactCredential scanned_line]\<rparr>"
  have head: "read_line ''EPANDESC'' d = d\<lparr>epan_buf := Some [''EPANDESC''], dlog := dlog d @ [''EPANDESC'']\<rparr>"
    using idle' by (intro read_line_header) simp
  then have "sup_reachable z (running (d\<lparr>epan_buf := Some [''EPANDESC''], dlog := dlog d @ [''EPANDESC'']\<rparr>) m
      (ls @ [''EPANDESC'']) ?q None b)"
    using run_read [OF reach, of "''EPANDESC''"] idle' by simp
  moreover have "list_all starts_indented ?rows"
    by (simp add: epan_rows_def row_text_def starts_indented_def has_prefix_def)
  ultimately have block: "sup_reachable z (running ?d1 m ?l ?q None b)"
    using run_rows [of z "d\<lparr>epan_buf := Some [''EPANDESC''], dlog := dlog d @ [''EPANDESC'']\<rparr>" m "ls @ [''EPANDESC'']" ?q None b "[''EPANDESC'']" ?rows]
      idle' by (simp add: epan_block_def)
  have d2: "read_line scanned_line ?d1 = ?d2"
  proof -
    have "read_line scanned_line ?d1 = read_line scanned_line (pushEvent ?e1 (?d1\<lparr>epan_buf := None\<rparr>))"
      by (rule read_line_flush) (simp_all add: scanned_line_def starts_indented_def has_prefix_def)
    also have "pushEvent ?e1 (?d1\<lparr>epan_buf := None\<rparr>) = d\<lparr>events := [?e1], dlog := ?log\<rparr>"
      using idle' by (cases d) (simp add: pushEvent_def)
    finally show ?thesis
      using idle' by (simp add: read_line_async line_kinds pushEvent_def)
  qed
  have "sup_reachable z (running (read_line scanned_line ?d1) m (?l @ [scanned_line]) ?q None b)"
    using idle' by (intro run_read [OF block]) (simp_all only: d2, simp_all)
  then have "sup_reachable z (running ?d2 m (?l @ [scanned_line]) ?q None b)" by (simp only: d2)
  then have "sup_reachable z (running (?d2\<lparr>events := [?e2]\<rparr>) (m\<lparr>scan_ch := Some [?e1]\<rparr>) (?l @ [scanned_line]) ?q None b)"
    using assms(2) by (rule run_event [where ev = ?e1]) (simp_all add: handleEvent_def kinds_of_lines scanNotify_def scan_cap_def grown_def assms(3))
  then have "sup_reachable z (running ((?d2\<lparr>events := [?e2]\<rparr>)\<lparr>events := []\<rparr>) (m\<lparr>scan_ch := Some [?e1, ?e2]\<rparr>)
      (?l @ [scanned_line]) ?q None b)"
    by (rule run_event [where ev = ?e2])
      (simp_all add: handleEvent_def handle_code_def kinds_of_lines line_params scanNotify_def scan_cap_def grown_def assms(2))
  moreover have "idle_driver ((?d2\<lparr>events := [?e2]\<rparr>)\<lparr>events := []\<rparr>)" using idle by (simp add: idle_driver_def)
  ultimately obtain d3 l3 where d3: "idle_driver d3"
      "sup_reachable z (running d3 (m\<lparr>scan_ch := Some [?e1, ?e2]\<rparr>) l3 ?q None b)" by blast
  have "scan_event None ?e1 = J_Scanning (Some e)" by (simp add: scan_event_def kinds_of_lines assms(4))
  then have "sup_step z (running d3 (m\<lparr>scan_ch := Some [?e1, ?e2]\<rparr>) l3 ?q None b)
      (running d3 (m\<lparr>scan_ch := Some [?e2]\<rparr>) l3 (Some (J_Scanning (Some e), a\<lparr>taken := taken a @ [?e1]\<rparr>)) None b)"
    using sv_scan [of "running d3 (m\<lparr>scan_ch := Some [?e1, ?e2]\<rparr>) l3 ?q None b" None a ?e1 "[?e2]" z]
    by (simp add: put_manager_def)
  with d3(2) have one: "sup_reachable z (running d3 (m\<lparr>scan_ch := Some [?e2]\<rparr>) l3
      (Some (J_Scanning (Some e), a\<lparr>taken := taken a @ [?e1]\<rparr>)) None b)" by (rule reachable.next_state)
  have "scan_event (Some e) ?e2 = J_Scan_Off (Inr e)"
    by (simp add: scan_event_def kinds_of_lines is_event_def line_params)
  then have "sup_step z (running d3 (m\<lparr>scan_ch := Some [?e2]\<rparr>) l3 (Some (J_Scanning (Some e), a\<lparr>taken := taken a @ [?e1]\<rparr>)) None b)
      (running d3 (m\<lparr>scan_ch := Some []\<rparr>) l3 (Some (J_Scan_Off (Inr e), a\<lparr>taken := taken a @ [?e1, ?e2]\<rparr>)) None b)"
    using sv_scan [of "running d3 (m\<lparr>scan_ch := Some [?e2]\<rparr>) l3 (Some (J_Scanning (Some e), a\<lparr>taken := taken a @ [?e1]\<rparr>)) None b"
        "Some e" _ ?e2 "[]" z]
    by (simp add: put_manager_def)
  with one have two: "sup_reachable z (running d3 (m\<lparr>scan_ch := Some []\<rparr>) l3
      (Some (J_Scan_Off (Inr e), a\<lparr>taken := taken a @ [?e1, ?e2]\<rparr>)) None b)" by (rule reachable.next_state)
  have "m\<lparr>scan_ch := Some []\<rparr> = m" using assms(3) by (cases m) simp
  from two [unfolded this] d3(1) show ?thesis unfolding stands_def by blast
qed

lemma stands_join:
  assumes "stands z m (J_Await e ip)" "disp_at m = Dispatching" "join_ch m = Some []"
  shows "stands z m (J_Join_Off e ip (Inr ()))"
proof -
  obtain d ls a b where idle: "idle_driver d" and reach: "sup_reachable z (running d m ls (Some (J_Await e ip, a)) None b)"
    using assms(1) by (auto simp: stands_def)
  note idle' = idle [unfolded idle_driver_def]
  let ?q = "Some (J_Await e ip, a)" and ?ev = "parseEvent ''EVENT'' joined_line" and ?l = "ls @ [joined_line]"
  let ?d1 = "d\<lparr>events := [?ev], dlog := dlog d @ [redactCredential joined_line]\<rparr>"
  have d1: "read_line joined_line d = ?d1"
    using idle' by (simp add: read_line_async line_kinds pushEvent_def)
  have "sup_reachable z (running (read_line joined_line d) m ?l ?q None b)"
    using idle' by (intro run_read [OF reach]) (simp_all only: d1, simp_all)
  then have "sup_reachable z (running ?d1 m ?l ?q None b)" by (simp only: d1)
  then have "sup_reachable z (running (?d1\<lparr>events := []\<rparr>) (m\<lparr>join_ch := Some [?ev]\<rparr>) ?l ?q None b)"
    using assms(2)
    by (rule run_event [where ev = ?ev])
      (simp_all add: handleEvent_def handle_code_def kinds_of_lines line_params joinNotify_def grown_def assms(3))
  moreover have "idle_driver (?d1\<lparr>events := []\<rparr>)" using idle by (simp add: idle_driver_def)
  ultimately obtain d2 where d2: "idle_driver d2"
      "sup_reachable z (running d2 (m\<lparr>join_ch := Some [?ev]\<rparr>) ?l ?q None b)" by blast
  have "join_outcome (Some ?ev) = Inr ()" by (simp add: join_outcome_def line_params)
  then have "sup_step z (running d2 (m\<lparr>join_ch := Some [?ev]\<rparr>) ?l ?q None b)
      (running d2 (m\<lparr>join_ch := Some []\<rparr>) ?l (Some (J_Join_Off e ip (Inr ()), a\<lparr>verdict := Some ?ev\<rparr>)) None b)"
    using sv_join [of "running d2 (m\<lparr>join_ch := Some [?ev]\<rparr>) ?l ?q None b" e ip a ?ev "[]" z]
    by (simp add: put_manager_def)
  with d2(2) have two: "sup_reachable z (running d2 (m\<lparr>join_ch := Some []\<rparr>) ?l
      (Some (J_Join_Off e ip (Inr ()), a\<lparr>verdict := Some ?ev\<rparr>)) None b)" by (rule reachable.next_state)
  have "m\<lparr>join_ch := Some []\<rparr> = m" using assms(3) by (cases m) simp
  from two [unfolded this] d2(1) show ?thesis unfolding stands_def by blast
qed

section \<open>A join from the start\<close>

lemma stands_start: "stands z (run_top (NewManager cfg)) J_Init"
proof -
  let ?x = "running (new_driver 64) (NewManager cfg) [] None None no_attempt"
  have "sup_reachable z ?x"
    by (rule reachable.start)
      (auto simp: sup_init_def wire_init_def daemon_init_def stack_init_def stack_start_def fresh_started)
  moreover have "sup_step z ?x (running (new_driver 64) (run_top (NewManager cfg)) [] (Some (J_Init, no_attempt)) None no_attempt)"
    using sv_start [of ?x z] by (simp add: NewManager_def put_manager_def)
  ultimately have "sup_reachable z (running (new_driver 64) (run_top (NewManager cfg)) [] (Some (J_Init, no_attempt)) None no_attempt)"
    by (rule reachable.next_state)
  moreover have "idle_driver (new_driver 64)" by (simp add: idle_driver_def new_driver_def)
  ultimately show ?thesis unfolding stands_def by blast
qed

lemma stands_answer:
  "stands z m p \<Longrightarrow> command_of (mcfg m) p \<noteq> None \<Longrightarrow> after p None = q \<Longrightarrow> stands z m q"
  using stands_command [of z m p] by auto

lemma stands_go: "stands z m p \<Longrightarrow> moves p = Some q \<Longrightarrow> effect p m = m' \<Longrightarrow> stands z m' q"
  using stands_move [of z m p q] by simp

lemma stands_login:
  assumes "stands z m J_Init"
  shows "stands z (setState StateScanning (setState StateInitializing m)) J_Scan_On"
proof -
  have "stands z (setState StateInitializing m) J_Reset" using stands_move [OF assms] by simp
  then have "stands z (setState StateInitializing m) J_Wopt"
    by (rule stands_answer) (simp_all add: or_fail_def)
  then have "stands z (setState StateInitializing m) J_Ropt" by (rule stands_answer) simp_all
  then have "stands z (setState StateInitializing m) J_Password" by (rule stands_answer) simp_all
  then have "stands z (setState StateInitializing m) J_Id" by (rule stands_answer) (simp_all add: or_fail_def)
  then have "stands z (setState StateInitializing m) J_Scan_State" by (rule stands_answer) (simp_all add: or_fail_def)
  then show ?thesis by (rule stands_go) simp_all
qed

lemma stands_scanned:
  assumes "stands z m J_Scan_On" "disp_at m = Dispatching"
    and "parseEPANDESC (buildEPANDESC (epan_block e)) = Inr e" "macToLinkLocalIPv6 (Addr e) = Inr ip"
  shows "stands z (setState StateJoining (m\<lparr>scan_ch := None, scan_id := Suc (scan_id m)\<rparr>)) (J_Join_On e ip)"
proof -
  let ?m = "m\<lparr>scan_ch := Some [], scan_id := Suc (scan_id m)\<rparr>"
  let ?n = "m\<lparr>scan_ch := None, scan_id := Suc (scan_id m)\<rparr>"
  have "stands z ?m J_Scan_Cmd" using stands_move [OF assms(1)] by simp
  then have "stands z ?m (J_Scanning None)" by (rule stands_answer) simp_all
  then have "stands z ?m (J_Scan_Off (Inr e))" using assms(2,3) by (intro stands_scan) simp_all
  then have "stands z ?n (J_Channel e)" by (rule stands_go) simp_all
  then have "stands z ?n (J_Pan e)" by (rule stands_answer) (simp_all add: or_fail_def)
  then have "stands z ?n (J_Mac e)" by (rule stands_answer) (simp_all add: or_fail_def)
  then have "stands z ?n (J_Join_State e ip)" by (rule stands_go) (simp_all add: assms(4))
  then show ?thesis by (rule stands_go) simp_all
qed

lemma stands_joined:
  assumes "stands z m (J_Join_On e ip)" "disp_at m = Dispatching" "macToLinkLocalIPv6 (Addr e) = Inr ip"
  shows "stands z (m\<lparr>join_ch := None\<rparr>) (J_Result (Inr (session_for e ip)))"
proof -
  let ?m = "m\<lparr>join_ch := Some []\<rparr>"
  have "stands z ?m (J_Join_Cmd e ip)"
    using stands_move [OF assms(1)] link_local_formats [OF assms(3)] by simp
  then have "stands z ?m (J_Await e ip)" by (rule stands_answer) simp_all
  then have "stands z ?m (J_Join_Off e ip (Inr ()))" using assms(2) by (intro stands_join) simp_all
  then show ?thesis by (rule stands_go) simp_all
qed

lemma stands_installed:
  assumes "stands z m (J_Result (Inr ss))"
  shows "\<exists>x. sup_reachable z x \<and> sess (smgr x) = Some ss \<and> mcfg (smgr x) = mcfg m"
proof -
  obtain d ls a b where reach: "sup_reachable z (running d m ls (Some (J_Result (Inr ss), a)) None b)"
    using assms by (auto simp: stands_def)
  let ?m = "run_connected ss m"
  have "sup_step z (running d m ls (Some (J_Result (Inr ss), a)) None b) (running d ?m ls None None a)"
    using sv_connected [of "running d m ls (Some (J_Result (Inr ss), a)) None b" ss a z] by (simp add: put_manager_def)
  with reach have connected: "sup_reachable z (running d ?m ls None None a)" by (rule reachable.next_state)
  have "mgr_alone ?m ((install_session ss ?m)\<lparr>run_at := Install_Signal\<rparr>)"
    using m_install [of ?m ss] by (simp add: mgr_alone_def undisturbed_def run_connected_def install_session_def)
  then have "stack_step (stk d ?m NewClient ls) (stk d ((install_session ss ?m)\<lparr>run_at := Install_Signal\<rparr>) NewClient ls)"
    using s_manager [of "stk d ?m NewClient ls"] by simp
  with connected have "sup_reachable z (running d ((install_session ss ?m)\<lparr>run_at := Install_Signal\<rparr>) ls None None a)"
    by (rule run_net) (simp_all add: run_connected_def install_session_def)
  then show ?thesis
    by (rule exI [of _ "running d ((install_session ss ?m)\<lparr>run_at := Install_Signal\<rparr>) ls None None a", OF conjI])
      (simp add: install_session_def run_connected_def)
qed

lemma join_reachable:
  assumes "length (Addr e) = 16" "hex_decode (Addr e) \<noteq> None" "ascii_text (PairID e)"
  shows "\<exists>x ip. sup_reachable z x \<and> sess (smgr x) = Some (session_for e ip) \<and> mcfg (smgr x) = with_defaults cfg"
proof -
  let ?m = "setState StateScanning (setState StateInitializing (run_top (NewManager cfg)))"
  let ?n = "(setState StateJoining (?m\<lparr>scan_ch := None, scan_id := Suc (scan_id ?m)\<rparr>))"
  have beacon: "parseEPANDESC (buildEPANDESC (epan_block e)) = Inr e" using assms(1-3) by (rule beacon_reads)
  then obtain ip where ip: "macToLinkLocalIPv6 (Addr e) = Inr ip"
    using parseEPANDESC_linkable by (auto simp: linkable_def)
  have same: "disp_at ?m = Dispatching" "disp_at ?n = Dispatching" "mcfg ?n = with_defaults cfg"
    by (simp_all add: mgr_ops NewManager_def)
  have "stands z ?n (J_Join_On e ip)"
    using beacon ip same by (intro stands_scanned stands_login stands_start)
  then have "stands z (?n\<lparr>join_ch := None\<rparr>) (J_Result (Inr (session_for e ip)))"
    using same(2) ip by (rule stands_joined)
  from stands_installed [OF this] same(3) show ?thesis by auto
qed

lemma mandatory_plan:
  "mandatory_lines_of (join_plan cfg d ip) =
     map with_crlf [''SKRESET'', password_line cfg, id_line cfg, scan_line cfg,
       set_channel_line d, set_pan_line d, join_line ip]"
  by (simp add: mandatory_lines_of_def join_plan_def login_plan_def register_plan_def mandatory_lines)
    (simp add: not_optional_def)

section \<open>Properties\<close>

text \<open>
  C3: A session is authentic: whenever the daemon shows a session, however its goroutines
  have interleaved and whatever was lost or timed out on the way, a block of consecutive
  lines that the reader has read is a beacon of the session's meter (its channel, PAN ID and
  MAC address, from which the session's link-local address is computed), the reader has read
  an \<open>EVENT 25\<close>, and the commands of the plan for that meter but the two optional ones
  (\<open>SKRESET\<close>, password, ID, \<open>SKSCAN\<close>, channel, PAN ID, \<open>SKJOIN\<close>) have been written to the
  line in this order.
\<close>

theorem session_authentic:
  assumes "reachable sup_init (sup_step z) x" "sess (smgr x) = Some ss"
  shows "\<exists>d. beacon_heard (srx x) d \<and> joined_heard (srx x) \<and>
    ss = \<lparr>MeterIP = MeterIP ss, SessPANID = PANID d, SessChannel = Channel d, MeterMAC = Addr d\<rparr> \<and>
    macToLinkLocalIPv6 (Addr d) = Inr (MeterIP ss) \<and>
    subseq (map with_crlf [''SKRESET'', password_line (mcfg (smgr x)), id_line (mcfg (smgr x)), scan_line (mcfg (smgr x)),
      set_channel_line d, set_pan_line d, join_line (MeterIP ss)]) (wire (sdrv x))"
  using session_backed [OF assms] by (simp add: session_for_def mandatory_plan)

theorem session_authentic_witness:
  "\<exists>ls d. beacon_heard ls d \<and> joined_heard ls \<and> PANID d = 0x8888 \<and> Addr d = ''001D129012341234''"
proof -
  have "length (Addr demo_beacon) = 16" "hex_decode (Addr demo_beacon) \<noteq> None" "ascii_text (PairID demo_beacon)"
    by (simp_all add: demo_beacon_def hexval_def)
  then obtain x ip where x: "sup_reachable (fixed_zone 0) x" "sess (smgr x) = Some (session_for demo_beacon ip)"
    using join_reachable by blast
  from session_authentic [OF x] obtain d where "beacon_heard (srx x) d" "joined_heard (srx x)"
      "session_for demo_beacon ip = \<lparr>MeterIP = MeterIP (session_for demo_beacon ip), SessPANID = PANID d,
         SessChannel = Channel d, MeterMAC = Addr d\<rparr>" by blast
  then show ?thesis by (auto simp: session_for_def demo_beacon_def)
qed

text \<open>
  C11: Every meter can be joined: for every configuration, and for every channel, PAN ID, link
  quality, 16-digit hexadecimal address and pair ID that a beacon can carry, the daemon has
  a run from its start, through the driver's reader and the manager's channels, in
  which it comes to show the session of that meter.
\<close>

theorem meter_joinable:
  fixes e :: epan_descriptor
  assumes "length (Addr e) = 16" "hex_decode (Addr e) \<noteq> None" "ascii_text (PairID e)"
  shows "\<exists>x ss. reachable sup_init (sup_step z) x \<and> mcfg (smgr x) = with_defaults cfg \<and>
    sess (smgr x) = Some ss \<and> SessPANID ss = PANID e \<and> SessChannel ss = Channel e \<and> MeterMAC ss = Addr e"
  using join_reachable [OF assms, of z cfg] by (auto simp: session_for_def)

theorem meter_joinable_witness:
  "\<exists>x ss. reachable sup_init (sup_step (fixed_zone 0)) x \<and> sess (smgr x) = Some ss \<and> SessPANID ss = 0x8888"
proof -
  have "length (Addr demo_beacon) = 16" "hex_decode (Addr demo_beacon) \<noteq> None" "ascii_text (PairID demo_beacon)"
    by (simp_all add: demo_beacon_def hexval_def)
  from meter_joinable [OF this, of "fixed_zone 0" demo_config] show ?thesis by (auto simp: demo_beacon_def)
qed

end
