(* ===== verification/App_Metrics.thy ===== *)
theory App_Metrics
  imports Go_Float Go_Time
begin

text \<open>
  \<open>internal/metrics/metrics.go\<close>: the counters the daemon keeps about itself and the
  liveness gauge, which is computed when it is scraped. What they
  are in the Prometheus registry is in \<open>App_Scrape\<close>.
\<close>

text \<open>\<open>lastResponseUnix\<close> is in nanoseconds since the Unix epoch, 0 before the first response.\<close>

record metrics =
  Reconnects :: nat
  PANAAuthFailures :: nat
  GetErrors :: "string \<Rightarrow> nat"
  SinkWriteErrors :: "string \<Rightarrow> nat"
  SessionState :: float64
  FrameChecksumErrs :: nat
  lastResponseUnix :: int

definition NewMetrics :: metrics where
  "NewMetrics = \<lparr>Reconnects = 0, PANAAuthFailures = 0, GetErrors = (\<lambda>_. 0), SinkWriteErrors = (\<lambda>_. 0),
     SessionState = Fin 0, FrameChecksumErrs = 0, lastResponseUnix = 0\<rparr>"

definition MarkResponse :: "instant \<Rightarrow> metrics \<Rightarrow> metrics" where
  "MarkResponse now m = m\<lparr>lastResponseUnix := now - unix_epoch\<rparr>"

definition SetState :: "int \<Rightarrow> metrics \<Rightarrow> metrics" where
  "SetState s m = m\<lparr>SessionState := f_of_int s\<rparr>"

text \<open>\<open>Duration.Seconds\<close>: whole seconds plus the rest; both divisions truncate.\<close>

definition duration_seconds :: "duration \<Rightarrow> float64" where
  "duration_seconds d =
     (let s = sgn d * (\<bar>d\<bar> div second); ns = sgn d * (\<bar>d\<bar> mod second)
      in f_add (f_of_int s) (f_div (f_of_int ns) (f_of_int second)))"

definition last_response_seconds :: "instant \<Rightarrow> metrics \<Rightarrow> float64" where
  "last_response_seconds now m =
     (if lastResponseUnix m = 0 then f_of_int (- 1)
      else duration_seconds (now - (lastResponseUnix m + unix_epoch)))"

section \<open>The liveness gauge\<close>

lemma duration_seconds_nonneg:
  assumes "0 \<le> d" "d div second \<le> 2 ^ 53"
  shows "duration_seconds d = f_add (f_of_int (d div second)) (f_lit (d mod second) (nat second))"
proof -
  have "f_div (f_of_int (d mod second)) (f_of_int second) = f_lit (d mod second) (nat second)"
    using f_div_ints [of "d mod second" "nat second"] by (simp add: second_def)
  with assms(1) show ?thesis by (cases "d = 0") (simp_all add: duration_seconds_def Let_def)
qed

lemma nanos_fraction:
  fixes r :: int
  assumes "0 \<le> r" "r < second"
  shows "\<exists>m. f_lit r (nat second) = Fin m \<and> 0 \<le> m \<and> m \<le> int fscale"
proof -
  have "f_le (f_lit 0 1) (f_lit r (nat second))" using assms by (intro f_lit_mono) (simp_all add: second_def)
  moreover have "f_le (f_lit r (nat second)) (f_lit 1 1)"
    using assms by (intro f_lit_mono) (simp_all add: second_def)
  moreover have "f_lit 1 1 = Fin (int fscale)" using f_of_int_exact [of 1] by (simp add: f_of_int_lit)
  ultimately show ?thesis by (cases "f_lit r (nat second)") (simp_all add: f_lit_def)
qed

lemma duration_seconds_mono:
  assumes "0 \<le> d" "d \<le> e" "e div second < 2 ^ 53"
  shows "f_le (duration_seconds d) (duration_seconds e)"
proof -
  have div: "d div second \<le> e div second" using assms(2) by (simp add: zdiv_mono1 second_def)
  have pos: "0 \<le> d div second" using assms(1) by (simp add: second_def pos_imp_zdiv_nonneg_iff)
  obtain m where m: "f_lit (d mod second) (nat second) = Fin m" "0 \<le> m" "m \<le> int fscale"
    using nanos_fraction [of "d mod second"] by (auto simp: second_def)
  obtain n where n: "f_lit (e mod second) (nat second) = Fin n" "0 \<le> n"
    using nanos_fraction [of "e mod second"] by (auto simp: second_def)
  have le: "d div second * int fscale + m \<le> e div second * int fscale + n"
  proof (cases "d div second = e div second")
    case True
    then have "d mod second \<le> e mod second" using assms(2) by (simp add: minus_div_mult_eq_mod [symmetric])
    then have "f_le (f_lit (d mod second) (nat second)) (f_lit (e mod second) (nat second))"
      by (intro f_lit_mono) (simp_all add: second_def)
    with True m n show ?thesis by simp
  next
    case False
    with div have "(d div second + 1) * int fscale \<le> e div second * int fscale"
      by (intro mult_right_mono) simp_all
    with m(3) n(2) show ?thesis by (simp add: algebra_simps)
  qed
  have "duration_seconds d = fl (d div second * int fscale + m) 1"
    "duration_seconds e = fl (e div second * int fscale + n) 1"
    using assms div pos m n by (simp_all add: duration_seconds_nonneg f_of_int_exact)
  with le show ?thesis by (simp add: fl_mono)
qed

text \<open>
  The liveness gauge: -1 before the first response, 0 at a response, and from then on,
  until the next one, it never decreases with time and is exact at whole seconds.
\<close>

theorem last_response_gauge:
  assumes "unix_epoch < at" "at \<le> now" "now \<le> later" "(later - at) div second < 2 ^ 53"
  shows "last_response_seconds now NewMetrics = f_of_int (- 1)
    \<and> last_response_seconds at (MarkResponse at m) = f_of_int 0
    \<and> f_le (last_response_seconds now (MarkResponse at m)) (last_response_seconds later (MarkResponse at m))
    \<and> (now - at = k * second \<longrightarrow> last_response_seconds now (MarkResponse at m) = f_of_int k)"
proof -
  have now: "last_response_seconds t (MarkResponse at m) = duration_seconds (t - at)" for t
    using assms(1) by (simp add: last_response_seconds_def MarkResponse_def)
  have "duration_seconds (k * second) = f_of_int k" if "now - at = k * second"
  proof -
    have k: "0 \<le> k" "k < 2 ^ 53"
    proof -
      show "0 \<le> k" using that assms(2) by (simp add: second_def)
      have "k = (now - at) div second" by (simp add: that second_def)
      also have "\<dots> \<le> (later - at) div second" using assms(3) by (simp add: zdiv_mono1 second_def)
      finally show "k < 2 ^ 53" using assms(4) by simp
    qed
    then show ?thesis
      using f_add_ints [of k 0]
      by (simp add: duration_seconds_nonneg second_def f_of_int_exact f_lit_def)
  qed
  moreover have "duration_seconds 0 = Fin 0" using duration_seconds_nonneg [of 0] by (simp add: f_lit_def)
  moreover have "last_response_seconds now NewMetrics = f_of_int (- 1)"
    by (simp add: last_response_seconds_def NewMetrics_def)
  ultimately show ?thesis
    using assms duration_seconds_mono [of "now - at" "later - at"] by (simp add: now)
qed

theorem last_response_gauge_witness:
  "last_response_seconds (unix_epoch + 61 * second) (MarkResponse (unix_epoch + second) NewMetrics) = f_of_int 60"
  using last_response_gauge [of "unix_epoch + second" "unix_epoch + 61 * second" "unix_epoch + 61 * second"
      NewMetrics 60]
  by (simp add: second_def)

end
