(* ===== verification/App_Scrape.thy ===== *)
theory App_Scrape
  imports App_Metrics Collector_Safety Sink_Exporters_Safety
begin

text \<open>
  The HTTP side of \<open>internal/sink/prometheus.go\<close> and the registration of
  \<open>internal/metrics/metrics.go\<close>: the server's life, its two paths, and what a scrape of the
  shared registry gathers. The client library is a parameter where its behaviour matters: the
  metrics of its Go and process collectors, and the text it makes of what it has gathered.
\<close>

section \<open>The metrics of the daemon itself\<close>

text \<open>
  The families \<open>New\<close> registers. A labelled family has a child for each label value it was
  used with; \<open>epcs\<close> and \<open>sinks\<close> are those values.
\<close>

definition own_metric :: "value_type \<Rightarrow> string \<Rightarrow> string \<Rightarrow> (string \<times> string) list \<Rightarrow> float64 \<Rightarrow> prom_metric" where
  "own_metric ty n help ls v =
     \<lparr>mt_name = n, mt_help = help, mt_labels = map fst ls, mt_type = ty, mt_value = v, mt_vals = map snd ls\<rparr>"

definition own_metrics :: "string list \<Rightarrow> string list \<Rightarrow> instant \<Rightarrow> metrics \<Rightarrow> prom_metric list" where
  "own_metrics epcs sinks now m =
     [own_metric CounterValue ''bp35c2_reconnect_total''
        ''Total number of times the daemon initiated a B-route reconnect.'' [] (f_of_int (int (Reconnects m))),
      own_metric CounterValue ''bp35c2_pana_auth_failures_total''
        ''Total number of PANA authentication failures (initial or auto-re-auth).'' []
        (f_of_int (int (PANAAuthFailures m)))] @
     map (\<lambda>e. own_metric CounterValue ''bp35c2_get_errors_total''
        (''Total ECHONET Lite Get failures, labelled by EPC or '' @ [CHR 0x27] @ ''batch'' @ [CHR 0x27, CHR ''.''])
        [(''epc'', e)] (f_of_int (int (GetErrors m e)))) epcs @
     map (\<lambda>s. own_metric CounterValue ''bp35c2_sink_write_errors_total''
        ''Total sink write errors, labelled by sink name.'' [(''sink'', s)] (f_of_int (int (SinkWriteErrors m s)))) sinks @
     [own_metric GaugeValue ''bp35c2_session_state''
        ''Current B-route session state (0=disconnected,1=init,2=scan,3=join,4=connected,5=reconnecting).'' []
        (SessionState m),
      own_metric CounterValue ''bp35c2_frame_checksum_errors_total''
        ''Total UART frame checksum errors observed by the driver.'' [] (f_of_int (int (FrameChecksumErrs m))),
      own_metric GaugeValue ''bp35c2_last_response_seconds''
        ''Seconds since the meter last successfully replied. Large values indicate liveness trouble.'' []
        (last_response_seconds now m)]"

section \<open>The server\<close>

datatype listening = Starting | Listening | Failed_To_Listen | Shut_Down

text \<open>\<open>sv_log\<close> logs what was written to the sink.\<close>

record prom_server =
  sv_sink :: prom_sink
  sv_listening :: listening
  sv_log :: "measurement list"

definition startPrometheus :: "prom_config \<Rightarrow> string + prom_server" where
  "startPrometheus cfg =
     (case NewPrometheus cfg of
        Inl e \<Rightarrow> Inl e
      | Inr p \<Rightarrow> Inr \<lparr>sv_sink = p, sv_listening = Starting, sv_log = []\<rparr>)"

text \<open>\<open>ListenAndServe\<close> in its goroutine: its error is discarded.\<close>

definition serve_result :: "string option \<Rightarrow> prom_server \<Rightarrow> prom_server" where
  "serve_result err s =
     s\<lparr>sv_listening := (case err of None \<Rightarrow> Listening | Some _ \<Rightarrow> Failed_To_Listen)\<rparr>"

definition server_write :: "measurement \<Rightarrow> prom_server \<Rightarrow> prom_server" where
  "server_write m s = s\<lparr>sv_sink := prom_write m (sv_sink s), sv_log := sv_log s @ [m]\<rparr>"

definition shutdown :: "prom_server \<Rightarrow> prom_server" where
  "shutdown s = s\<lparr>sv_listening := Shut_Down\<rparr>"

text \<open>
  A request: \<open>/metrics\<close> is answered from the registry, \<open>/healthz\<close> always with \<open>ok\<close>; any other
  path is not found. The path is a clean one: \<open>ServeMux\<close> redirects the others to their clean
  form first. Without a listening server there is no answer.
\<close>

datatype response = Scraped "prom_metric list" | Health_Ok | Not_Found

definition scrape ::
    "(prom_metric \<Rightarrow> bool) \<Rightarrow> string list \<Rightarrow> prom_metric list \<Rightarrow> prom_metric list \<Rightarrow> prom_sink \<Rightarrow> prom_metric list" where
  "scrape accepts keys library own p = prom_collect accepts keys p @ library @ own"

definition handle_request ::
    "(prom_metric \<Rightarrow> bool) \<Rightarrow> string list \<Rightarrow> prom_metric list \<Rightarrow> prom_metric list \<Rightarrow> string \<Rightarrow> prom_server
      \<Rightarrow> response option" where
  "handle_request accepts keys library own path s =
     (if sv_listening s = Listening then
        Some (if path = ''/metrics'' then Scraped (scrape accepts keys library own (sv_sink s))
              else if path = ''/healthz'' then Health_Ok else Not_Found)
      else None)"

inductive server_step :: "prom_server \<Rightarrow> prom_server \<Rightarrow> bool" where
  ps_serve: "sv_listening s = Starting \<Longrightarrow> server_step s (serve_result err s)"
| ps_write: "server_step s (server_write m s)"
| ps_shutdown: "server_step s (shutdown s)"

definition server_init :: "prom_config \<Rightarrow> prom_server \<Rightarrow> bool" where
  "server_init cfg s \<longleftrightarrow> startPrometheus cfg = Inr s"

definition server_inv :: "prom_config \<Rightarrow> prom_server \<Rightarrow> bool" where
  "server_inv cfg s \<longleftrightarrow> (\<exists>p0. NewPrometheus cfg = Inr p0 \<and> sv_sink s = fold prom_write (sv_log s) p0)"

lemma server_step_inv: "server_step s t \<Longrightarrow> server_inv cfg s \<Longrightarrow> server_inv cfg t"
  by (induction rule: server_step.induct)
    (auto simp: server_inv_def serve_result_def server_write_def shutdown_def)

lemma server_start_inv: "server_init cfg s \<Longrightarrow> server_inv cfg s"
  by (auto simp: server_init_def startPrometheus_def server_inv_def split: sum.splits)

interpretation server: step_system "server_init cfg" server_step "server_inv cfg" for cfg
  by unfold_locales (auto intro: server_start_inv server_step_inv)

section \<open>What the registry accepts\<close>

text \<open>
  The client library's rule for one scrape: a name stands for one type and one help text, and
  no two metrics have the same name and labels. Otherwise the whole scrape is an error.
\<close>

definition series_of :: "prom_metric \<Rightarrow> string \<times> string list \<times> string list" where
  "series_of x = (mt_name x, mt_labels x, mt_vals x)"

definition consistent :: "prom_metric list \<Rightarrow> bool" where
  "consistent ms \<longleftrightarrow>
     distinct (map series_of ms) \<and>
     (\<forall>a \<in> set ms. \<forall>b \<in> set ms. mt_name a = mt_name b \<longrightarrow> mt_type a = mt_type b \<and> mt_help a = mt_help b)"

lemma consistent_append:
  assumes "consistent as" "consistent bs" "mt_name ` set as \<inter> mt_name ` set bs = {}"
  shows "consistent (as @ bs)"
  unfolding consistent_def
proof (intro conjI ballI impI)
  have ne: "mt_name a \<noteq> mt_name b" if "a \<in> set as" "b \<in> set bs" for a b
    using assms(3) that by blast
  then have "set (map series_of as) \<inter> set (map series_of bs) = {}" by (force simp: series_of_def)
  then show "distinct (map series_of (as @ bs))"
    using assms(1,2) by (simp add: consistent_def del: set_map)
  fix a b assume "a \<in> set (as @ bs)" "b \<in> set (as @ bs)" "mt_name a = mt_name b"
  then have "a \<in> set as \<and> b \<in> set as \<or> a \<in> set bs \<and> b \<in> set bs" using ne by fastforce
  then show "mt_type a = mt_type b" "mt_help a = mt_help b"
    using assms(1,2) \<open>mt_name a = mt_name b\<close> unfolding consistent_def by blast+
qed

lemma own_metric_fields [simp]:
  "mt_name (own_metric ty n h ls v) = n" "mt_type (own_metric ty n h ls v) = ty"
  "mt_help (own_metric ty n h ls v) = h"
  "series_of (own_metric ty n h ls v) = (n, map fst ls, map snd ls)"
  by (simp_all add: own_metric_def series_of_def)

lemma consistent_single: "consistent [x]"
  by (simp add: consistent_def)

lemma consistent_family:
  "distinct ls \<Longrightarrow> consistent (map (\<lambda>l. own_metric ty n h [(k, l)] (v l)) ls)"
  by (auto simp: consistent_def comp_def distinct_map inj_on_def)

lemma consistent_names: "distinct (map mt_name ms) \<Longrightarrow> consistent ms"
  by (auto simp: consistent_def series_of_def distinct_map inj_on_def)

lemma own_consistent:
  assumes "distinct epcs" "distinct sinks"
  shows "consistent (own_metrics epcs sinks now m)"
proof -
  have plain: "consistent (own_metric ty n h [] v # own_metric ty' n' h' [] v' # xs)"
    if "n \<noteq> n'" "distinct (map mt_name xs)" "n \<notin> set (map mt_name xs)" "n' \<notin> set (map mt_name xs)"
    for ty n h v ty' n' h' v' xs
    using that by (intro consistent_names) simp
  show ?thesis
    unfolding own_metrics_def
    by (intro consistent_append consistent_family assms plain) auto
qed

lemma own_names: "x \<in> set (own_metrics epcs sinks now m) \<Longrightarrow> has_prefix (mt_name x) ''bp35c2_''"
  by (auto simp: own_metrics_def has_prefix_def)

text \<open>The sink's metrics: a series key is determined by name and labels.\<close>

lemma key_of_series: "series_of (prom_metric_of p (to_sample m)) = series_of (prom_metric_of p (to_sample n)) \<Longrightarrow>
    key_of m = key_of n"
proof -
  have pairs: "tag_pairs ts = zip (fst (labelsOrdered ts)) (snd (labelsOrdered ts))" for ts
    by (simp add: tag_pairs_def labelsOrdered_def sorted_keys_def zip_map2 zip_same_conv_map comp_def)
  assume "series_of (prom_metric_of p (to_sample m)) = series_of (prom_metric_of p (to_sample n))"
  then have "Name m = Name n" "tag_pairs (Tags m) = tag_pairs (Tags n)"
    by (auto simp: series_of_def prom_metric_of_def to_sample_def pairs split: prod.splits)
  then show ?thesis by (simp add: key_of_def seriesKey_segments tag_segments_pairs)
qed

lemma collected_metrics:
  assumes "pm_latest p0 = Map.empty" "set keys \<subseteq> dom (pm_latest (fold prom_write ms p0))"
  shows "List.map_filter (pm_latest (fold prom_write ms p0)) keys =
      map (\<lambda>k. to_sample (last (filter (\<lambda>m. key_of m = k) ms))) keys"
    and "k \<in> set keys \<Longrightarrow> last (filter (\<lambda>m. key_of m = k) ms) \<in> set ms"
    and "k \<in> set keys \<Longrightarrow> key_of (last (filter (\<lambda>m. key_of m = k) ms)) = k"
proof -
  have ne: "filter (\<lambda>m. key_of m = k) ms \<noteq> []" if "k \<in> set keys" for k
    using assms that by (auto simp: prom.dom_fold filter_empty_conv)
  show "k \<in> set keys \<Longrightarrow> last (filter (\<lambda>m. key_of m = k) ms) \<in> set ms"
    "k \<in> set keys \<Longrightarrow> key_of (last (filter (\<lambda>m. key_of m = k) ms)) = k"
    using last_in_set [OF ne] by auto
  have "pm_latest (fold prom_write ms p0) k = Some (to_sample (last (filter (\<lambda>m. key_of m = k) ms)))"
    if "k \<in> set keys" for k
    using ne [OF that] assms(1) by (auto simp: prom.get_fold filter_empty_conv)
  then show "List.map_filter (pm_latest (fold prom_write ms p0)) keys =
      map (\<lambda>k. to_sample (last (filter (\<lambda>m. key_of m = k) ms))) keys"
    by (induction keys) (simp_all add: List.map_filter_simps)
qed

lemma prom_metric_by_name:
  "mt_name (prom_metric_of p s) = mt_name (prom_metric_of p s') \<Longrightarrow>
    mt_type (prom_metric_of p s) = mt_type (prom_metric_of p s') \<and>
    mt_help (prom_metric_of p s) = mt_help (prom_metric_of p s')"
  by (simp add: prom_metric_of_def split: prod.splits)

lemma collect_consistent:
  assumes "pm_latest p0 = Map.empty" "distinct keys" "set keys \<subseteq> dom (pm_latest (fold prom_write ms p0))"
  shows "consistent (prom_collect accepts keys (fold prom_write ms p0))"
    and "x \<in> set (prom_collect accepts keys (fold prom_write ms p0)) \<Longrightarrow> \<exists>m \<in> set ms. mt_name x = Name m"
proof -
  let ?p = "fold prom_write ms p0"
  let ?m = "\<lambda>k. prom_metric_of ?p (to_sample (last (filter (\<lambda>m. key_of m = k) ms)))"
  note cm = collected_metrics [OF assms(1,3)]
  have all: "prom_collect accepts keys ?p = filter accepts (map ?m keys)"
    by (simp add: prom_collect_def cm(1) comp_def)
  have name: "mt_name (?m k) = Name (last (filter (\<lambda>m. key_of m = k) ms))" for k
    by (simp add: prom_metric_of_def to_sample_def split: prod.split)
  have "inj_on (\<lambda>k. series_of (?m k)) (set keys)"
    by (rule inj_onI) (metis key_of_series cm(3))
  then have "distinct (map series_of (map ?m keys))"
    using assms(2) by (simp add: distinct_map comp_def)
  then have "distinct (map series_of (filter accepts (map ?m keys)))" by (rule distinct_map_filter)
  then show "consistent (prom_collect accepts keys ?p)"
    unfolding consistent_def all using prom_metric_by_name [of ?p]
    by (simp add: ball_simps del: set_map) (simp only: set_filter set_map, blast)
  show "\<exists>m \<in> set ms. mt_name x = Name m" if "x \<in> set (prom_collect accepts keys ?p)"
    using that name cm(2) by (auto simp: all)
qed

lemma catalogue_names: "listed m \<Longrightarrow> has_prefix (Name m) ''smartmeter_''"
  by (auto simp: listed_def catalogue_def has_prefix_def)

lemma other_prefix:
  "has_prefix s ''go_'' \<Longrightarrow> \<not> has_prefix s ''bp35c2_''" "has_prefix s ''process_'' \<Longrightarrow> \<not> has_prefix s ''bp35c2_''"
  "has_prefix s ''go_'' \<Longrightarrow> \<not> has_prefix s ''smartmeter_''"
  "has_prefix s ''process_'' \<Longrightarrow> \<not> has_prefix s ''smartmeter_''"
  "has_prefix s ''bp35c2_'' \<Longrightarrow> \<not> has_prefix s ''smartmeter_''"
  by (erule has_prefixE; simp add: has_prefix_def)+

lemma names_apart:
  assumes "\<And>x. x \<in> set bs \<Longrightarrow> has_prefix (mt_name x) p" "\<And>x. x \<in> set as \<Longrightarrow> \<not> has_prefix (mt_name x) p"
  shows "mt_name ` set as \<inter> mt_name ` set bs = {}"
proof (rule equals0I)
  fix n assume "n \<in> mt_name ` set as \<inter> mt_name ` set bs"
  then obtain x y where "x \<in> set as" "y \<in> set bs" "mt_name x = mt_name y" by auto
  with assms(1) [of y] assms(2) [of x] show False by simp
qed

section \<open>Properties\<close>

text \<open>
  C26: A scrape never fails: whatever the meter has answered, what the sink collects for the
  measurements the collector has written, together with the daemon's own metrics and those of
  the client library's collectors, is what the registry accepts: one type and help text
  per name and no series twice.
\<close>

theorem scrape_consistent:
  assumes "reachable started (poll_step z) c" "NewPrometheus cfg = Inr p0"
    and "distinct keys" "set keys = dom (pm_latest (fold prom_write (written c) p0))"
    and "distinct epcs" "distinct sinks" "consistent library"
    and "list_all (\<lambda>x. has_prefix (mt_name x) ''go_'' \<or> has_prefix (mt_name x) ''process_'') library"
  shows "consistent (scrape accepts keys library (own_metrics epcs sinks now m) (fold prom_write (written c) p0))"
proof -
  let ?p = "fold prom_write (written c) p0"
  have "pm_latest p0 = Map.empty" using assms(2) by (auto simp: NewPrometheus_def split: if_splits)
  note col = collect_consistent [OF this assms(3), where ms = "written c" and accepts = accepts]
  have listed: "list_all listed (written c)"
    using coll.reachable_invar [OF assms(1)] by (simp add: collector_inv_def)
  have smart: "has_prefix (mt_name x) ''smartmeter_''" if "x \<in> set (prom_collect accepts keys ?p)" for x
    using col(2) [OF _ that] assms(4) listed catalogue_names by (auto simp: list_all_iff)
  have lib: "has_prefix (mt_name x) ''go_'' \<or> has_prefix (mt_name x) ''process_''" if "x \<in> set library" for x
    using that assms(8) by (simp add: list_all_iff)
  have own: "has_prefix (mt_name x) ''bp35c2_''" if "x \<in> set (own_metrics epcs sinks now m)" for x
    using that by (rule own_names)
  have "mt_name ` set library \<inter> mt_name ` set (own_metrics epcs sinks now m) = {}"
    by (rule names_apart [OF own]) (auto dest!: lib other_prefix(1,2))
  then have "consistent (library @ own_metrics epcs sinks now m)"
    by (intro consistent_append assms(7) own_consistent assms(5,6))
  moreover have "mt_name ` set (prom_collect accepts keys ?p) \<inter>
      mt_name ` set (library @ own_metrics epcs sinks now m) = {}"
    by (subst Int_commute, rule names_apart [OF smart]) (auto dest!: lib own other_prefix(3-5))
  ultimately show ?thesis
    unfolding scrape_def using assms(4) by (intro consistent_append [OF col(1)]) simp_all
qed

text \<open>
  A server that cannot listen is not noticed: whatever follows the failed \<open>ListenAndServe\<close>,
  no request is ever answered, the health check included, while every measurement
  is still taken and kept.
\<close>

theorem listen_failure_silent:
  assumes "startPrometheus cfg = Inr s" "server_step\<^sup>*\<^sup>* (serve_result (Some e) s) t"
  shows "handle_request accepts keys library own path t = None
    \<and> (\<exists>p0. NewPrometheus cfg = Inr p0 \<and> sv_sink t = fold prom_write (sv_log t) p0)"
proof -
  have start: "reachable (server_init cfg) server_step s"
    using assms(1) by (intro reachable.start) (simp add: server_init_def)
  have "sv_listening s = Starting"
    using assms(1) by (auto simp: startPrometheus_def split: sum.splits)
  with start have "reachable (server_init cfg) server_step (serve_result (Some e) s)"
    by (blast intro: reachable.next_state ps_serve)
  then have "server_inv cfg t"
    using assms(2) by (blast intro: server.reachable_invar reachable_steps)
  moreover have "sv_listening t \<in> {Failed_To_Listen, Shut_Down}"
    using assms(2)
    by (induction rule: rtranclp_induct)
      (auto simp: serve_result_def server_write_def shutdown_def elim!: server_step.cases)
  ultimately show ?thesis by (auto simp: handle_request_def server_inv_def)
qed

theorem listen_failure_silent_witness:
  "\<exists>s. startPrometheus \<lparr>pc_Listen = '':9101'', pc_CounterNames = [''e'']\<rparr> = Inr s \<and>
     handle_request (\<lambda>_. True) [] [] [] ''/healthz'' (server_write (demo_reading 1) (serve_result (Some ''in use'') s)) = None"
proof -
  obtain s where s: "startPrometheus \<lparr>pc_Listen = '':9101'', pc_CounterNames = [''e'']\<rparr> = Inr s"
    by (simp add: startPrometheus_def NewPrometheus_def)
  have "server_step\<^sup>*\<^sup>* (serve_result (Some ''in use'') s) (server_write (demo_reading 1) (serve_result (Some ''in use'') s))"
    by (rule r_into_rtranclp) (rule ps_write)
  from listen_failure_silent [OF s this] s show ?thesis by blast
qed

theorem scrape_consistent_witness:
  "consistent (scrape (\<lambda>_. True) [] [own_metric GaugeValue ''go_goroutines'' [] [] (Fin 0)]
     (own_metrics [''batch''] [''influxdb''] 5 NewMetrics) demo_prom)"
proof -
  have "NewPrometheus \<lparr>pc_Listen = '':9101'', pc_CounterNames = [''e'']\<rparr> = Inr demo_prom"
    by (simp add: NewPrometheus_def demo_prom_def)
  from scrape_consistent [OF reachable.start [of started fresh_collector "poll_step (fixed_zone 0)"] this,
      of "[]" "[''batch'']" "[''influxdb'']" "[own_metric GaugeValue ''go_goroutines'' [] [] (Fin 0)]"]
  show ?thesis
    by (simp add: fresh_started consistent_single has_prefix_def)
      (simp add: fresh_collector_def NewCollector_def demo_prom_def)
qed

end
