(* ===== verification/App_Config.thy ===== *)
theory App_Config
  imports Go_Strings Go_Time
begin

text \<open>
  \<open>internal/config/config.go\<close>: the configuration, its defaults and validation, and the
  expansion of \<open>${VAR}\<close> and \<open>${VAR:-default}\<close> in the file before it is parsed. The YAML
  parser, the environment and the file are parameters.
\<close>

section \<open>The configuration\<close>

record cfg_serial =
  Device :: string
  Baud :: int

record cfg_broute =
  cb_ID :: string
  cb_Password :: string
  StateDir :: string
  ScanTimeExp :: int
  cb_ChannelMask :: u32
  PANAAuthTimeout :: duration
  cb_CommandTimeout :: duration
  cb_InitialBackoff :: duration
  cb_MaxBackoff :: duration

record cfg_poll =
  cp_InstantInterval :: duration
  cp_CumulativeInterval :: duration
  cp_ScheduledInterval :: duration
  EchonetTimeout :: duration

record cfg_downsample =
  cd_Window :: duration
  cd_Aggregation :: string

record cfg_influx =
  ci_Enabled :: bool
  ci_URL :: string
  ci_Token :: string
  ci_Org :: string
  ci_Bucket :: string
  ci_Measurement :: string
  ci_BatchSize :: nat
  ci_FlushInterval :: duration
  ci_Downsample :: cfg_downsample

record cfg_prom =
  cm_Enabled :: bool
  cm_Listen :: string

record cfg_sinks =
  StdoutEnabled :: bool
  cs_InfluxDB :: cfg_influx
  cs_Prometheus :: cfg_prom

record config =
  cf_Serial :: cfg_serial
  cf_BRoute :: cfg_broute
  cf_Poll :: cfg_poll
  cf_Sinks :: cfg_sinks
  LogLevel :: string

definition default_config :: config where
  "default_config =
     \<lparr>cf_Serial = \<lparr>Device = ''/dev/ttyUSB0'', Baud = 115200\<rparr>,
      cf_BRoute =
        \<lparr>cb_ID = [], cb_Password = [], StateDir = ''/var/lib/bp35c2-collector'', ScanTimeExp = 6,
         cb_ChannelMask = 0x0003FFF0, PANAAuthTimeout = 720 * second, cb_CommandTimeout = 6 * second,
         cb_InitialBackoff = 5 * second, cb_MaxBackoff = 300 * second\<rparr>,
      cf_Poll =
        \<lparr>cp_InstantInterval = 10 * second, cp_CumulativeInterval = 60 * second,
         cp_ScheduledInterval = 30 * minute, EchonetTimeout = 5 * second\<rparr>,
      cf_Sinks =
        \<lparr>StdoutEnabled = True,
         cs_InfluxDB =
           \<lparr>ci_Enabled = False, ci_URL = [], ci_Token = [], ci_Org = [], ci_Bucket = [],
            ci_Measurement = [], ci_BatchSize = 0, ci_FlushInterval = 0,
            ci_Downsample = \<lparr>cd_Window = 0, cd_Aggregation = []\<rparr>\<rparr>,
         cs_Prometheus = \<lparr>cm_Enabled = False, cm_Listen = '':9101''\<rparr>\<rparr>,
      LogLevel = ''info''\<rparr>"

section \<open>Validation\<close>

datatype cfg_error =
    DeviceRequired
  | BaudNotPositive
  | BadID nat
  | BadPassword nat
  | StateDirRequired
  | InfluxIncomplete
  | BadAggregation string
  | ListenMissing
  | ReadFailed string
  | ParseFailed string

definition validate_downsample :: "cfg_downsample \<Rightarrow> cfg_error option" where
  "validate_downsample ds =
     (if 0 < cd_Window ds then
        let a = (if cd_Aggregation ds = [] then ''mean'' else cd_Aggregation ds) in
        if a \<in> {''mean'', ''max'', ''min'', ''last'', ''sum''} then None else Some (BadAggregation a)
      else None)"

definition validate_influx :: "cfg_influx \<Rightarrow> cfg_error option" where
  "validate_influx i =
     (if ci_Enabled i then
        (if ci_URL i = [] \<or> ci_Org i = [] \<or> ci_Bucket i = [] then Some InfluxIncomplete
         else validate_downsample (ci_Downsample i))
      else None)"

definition Validate :: "config \<Rightarrow> cfg_error option" where
  "Validate c =
     (if Device (cf_Serial c) = [] then Some DeviceRequired
      else if Baud (cf_Serial c) \<le> 0 then Some BaudNotPositive
      else if length (cb_ID (cf_BRoute c)) \<noteq> 32 then Some (BadID (length (cb_ID (cf_BRoute c))))
      else if length (cb_Password (cf_BRoute c)) \<noteq> 12
      then Some (BadPassword (length (cb_Password (cf_BRoute c))))
      else if StateDir (cf_BRoute c) = [] then Some StateDirRequired
      else (case validate_influx (cs_InfluxDB (cf_Sinks c)) of
              Some e \<Rightarrow> Some e
            | None \<Rightarrow>
                if cm_Enabled (cs_Prometheus (cf_Sinks c)) \<and> cm_Listen (cs_Prometheus (cf_Sinks c)) = []
                then Some ListenMissing else None))"

section \<open>Environment variables\<close>

text \<open>
  The regular expression \<open>\$\{([A-Za-z_][A-Za-z0-9_]*)(?::-([^}]*))?\}\<close>, matched at the start of
  the text: the name, the default if the group took part in the match, and the rest. No
  character can end a name and continue it, so the greedy match is the only one.
\<close>

definition name_start :: "char \<Rightarrow> bool" where
  "name_start c =
     (let n = (of_char c :: nat) in
      65 \<le> n \<and> n \<le> 90 \<or> 97 \<le> n \<and> n \<le> 122 \<or> n = 95)"

definition name_char :: "char \<Rightarrow> bool" where
  "name_char c = (let n = (of_char c :: nat) in name_start c \<or> 48 \<le> n \<and> n \<le> 57)"

definition match_env :: "string \<Rightarrow> (string \<times> string option \<times> string) option" where
  "match_env s =
     (case s of
        d # b # c # r \<Rightarrow>
          if d = CHR ''$'' \<and> b = CHR ''{'' \<and> name_start c then
            (let name = c # takeWhile name_char r; r = dropWhile name_char r in
             if has_prefix r ''}'' then Some (name, None, drop 1 r)
             else if has_prefix r '':-'' then
               (let dflt = takeWhile (\<lambda>x. x \<noteq> CHR ''}'') (drop 2 r);
                    r = dropWhile (\<lambda>x. x \<noteq> CHR ''}'') (drop 2 r)
                in if r = [] then None else Some (name, Some dflt, drop 1 r))
             else None)
          else None
      | _ \<Rightarrow> None)"

lemma match_env_shorter: "match_env s = Some (name, dflt, r) \<Longrightarrow> length r < length s"
proof -
  have shorter: "length (dropWhile P xs) \<le> length xs" for P :: "char \<Rightarrow> bool" and xs
    by (rule length_dropWhile_le)
  assume "match_env s = Some (name, dflt, r)"
  then obtain c t where s: "s = CHR ''$'' # CHR ''{'' # c # t"
    and r: "r = drop 1 (dropWhile name_char t) \<or>
      r = drop 1 (dropWhile (\<lambda>x. x \<noteq> CHR ''}'') (drop 2 (dropWhile name_char t)))"
    by (auto simp: match_env_def Let_def split: list.splits if_splits)
  have "length (dropWhile name_char t) \<le> length t"
    "length (dropWhile (\<lambda>x. x \<noteq> CHR ''}'') (drop 2 (dropWhile name_char t))) \<le> length t"
    using shorter [of name_char t] shorter [of "\<lambda>x. x \<noteq> CHR ''}''" "drop 2 (dropWhile name_char t)"] by simp_all
  with r show "length r < length s" by (auto simp: s)
qed

text \<open>What one match is replaced by.\<close>

definition env_value :: "(string \<Rightarrow> string) \<Rightarrow> string \<Rightarrow> string option \<Rightarrow> string" where
  "env_value env name dflt =
     (let v = env name in
      case dflt of Some d \<Rightarrow> if v = [] then d else v | None \<Rightarrow> v)"

function expandEnv :: "(string \<Rightarrow> string) \<Rightarrow> string \<Rightarrow> string" where
  "expandEnv env s =
     (case match_env s of
        Some (name, dflt, r) \<Rightarrow> env_value env name dflt @ expandEnv env r
      | None \<Rightarrow> (case s of [] \<Rightarrow> [] | c # r \<Rightarrow> c # expandEnv env r))"
  by pat_completeness auto
termination
  by (relation "measure (\<lambda>(env, s). length s)") (auto dest: match_env_shorter)

declare expandEnv.simps [simp del]

definition Load ::
    "(string \<Rightarrow> string option) \<Rightarrow> (string \<Rightarrow> string) \<Rightarrow> (string \<Rightarrow> config \<Rightarrow> string + config) \<Rightarrow> string
       \<Rightarrow> cfg_error + config" where
  "Load read env unmarshal path =
     (case read path of
        None \<Rightarrow> Inl (ReadFailed path)
      | Some raw \<Rightarrow>
          (case unmarshal (expandEnv env raw) default_config of
             Inl e \<Rightarrow> Inl (ParseFailed e)
           | Inr c \<Rightarrow> (case Validate c of Some e \<Rightarrow> Inl e | None \<Rightarrow> Inr c)))"

section \<open>Segments\<close>

text \<open>A file as text and references; text has no dollar sign.\<close>

datatype segment = Lit string | Ref string | RefOr string string

definition env_name :: "string \<Rightarrow> bool" where
  "env_name n \<longleftrightarrow> n \<noteq> [] \<and> name_start (hd n) \<and> list_all name_char (tl n)"

fun segment_ok :: "segment \<Rightarrow> bool" where
  "segment_ok (Lit s) = (CHR ''$'' \<notin> set s)"
| "segment_ok (Ref n) = env_name n"
| "segment_ok (RefOr n d) = (env_name n \<and> CHR ''}'' \<notin> set d)"

fun segment_text :: "segment \<Rightarrow> string" where
  "segment_text (Lit s) = s"
| "segment_text (Ref n) = ''${'' @ n @ ''}''"
| "segment_text (RefOr n d) = ''${'' @ n @ '':-'' @ d @ ''}''"

fun segment_value :: "(string \<Rightarrow> string) \<Rightarrow> segment \<Rightarrow> string" where
  "segment_value env (Lit s) = s"
| "segment_value env (Ref n) = env n"
| "segment_value env (RefOr n d) = (if env n = [] then d else env n)"

lemma expandEnv_char: "c \<noteq> CHR ''$'' \<Longrightarrow> expandEnv env (c # s) = c # expandEnv env s"
  by (subst expandEnv.simps) (simp add: match_env_def split: list.split)

lemma expandEnv_lit: "CHR ''$'' \<notin> set t \<Longrightarrow> expandEnv env (t @ s) = t @ expandEnv env s"
  by (induction t) (auto simp: expandEnv_char)

lemma name_char_stop: "\<not> name_char CHR ''}''" "\<not> name_char CHR '':''"
  by (simp_all add: name_char_def name_start_def Let_def)

lemma take_name:
  assumes "list_all name_char n" "\<not> name_char c"
  shows "takeWhile name_char (n @ c # s) = n" "dropWhile name_char (n @ c # s) = c # s"
  using assms by (simp_all add: list_all_iff takeWhile_append2 dropWhile_append2)

lemma match_env_ref:
  assumes "env_name n"
  shows "match_env (''${'' @ n @ ''}'' @ s) = Some (n, None, s)"
proof -
  obtain c t where n: "n = c # t" using assms by (cases n) (auto simp: env_name_def)
  with assms show ?thesis
    using take_name [of t "CHR ''}''" s] by (simp add: match_env_def env_name_def name_char_stop Let_def has_prefix_def)
qed

lemma match_env_ref_or:
  assumes "env_name n" "CHR ''}'' \<notin> set d"
  shows "match_env (''${'' @ n @ '':-'' @ d @ ''}'' @ s) = Some (n, Some d, s)"
proof -
  obtain c t where n: "n = c # t" using assms by (cases n) (auto simp: env_name_def)
  have "takeWhile (\<lambda>x. x \<noteq> CHR ''}'') (d @ CHR ''}'' # s) = d"
    "dropWhile (\<lambda>x. x \<noteq> CHR ''}'') (d @ CHR ''}'' # s) = CHR ''}'' # s"
    using assms(2) by (induction d) auto
  with n assms show ?thesis
    using take_name [of t "CHR '':''" "CHR ''-'' # d @ CHR ''}'' # s"]
    by (simp add: match_env_def env_name_def name_char_stop Let_def has_prefix_def)
qed

lemma expandEnv_segment:
  "segment_ok g \<Longrightarrow> expandEnv env (segment_text g @ s) = segment_value env g @ expandEnv env s"
proof (cases g)
  case (Ref n)
  assume "segment_ok g"
  then show ?thesis using Ref match_env_ref [of n s]
    by (subst expandEnv.simps) (simp add: env_value_def)
next
  case (RefOr n d)
  assume "segment_ok g"
  then show ?thesis using RefOr match_env_ref_or [of n d s]
    by (subst expandEnv.simps) (simp add: env_value_def)
qed (simp add: expandEnv_lit)

section \<open>Properties\<close>

text \<open>
  C33: Environment references are replaced exactly where they stand: of a file made of text
  without dollar signs, \<open>${VAR}\<close> and \<open>${VAR:-default}\<close>, every text is copied, every reference
  becomes the variable's value, an empty or unset variable its default, and values are not
  expanded again.
\<close>

theorem expandEnv_segments:
  assumes "list_all segment_ok gs"
  shows "expandEnv env (concat (map segment_text gs)) = concat (map (segment_value env) gs)"
  using assms
proof (induction gs)
  case Nil
  then show ?case by (simp add: expandEnv.simps match_env_def)
next
  case (Cons g gs)
  then show ?case by (simp add: expandEnv_segment)
qed

theorem expandEnv_segments_witness:
  "expandEnv (\<lambda>v. if v = ''ID'' then ''${X}'' else []) ''a: ${ID} b: ${PORT:-9101}'' = ''a: ${X} b: 9101''"
  using expandEnv_segments [of "[Lit ''a: '', Ref ''ID'', Lit '' b: '', RefOr ''PORT'' ''9101'']"
      "\<lambda>v. if v = ''ID'' then ''${X}'' else []"]
  by (simp add: env_name_def name_start_def name_char_def)

end
