(* ===== verification/App_Main.thy ===== *)
theory App_Main
  imports App_Config App_Metrics Collector_Poll Sink_Exporters Sink_Downsample
begin

text \<open>
  \<open>cmd/bp35c2-collector/main.go\<close>: how the configuration becomes sinks, manager, client and
  collector, the hooks between them, and the goroutines of \<open>run\<close> from start to shutdown.
  Opening the serial port and systemd's notifications are parameters or left out.
\<close>

section \<open>Sinks\<close>

datatype wired_sink = W_Prometheus prom_sink | W_Stdout | W_Influx influx_sink | W_Downsampled downsampler influx_sink

datatype wire_error =
    PrometheusFailed string
  | InfluxFailed influx_error
  | DownsamplerFailed ds_error
  | NoSinks

definition counter_names :: "string list" where
  "counter_names = [''smartmeter_energy_forward_kwh'', ''smartmeter_energy_reverse_kwh'']"

definition wire_prometheus :: "cfg_prom \<Rightarrow> wire_error + wired_sink list" where
  "wire_prometheus c =
     (if cm_Enabled c then
        (case NewPrometheus \<lparr>pc_Listen = cm_Listen c, pc_CounterNames = counter_names\<rparr> of
           Inl e \<Rightarrow> Inl (PrometheusFailed e)
         | Inr p \<Rightarrow> Inr [W_Prometheus p])
      else Inr [])"

definition wire_downsampler :: "cfg_downsample \<Rightarrow> influx_sink \<Rightarrow> wire_error + wired_sink" where
  "wire_downsampler c i =
     (if 0 < cd_Window c then
        let a = (if cd_Aggregation c = [] then ''mean'' else cd_Aggregation c) in
        (case NewDownsampler
            \<lparr>ds_Window = cd_Window c, ds_Aggregation = a, ds_CounterNames = counter_names, ds_IdleFlush = 0\<rparr> of
           Inl e \<Rightarrow> Inl (DownsamplerFailed e)
         | Inr d \<Rightarrow> Inr (W_Downsampled d i))
      else Inr (W_Influx i))"

definition wire_influx :: "cfg_influx \<Rightarrow> wire_error + wired_sink list" where
  "wire_influx c =
     (if ci_Enabled c then
        (case NewInfluxDB
            \<lparr>ix_URL = ci_URL c, ix_Token = ci_Token c, ix_Org = ci_Org c, ix_Bucket = ci_Bucket c,
             ix_Measurement = ci_Measurement c, ix_BatchSize = ci_BatchSize c,
             ix_FlushInterval = ci_FlushInterval c\<rparr> of
           Inl e \<Rightarrow> Inl (InfluxFailed e)
         | Inr i \<Rightarrow> (case wire_downsampler (ci_Downsample c) i of Inl e \<Rightarrow> Inl e | Inr s \<Rightarrow> Inr [s]))
      else Inr [])"

definition build_sinks :: "cfg_sinks \<Rightarrow> wire_error + wired_sink list" where
  "build_sinks c =
     (case wire_prometheus (cs_Prometheus c) of
        Inl e \<Rightarrow> Inl e
      | Inr ps \<Rightarrow>
          let ss = ps @ (if StdoutEnabled c then [W_Stdout] else []) in
          (case wire_influx (cs_InfluxDB c) of
             Inl e \<Rightarrow> Inl e
           | Inr fs \<Rightarrow> if ss @ fs = [] then Inl NoSinks else Inr (ss @ fs)))"

section \<open>The other components\<close>

text \<open>\<open>byte(...)\<close> and the 64-bit durations truncate.\<close>

definition broute_config_of :: "cfg_broute \<Rightarrow> broute_config" where
  "broute_config_of c =
     \<lparr>BRouteID = cb_ID c, BRoutePassword = cb_Password c, ScanDuration = word_of_int (ScanTimeExp c),
      ChannelMask = cb_ChannelMask c, JoinTimeout = word_of_int (PANAAuthTimeout c),
      CommandTimeout = word_of_int (cb_CommandTimeout c),
      InitialBackoff = word_of_int (cb_InitialBackoff c), MaxBackoff = word_of_int (cb_MaxBackoff c)\<rparr>"

definition poll_config_of :: "cfg_poll \<Rightarrow> poll_config" where
  "poll_config_of c =
     \<lparr>InstantInterval = cp_InstantInterval c, CumulativeInterval = cp_CumulativeInterval c,
      ScheduledInterval = cp_ScheduledInterval c, CollectTimeout = EchonetTimeout c\<rparr>"

datatype log_level = LevelDebug | LevelInfo | LevelWarn | LevelError

definition lower_char :: "char \<Rightarrow> char" where
  "lower_char c = (let n = (of_char c :: nat) in if 65 \<le> n \<and> n \<le> 90 then char_of (n + 32) else c)"

definition newLogger :: "string \<Rightarrow> log_level" where
  "newLogger level =
     (let l = List.map lower_char level in
      if l = ''debug'' then LevelDebug
      else if l = ''warn'' then LevelWarn
      else if l = ''error'' then LevelError
      else LevelInfo)"

record serial_mode =
  BaudRate :: int
  DataBits :: nat
  ParityNone :: bool
  OneStopBit :: bool
  NoReadTimeout :: bool

definition serial_mode_of :: "int \<Rightarrow> serial_mode" where
  "serial_mode_of baud = \<lparr>BaudRate = baud, DataBits = 8, ParityNone = True, OneStopBit = True, NoReadTimeout = True\<rparr>"

record app =
  ap_log :: log_level
  ap_driver :: driver
  ap_sinks :: "wired_sink list"
  ap_sink_timeout :: duration
  ap_metrics :: "metrics option"
  ap_manager :: manager
  ap_client :: client
  ap_client_timeout :: duration
  ap_collector :: collector

datatype run_error = ConfigError cfg_error | OpenSerial string | WireError wire_error

definition run_setup ::
    "(string \<Rightarrow> cfg_error + config) \<Rightarrow> (string \<Rightarrow> serial_mode \<Rightarrow> string option) \<Rightarrow> string \<Rightarrow> run_error + app" where
  "run_setup load open_serial cfg_path =
     (case load cfg_path of
        Inl e \<Rightarrow> Inl (ConfigError e)
      | Inr cfg \<Rightarrow>
          (case open_serial (Device (cf_Serial cfg)) (serial_mode_of (Baud (cf_Serial cfg))) of
             Some e \<Rightarrow> Inl (OpenSerial e)
           | None \<Rightarrow>
               (case build_sinks (cf_Sinks cfg) of
                  Inl e \<Rightarrow> Inl (WireError e)
                | Inr ss \<Rightarrow> Inr
                    \<lparr>ap_log = newLogger (LogLevel cfg), ap_driver = new_driver 64, ap_sinks = ss,
                     ap_sink_timeout = multi_timeout (500 * millisecond),
                     ap_metrics = (if cm_Enabled (cs_Prometheus (cf_Sinks cfg)) then Some NewMetrics else None),
                     ap_manager = NewManager (broute_config_of (cf_BRoute cfg)),
                     ap_client = NewClient, ap_client_timeout = EchonetTimeout (cf_Poll cfg),
                     ap_collector = NewCollector (poll_config_of (cf_Poll cfg))\<rparr>)))"

text \<open>The hooks; without a Prometheus sink there are no metrics and they do nothing.\<close>

datatype hook_call =
    OnReconnect | OnAuthFailure | OnStateChange State | OnSinkError string | OnInfluxError
  | OnGetError | OnGetSuccess instant

definition run_hook :: "hook_call \<Rightarrow> metrics \<Rightarrow> metrics" where
  "run_hook h m =
     (case h of
        OnReconnect \<Rightarrow> m\<lparr>Reconnects := Suc (Reconnects m)\<rparr>
      | OnAuthFailure \<Rightarrow> m\<lparr>PANAAuthFailures := Suc (PANAAuthFailures m)\<rparr>
      | OnStateChange s \<Rightarrow> SetState (int (state_code s)) m
      | OnSinkError n \<Rightarrow> m\<lparr>SinkWriteErrors := (SinkWriteErrors m)(n := Suc (SinkWriteErrors m n))\<rparr>
      | OnInfluxError \<Rightarrow>
          m\<lparr>SinkWriteErrors := (SinkWriteErrors m)(''influxdb'' := Suc (SinkWriteErrors m ''influxdb''))\<rparr>
      | OnGetError \<Rightarrow> m\<lparr>GetErrors := (GetErrors m)(''batch'' := Suc (GetErrors m ''batch''))\<rparr>
      | OnGetSuccess now \<Rightarrow> MarkResponse now m)"

section \<open>From start to shutdown\<close>

text \<open>
  Three goroutines run until the context is cancelled or they fail; each sends its result to
  a channel of capacity 3. A watcher cancels the context when the driver is done. \<open>run\<close> waits
  for the first result, cancels, waits for two more results or for three seconds, and then
  closes the sinks.
\<close>

datatype loop = L_Manager | L_Client | L_Collector

datatype main_phase = M_Waiting | M_Draining nat | M_SinksClosed

record run_state =
  ctx_cancelled :: bool
  driver_done :: bool
  running :: "loop set"
  results :: nat
  drain_expired :: bool
  main_at :: main_phase

definition run_state_start :: run_state where
  "run_state_start = \<lparr>ctx_cancelled = False, driver_done = False,
     running = {L_Manager, L_Client, L_Collector}, results = 0, drain_expired = False, main_at = M_Waiting\<rparr>"

definition loop_exit :: "loop \<Rightarrow> run_state \<Rightarrow> run_state" where
  "loop_exit l r = r\<lparr>running := running r - {l}, results := Suc (results r)\<rparr>"

definition first_result :: "run_state \<Rightarrow> run_state" where
  "first_result r = r\<lparr>results := results r - 1, ctx_cancelled := True, main_at := M_Draining 2\<rparr>"

definition drain_result :: "nat \<Rightarrow> run_state \<Rightarrow> run_state" where
  "drain_result n r = r\<lparr>results := results r - 1, main_at := M_Draining n\<rparr>"

inductive run_step :: "run_state \<Rightarrow> run_state \<Rightarrow> bool" where
  r_signal: "run_step r (r\<lparr>ctx_cancelled := True\<rparr>)"
| r_driver: "run_step r (r\<lparr>driver_done := True\<rparr>)"
| r_watcher: "driver_done r \<Longrightarrow> run_step r (r\<lparr>ctx_cancelled := True\<rparr>)"
| r_exit: "l \<in> running r \<Longrightarrow> run_step r (loop_exit l r)"
| r_first: "main_at r = M_Waiting \<Longrightarrow> 0 < results r \<Longrightarrow> run_step r (first_result r)"
| r_drain: "main_at r = M_Draining (Suc n) \<Longrightarrow> 0 < results r \<Longrightarrow> run_step r (drain_result n r)"
| r_expire: "main_at r = M_Draining n \<Longrightarrow> run_step r (r\<lparr>drain_expired := True\<rparr>)"
| r_give_up: "main_at r = M_Draining (Suc n) \<Longrightarrow> drain_expired r \<Longrightarrow> run_step r (r\<lparr>main_at := M_Draining n\<rparr>)"
| r_close: "main_at r = M_Draining 0 \<Longrightarrow> run_step r (r\<lparr>main_at := M_SinksClosed\<rparr>)"

section \<open>Wiring\<close>

lemma Validate_parts:
  assumes "Validate c = None"
  shows "validate_influx (cs_InfluxDB (cf_Sinks c)) = None"
    and "cm_Enabled (cs_Prometheus (cf_Sinks c)) \<Longrightarrow> cm_Listen (cs_Prometheus (cf_Sinks c)) \<noteq> []"
  using assms by (auto simp: Validate_def split: if_splits option.splits)

lemma Validate_poll [simp]: "Validate (c\<lparr>cf_Poll := p\<rparr>) = Validate c"
  by (cases c) (simp only: Validate_def config.simps)

lemma wire_downsampler_valid:
  "validate_downsample c = None \<Longrightarrow> \<exists>s. wire_downsampler c i = Inr s"
  by (auto simp: validate_downsample_def wire_downsampler_def NewDownsampler_def agg_of_string_def Let_def
      split: if_splits)

lemma wire_influx_valid:
  assumes "validate_influx c = None"
  shows "\<exists>ss. wire_influx c = Inr ss \<and> length ss = of_bool (ci_Enabled c)"
proof (cases "ci_Enabled c")
  case True
  then obtain i where "NewInfluxDB
      \<lparr>ix_URL = ci_URL c, ix_Token = ci_Token c, ix_Org = ci_Org c, ix_Bucket = ci_Bucket c,
       ix_Measurement = ci_Measurement c, ix_BatchSize = ci_BatchSize c,
       ix_FlushInterval = ci_FlushInterval c\<rparr> = Inr i"
    using assms by (auto simp: validate_influx_def NewInfluxDB_def split: if_splits)
  moreover obtain s where "wire_downsampler (ci_Downsample c) i = Inr s"
    using assms True wire_downsampler_valid [of "ci_Downsample c" i]
    by (auto simp: validate_influx_def split: if_splits)
  ultimately show ?thesis using True by (simp add: wire_influx_def)
qed (simp add: wire_influx_def)

section \<open>Properties\<close>

text \<open>
  Validation is enough for the wiring: with a configuration \<open>Validate\<close> accepts, building
  the sinks never fails except when none is enabled, and gives one sink per enabled output.
\<close>

theorem validated_wiring:
  assumes "Validate c = None"
  shows "\<exists>ss. build_sinks (cf_Sinks c) = (if ss = [] then Inl NoSinks else Inr ss)
    \<and> length ss = of_bool (cm_Enabled (cs_Prometheus (cf_Sinks c))) + of_bool (StdoutEnabled (cf_Sinks c))
        + of_bool (ci_Enabled (cs_InfluxDB (cf_Sinks c)))"
proof -
  obtain fs where influx: "wire_influx (cs_InfluxDB (cf_Sinks c)) = Inr fs"
    "length fs = of_bool (ci_Enabled (cs_InfluxDB (cf_Sinks c)))"
    using wire_influx_valid [OF Validate_parts(1) [OF assms]] by blast
  obtain ps where prom: "wire_prometheus (cs_Prometheus (cf_Sinks c)) = Inr ps"
    "length ps = of_bool (cm_Enabled (cs_Prometheus (cf_Sinks c)))"
    using Validate_parts(2) [OF assms]
    by (cases "cm_Enabled (cs_Prometheus (cf_Sinks c))") (auto simp: wire_prometheus_def NewPrometheus_def)
  show ?thesis
    using influx prom
    by (intro exI [of _ "ps @ (if StdoutEnabled (cf_Sinks c) then [W_Stdout] else []) @ fs"])
      (simp add: build_sinks_def Let_def)
qed

text \<open>A configuration with everything enabled.\<close>

definition demo_cfg :: config where
  "demo_cfg = default_config
     \<lparr>cf_BRoute := (cf_BRoute default_config)\<lparr>cb_ID := replicate 32 (CHR ''0''), cb_Password := replicate 12 (CHR ''p'')\<rparr>,
      cf_Sinks :=
        \<lparr>StdoutEnabled = True,
         cs_InfluxDB = (cs_InfluxDB (cf_Sinks default_config))
           \<lparr>ci_Enabled := True, ci_URL := ''http://db'', ci_Org := ''home'', ci_Bucket := ''meter'',
            ci_Downsample := \<lparr>cd_Window = minute, cd_Aggregation = []\<rparr>\<rparr>,
         cs_Prometheus = \<lparr>cm_Enabled = True, cm_Listen = '':9101''\<rparr>\<rparr>\<rparr>"

lemma demo_cfg_valid: "Validate demo_cfg = None"
  by (simp add: Validate_def demo_cfg_def default_config_def validate_influx_def validate_downsample_def
      minute_def second_def)

theorem validated_wiring_witness: "\<exists>ss. build_sinks (cf_Sinks demo_cfg) = Inr ss \<and> length ss = 3"
  using validated_wiring [OF demo_cfg_valid] by (auto simp: demo_cfg_def)

text \<open>
  Validation does not cover the polling intervals: a configuration it accepts, with an
  interval below zero, makes the collector's \<open>Run\<close> panic in \<open>time.NewTicker\<close>.
\<close>

theorem negative_interval_panics:
  "\<exists>c. Validate c = None \<and>
     run_start (NewCollector (poll_config_of (cf_Poll c))) = Inl (NonPositiveTicker (- 1))"
proof (intro exI conjI)
  let ?c = "demo_cfg\<lparr>cf_Poll := (cf_Poll demo_cfg)\<lparr>cp_InstantInterval := - 1\<rparr>\<rparr>"
  show "Validate ?c = None" by (simp add: demo_cfg_valid)
  show "run_start (NewCollector (poll_config_of (cf_Poll ?c))) = Inl (NonPositiveTicker (- 1))"
    by (simp add: run_start_def NewCollector_def poll_defaults_def poll_config_of_def new_ticker_def Let_def)
qed

text \<open>
  The wired downsampler forwards the last reading of the two cumulative counters,
  whatever aggregation is configured, but treats every other series with the configured
  one, the half-hourly energy readings included.
\<close>

theorem wired_counters:
  assumes "build_sinks c = Inr ss" "W_Downsampled d i \<in> set ss"
  shows "agg_for d ''smartmeter_energy_forward_kwh'' = AggLast
    \<and> agg_for d ''smartmeter_energy_reverse_kwh'' = AggLast
    \<and> agg_for d ''smartmeter_energy_forward_scheduled_kwh'' = agg d
    \<and> agg_for d ''smartmeter_energy_reverse_scheduled_kwh'' = agg d"
proof -
  have "counters d = set counter_names"
    using assms
    by (auto simp: build_sinks_def wire_prometheus_def wire_influx_def wire_downsampler_def NewDownsampler_def
        Let_def split: sum.splits if_splits option.splits)
  then show ?thesis by (simp add: agg_for_def counter_names_def)
qed

definition demo_downsampler :: downsampler where
  "demo_downsampler = \<lparr>window = minute, agg = AggMean, counters = set counter_names, idleFlush = minute,
     bufs = Map.empty, emitted = []\<rparr>"

lemma demo_wired:
  "\<exists>ss i. build_sinks (cf_Sinks demo_cfg) = Inr ss \<and> W_Downsampled demo_downsampler i \<in> set ss"
  by (simp add: build_sinks_def demo_cfg_def default_config_def wire_prometheus_def wire_influx_def
      wire_downsampler_def NewDownsampler_def NewInfluxDB_def NewPrometheus_def agg_of_string_def
      demo_downsampler_def minute_def second_def Let_def)

theorem wired_counters_witness:
  "agg_for demo_downsampler ''smartmeter_energy_forward_scheduled_kwh'' = AggMean"
proof -
  obtain ss i where "build_sinks (cf_Sinks demo_cfg) = Inr ss" "W_Downsampled demo_downsampler i \<in> set ss"
    using demo_wired by blast
  from wired_counters [OF this] show ?thesis by (simp add: demo_downsampler_def)
qed

section \<open>Shutdown\<close>

definition run_init :: "run_state \<Rightarrow> bool" where
  "run_init r \<longleftrightarrow> r = run_state_start"

definition run_inv :: "run_state \<Rightarrow> bool" where
  "run_inv r \<longleftrightarrow>
     (case main_at r of
        M_Waiting \<Rightarrow> results r + card (running r) = 3
      | M_Draining n \<Rightarrow> ctx_cancelled r \<and> (\<not> drain_expired r \<longrightarrow> results r + card (running r) = n)
      | M_SinksClosed \<Rightarrow> ctx_cancelled r \<and> (\<not> drain_expired r \<longrightarrow> running r = {}))"

lemma finite_loops: "finite (ls :: loop set)"
proof (rule finite_subset)
  show "ls \<subseteq> {L_Manager, L_Client, L_Collector}" using loop.exhaust by auto
qed simp

lemma card_exit: "l \<in> ls \<Longrightarrow> Suc (card (ls - {l :: loop})) = card ls"
  by (rule card_Suc_Diff1 [OF finite_loops])

lemma run_step_inv: "run_step r s \<Longrightarrow> run_inv r \<Longrightarrow> run_inv s"
proof (induction rule: run_step.induct)
  case (r_exit l r)
  then show ?case using card_exit [of l "running r"]
    by (auto simp: run_inv_def loop_exit_def split: main_phase.splits)
next
  case (r_close r)
  then show ?case using finite_loops [of "running r"] by (auto simp: run_inv_def)
qed (auto simp: run_inv_def first_result_def drain_result_def split: main_phase.splits)

lemma run_start_inv: "run_init r \<Longrightarrow> run_inv r"
  by (simp add: run_init_def run_state_start_def run_inv_def)

interpretation daemon: step_system run_init run_step run_inv
  by unfold_locales (auto intro: run_start_inv run_step_inv)

text \<open>
  The sinks are closed only after the context was cancelled, and only when the manager,
  the client and the collector have all returned or the three seconds of grace are over; so
  without a timeout nothing is written to a closed sink.
\<close>

theorem sinks_closed_last:
  assumes "reachable run_init run_step r" "main_at r = M_SinksClosed"
  shows "ctx_cancelled r \<and> (running r = {} \<or> drain_expired r)"
  using daemon.reachable_invar [OF assms(1)] assms(2) by (auto simp: run_inv_def)

text \<open>A shutdown: the driver dies, the loops return, their results are received.\<close>

definition demo_shutdown :: run_state where
  "demo_shutdown = \<lparr>ctx_cancelled = True, driver_done = True, running = {}, results = 0,
     drain_expired = False, main_at = M_SinksClosed\<rparr>"

lemma demo_shutdown_reachable: "reachable run_init run_step demo_shutdown"
proof -
  note nxt = reachable.next_state [where init = run_init and step = run_step]
  note ops = run_state_start_def loop_exit_def first_result_def drain_result_def
  let ?s = "run_state_start\<lparr>driver_done := True, ctx_cancelled := True\<rparr>"
  let ?t = "loop_exit L_Collector (loop_exit L_Client (loop_exit L_Manager ?s))"
  let ?d = "drain_result 0 (drain_result 1 (first_result ?t))"
  have "reachable run_init run_step run_state_start" by (rule reachable.start) (simp add: run_init_def)
  then have "reachable run_init run_step (run_state_start\<lparr>driver_done := True\<rparr>)"
    by (rule nxt) (rule r_driver)
  then have "reachable run_init run_step ?s"
    by (rule nxt) (use r_watcher [of "run_state_start\<lparr>driver_done := True\<rparr>"] in simp)
  then have "reachable run_init run_step (loop_exit L_Manager ?s)"
    by (rule nxt) (rule r_exit, simp add: ops)
  then have "reachable run_init run_step (loop_exit L_Client (loop_exit L_Manager ?s))"
    by (rule nxt) (rule r_exit, simp add: ops)
  then have "reachable run_init run_step ?t" by (rule nxt) (rule r_exit, simp add: ops)
  then have "reachable run_init run_step (first_result ?t)" by (rule nxt) (rule r_first, simp_all add: ops)
  then have "reachable run_init run_step (drain_result 1 (first_result ?t))"
    by (rule nxt) (rule r_drain, simp_all add: ops)
  then have "reachable run_init run_step ?d" by (rule nxt) (rule r_drain, simp_all add: ops)
  then have "reachable run_init run_step (?d\<lparr>main_at := M_SinksClosed\<rparr>)"
    by (rule nxt) (rule r_close, simp add: ops)
  moreover have "?d\<lparr>main_at := M_SinksClosed\<rparr> = demo_shutdown"
    by (simp add: ops demo_shutdown_def insert_Diff_if)
  ultimately show ?thesis by simp
qed

theorem sinks_closed_last_witness: "ctx_cancelled demo_shutdown \<and> (running demo_shutdown = {} \<or> drain_expired demo_shutdown)"
  by (rule sinks_closed_last [OF demo_shutdown_reachable]) (simp add: demo_shutdown_def)

end
