(* ===== verification/App_Service.thy ===== *)
theory App_Service
  imports App_Main
begin

text \<open>
  The daemon as a service, \<open>main\<close>, \<open>sendReady\<close>, \<open>startWatchdog\<close> and the end of \<open>run\<close> in
  \<open>cmd/bp35c2-collector/main.go\<close>: what the process does first, what it tells systemd and
  when. Whether systemd is there (\<open>SdNotify\<close> and \<open>SdWatchdogEnabled\<close>, a third-party package)
  is a parameter.
\<close>

section \<open>main\<close>

datatype exit = Exit_Success | Exit_Failure run_error | Still_Running app

text \<open>With \<open>-version\<close> nothing is set up; an error of the setup ends the process with status 1.\<close>

definition main_run ::
    "bool \<Rightarrow> (string \<Rightarrow> cfg_error + config) \<Rightarrow> (string \<Rightarrow> serial_mode \<Rightarrow> string option) \<Rightarrow> string \<Rightarrow> exit" where
  "main_run showVersion load open_serial cfgPath =
     (if showVersion then Exit_Success
      else (case run_setup load open_serial cfgPath of Inl e \<Rightarrow> Exit_Failure e | Inr a \<Rightarrow> Still_Running a))"

section \<open>Notifications\<close>

datatype sd_state = SdReady | SdWatchdog | SdStopping

text \<open>
  \<open>sv_ticker\<close> is the period of the watchdog goroutine's ticker while the goroutine runs,
  \<open>sv_notified\<close> what was sent to systemd, \<open>sv_returned\<close> that \<open>run\<close> has returned.
\<close>

record service =
  sv_run :: run_state
  sv_ticker :: "duration option"
  sv_notified :: "sd_state list"
  sv_returned :: bool

definition sendReady :: "service \<Rightarrow> service" where
  "sendReady s = s\<lparr>sv_notified := sv_notified s @ [SdReady]\<rparr>"

text \<open>\<open>interval\<close> is what \<open>SdWatchdogEnabled\<close> returns, 0 without a watchdog.\<close>

definition startWatchdog :: "duration \<Rightarrow> service \<Rightarrow> run_panic + service" where
  "startWatchdog interval s =
     (if interval = 0 then Inr s
      else (case new_ticker (interval div 2) of
              Some p \<Rightarrow> Inl p
            | None \<Rightarrow> Inr (s\<lparr>sv_ticker := Some (interval div 2)\<rparr>)))"

text \<open>\<open>case <-t.C\<close> and \<open>case <-wdCtx.Done()\<close> of the goroutine.\<close>

definition watchdog_tick :: "service \<Rightarrow> service" where
  "watchdog_tick s = s\<lparr>sv_notified := sv_notified s @ [SdWatchdog]\<rparr>"

definition watchdog_end :: "service \<Rightarrow> service" where
  "watchdog_end s = s\<lparr>sv_ticker := None\<rparr>"

definition run_return :: "service \<Rightarrow> service" where
  "run_return s = s\<lparr>sv_notified := sv_notified s @ [SdStopping], sv_returned := True\<rparr>"

definition service_new :: service where
  "service_new = \<lparr>sv_run = run_state_start, sv_ticker = None, sv_notified = [], sv_returned = False\<rparr>"

inductive service_step :: "service \<Rightarrow> service \<Rightarrow> bool" where
  sv_main: "run_step (sv_run s) r \<Longrightarrow> \<not> sv_returned s \<Longrightarrow> service_step s (s\<lparr>sv_run := r\<rparr>)"
| sv_tick: "sv_ticker s \<noteq> None \<Longrightarrow> \<not> sv_returned s \<Longrightarrow> service_step s (watchdog_tick s)"
| sv_done: "sv_ticker s \<noteq> None \<Longrightarrow> ctx_cancelled (sv_run s) \<Longrightarrow> service_step s (watchdog_end s)"
| sv_return: "main_at (sv_run s) = M_SinksClosed \<Longrightarrow> \<not> sv_returned s \<Longrightarrow> service_step s (run_return s)"

definition service_init :: "service \<Rightarrow> bool" where
  "service_init s \<longleftrightarrow> (\<exists>interval. startWatchdog interval (sendReady service_new) = Inr s)"

section \<open>What systemd is told\<close>

definition service_inv :: "service \<Rightarrow> bool" where
  "service_inv s \<longleftrightarrow>
     run_inv (sv_run s) \<and>
     (\<exists>k. sv_notified s = SdReady # replicate k SdWatchdog @ (if sv_returned s then [SdStopping] else [])) \<and>
     (sv_returned s \<longrightarrow> main_at (sv_run s) = M_SinksClosed)"

lemma service_start_inv: "service_init s \<Longrightarrow> service_inv s"
  using run_start_inv [of run_state_start]
  by (auto simp: service_init_def startWatchdog_def sendReady_def service_new_def service_inv_def run_init_def
      split: if_splits option.splits intro: exI [of _ 0])

lemma watchdog_more: "replicate k SdWatchdog @ [SdWatchdog] = replicate (Suc k) SdWatchdog"
  by (induction k) simp_all

lemma service_step_inv: "service_step s t \<Longrightarrow> service_inv s \<Longrightarrow> service_inv t"
proof (induction rule: service_step.induct)
  case (sv_tick s)
  then obtain k where "sv_notified s = SdReady # replicate k SdWatchdog" by (auto simp: service_inv_def)
  then have "sv_notified (watchdog_tick s) = SdReady # replicate (Suc k) SdWatchdog"
    by (simp add: watchdog_tick_def watchdog_more)
  moreover have "sv_run (watchdog_tick s) = sv_run s" "sv_returned (watchdog_tick s) = sv_returned s"
    by (simp_all add: watchdog_tick_def)
  ultimately show ?case
    using sv_tick unfolding service_inv_def by (intro conjI exI [of _ "Suc k"]) (simp_all del: replicate_Suc)
qed (auto simp: service_inv_def run_return_def watchdog_end_def run_step_inv)

interpretation service: step_system service_init service_step service_inv
  by unfold_locales (auto intro: service_start_inv service_step_inv)

text \<open>
  The watchdog goroutine waits for its ticker alone: any number of keep-alives can follow with
  no step of any other goroutine.
\<close>

lemma watchdog_blind:
  assumes "reachable service_init service_step s" "sv_ticker s \<noteq> None" "\<not> sv_returned s"
  shows "\<exists>t. service_step\<^sup>*\<^sup>* s t \<and> sv_run t = sv_run s \<and> sv_ticker t \<noteq> None \<and>
    sv_notified t = sv_notified s @ replicate n SdWatchdog"
proof (induction n)
  case 0
  then show ?case using assms(2) by auto
next
  case (Suc n)
  then obtain t where t: "service_step\<^sup>*\<^sup>* s t" "sv_run t = sv_run s" "sv_ticker t \<noteq> None"
      "sv_notified t = sv_notified s @ replicate n SdWatchdog" by blast
  obtain k where k: "sv_notified s = SdReady # replicate k SdWatchdog"
    using service.reachable_invar [OF assms(1)] assms(3) by (auto simp: service_inv_def)
  have "\<not> sv_returned t"
  proof
    assume "sv_returned t"
    moreover have "service_inv t"
      by (rule service.reachable_invar [OF reachable_steps [OF assms(1) t(1)]])
    ultimately have "SdStopping \<in> set (sv_notified t)" by (auto simp: service_inv_def)
    then show False by (auto simp: t(4) k)
  qed
  then have "service_step t (watchdog_tick t)" using t(3) by (intro sv_tick)
  with t show ?case
    by (intro exI [of _ "watchdog_tick t"])
      (auto simp: watchdog_tick_def replicate_append_same simp flip: replicate_Suc intro: rtranclp.rtrancl_into_rtrancl)
qed


text \<open>A service under a watchdog of 60 seconds, as the unit file asks for.\<close>

definition demo_service :: service where
  "demo_service = \<lparr>sv_run = run_state_start, sv_ticker = Some (30 * second), sv_notified = [SdReady], sv_returned = False\<rparr>"

lemma demo_service_reachable: "reachable service_init service_step demo_service"
proof (rule reachable.start)
  have "startWatchdog (60 * second) (sendReady service_new) = Inr demo_service"
    by (simp add: startWatchdog_def sendReady_def service_new_def demo_service_def new_ticker_def second_def)
  then show "service_init demo_service" by (auto simp: service_init_def)
qed


end
