(* ===== verification/Spec2Isabelle.thy ===== *)
theory Spec2Isabelle
  imports Sk_Driver_Demux Sk_Driver_Eof Sink_Downsample_Safety Sink_Json Sink_Influx
    System_Session App_Scrape App_Service
begin

text \<open>
  A verification library for \<open>bp35c2-collector\<close>, a daemon in Go that reads a Japanese smart
  meter over the Wi-SUN B-route and forwards the readings to Prometheus, InfluxDB and stdout.

  \<^bold>\<open>The program.\<close> A serial line to the BP35C2 module is owned by the driver
  (\<open>internal/bp35c2/driver.go\<close>): a reader goroutine splits it into lines, gives the response
  lines to the one pending command and everything else to an event channel. The B-route manager
  (\<open>internal/broute\<close>) drives the module through login, scan and join, keeps the session, and
  turns datagram events into a queue. The meter client (\<open>internal/meter/meter.go\<close>) numbers
  ECHONET Lite requests (\<open>internal/echonet\<close>) and matches the replies. The collector
  (\<open>internal/collector\<close>) polls on three tickers, decodes the properties
  (\<open>internal/meter/epc.go\<close>) and writes measurements to the sinks (\<open>internal/sink\<close>), of which
  the InfluxDB one may be wrapped in a downsampler. \<open>internal/config\<close>, \<open>internal/metrics\<close> and
  \<open>cmd/bp35c2-collector\<close> configure, count and wire all this.

  \<^bold>\<open>The library.\<close>
  \<^item> \<open>Bp_Prelude\<close>: bytes and big-endian words, results as sums, and the interfaces the
    components share as locales: \<open>codec\<close>s that are decoded as they were encoded, \<open>bounded_chan\<close>
    for Go channels with a drop policy, \<open>step_system\<close> for an inductive invariant of a step
    relation.
  \<^item> \<open>Go_Strings\<close>, \<open>Go_Float\<close>, \<open>Go_Time\<close>, \<open>Go_Netip\<close>, \<open>Go_Number\<close>, \<open>Go_Json\<close>: the parts of
    Go's standard library the source uses: \<open>strings\<close>, \<open>strconv\<close> and \<open>encoding/hex\<close>; IEEE
    double arithmetic with correct rounding, as integers of the smallest subnormal; \<open>time\<close>;
    IP address texts; the shortest decimal text of a double; \<open>encoding/json\<close>, with a reader.
  \<^item> \<open>Sk_Lines\<close>: \<open>scanLinesCRLF\<close> under \<open>bufio.Scanner\<close>, \<open>parseEvent\<close>, \<open>parseERXUDP\<close>,
    \<open>buildEPANDESC\<close>, \<open>redactCredential\<close>.
  \<^item> \<open>Sk_Driver\<close>: the state of \<open>Driver\<close> and each of its critical sections as a step; callers,
    reader and \<open>Close\<close> interleave in \<open>drv_step\<close>. \<open>Sk_Driver_Safety\<close> has the invariant (mutual
    exclusion, no lost result, channel safety, scrubbed log), \<open>Sk_Driver_Demux\<close> what a command
    returns among interleaved events, \<open>Sk_Driver_Eof\<close> what happens after the reader has ended.
  \<^item> \<open>Echonet_Frame\<close> and \<open>Meter_EPC\<close>: \<open>Encode\<close>, \<open>Decode\<close>, request builders; the property
    decoders with their units.
  \<^item> \<open>Broute_Addr\<close> (\<open>mac.go\<close>, \<open>udp.go\<close>), \<open>Broute_Connect\<close> (\<open>connect.go\<close>, \<open>state.go\<close>):
    addresses and datagrams; \<open>connectOnce\<close> as a function of what the module answers;
    \<open>Broute_Beacon\<close>: the beacon block, printed and read back; \<open>Broute_Join\<close>: \<open>connectOnce\<close>
    as a goroutine, one step for each command, wait and critical section, proved to have the
    same results.
  \<^item> \<open>Broute_Manager\<close>, \<open>Broute_Manager_Safety\<close>, \<open>Broute_Supervise\<close> (\<open>manager.go\<close>): supervisor,
    dispatcher and \<open>WaitConnected\<close> callers in \<open>mgr_step\<close>, with the session and signalling
    invariants, and the runs of \<open>connectOnce\<close> as sequences of these steps.
  \<^item> \<open>Meter_Client\<close> (\<open>meter.go\<close>): \<open>Get\<close>, \<open>SetC\<close> and the dispatcher in \<open>client_step\<close>.
  \<^item> \<open>Sink_Core\<close> (\<open>sink.go\<close> and the series keys), \<open>Sink_Downsample\<close> and
    \<open>Sink_Downsample_Safety\<close> (\<open>downsample.go\<close>, a refinement of groups of samples),
    \<open>Sink_Exporters\<close> and \<open>Sink_Exporters_Safety\<close> (\<open>stdout.go\<close>, \<open>influxdb.go\<close>,
    \<open>prometheus.go\<close>; the scrape through the locale \<open>series_store\<close>), \<open>Sink_Json\<close> (the text of
    stdout, read back), \<open>Sink_Influx\<close> (the goroutine that reports InfluxDB's write errors).
  \<^item> \<open>Collector_Poll\<close>, \<open>Collector_Safety\<close> (\<open>collector.go\<close>): the polling loop and the probe
    goroutine in \<open>poll_step\<close>.
  \<^item> \<open>App_Config\<close>, \<open>App_Metrics\<close>, \<open>App_Main\<close>: configuration, metrics, wiring and shutdown;
    \<open>App_Service\<close>: \<open>main\<close>, systemd's notifications and the watchdog; \<open>App_Scrape\<close>: the HTTP
    server and what a scrape of the shared registry gathers.
  \<^item> \<open>System_Stack\<close>: driver, manager and client with the channels between them as one system
    \<open>stack_step\<close>, which refines each of them; \<open>System_Daemon\<close>: the collector on top
    (\<open>daemon_step\<close>), where every measurement is traced back to a line of the serial port and a
    reply is followed up to the sinks; \<open>System_Wire\<close>: the way down (\<open>wire_step\<close>), what is
    written to the serial port; \<open>System_Events\<close>, \<open>System_Join\<close>: the supervisor's goroutine going
    through the join sequence among all of these (\<open>sup_step\<close>), whose sessions are traced back
    to the lines and commands they rest on; \<open>System_Session\<close>: whole joins of this system.
  \<^item> This theory: what holds of the data from the serial line to the sinks.

  \<^bold>\<open>Reading the models.\<close> A struct is a record with the source's field names where they do not
  clash, an error a value of a sum or option type. Concurrency is explicit: each critical section
  is a definition, and an inductive relation lets the goroutines take them in any order; the
  invariants are proved for every reachable state. Clocks, ticks, replies, write errors and the
  order of map iteration are arguments. Machine integers are words where they can wrap (bytes,
  TIDs, raw readings, backoff) and integers where they cannot. Loops are structural recursions or
  have termination proofs. Only the JSON reader, which is not part of the program, takes a
  bound on the nesting: the length of the text, and \<open>read_document_emit\<close> shows that it suffices.

  \<^bold>\<open>Not modelled.\<close> Third-party packages (serial port, YAML, the InfluxDB and Prometheus clients,
  systemd): they are parameters, or the state of a component is what it hands to them; so the
  exposition format of a scrape and InfluxDB's line protocol are not here. Pure input and
  output: log messages other than the scrubbed serial lines, flag parsing, signal delivery.
  The deadline the fan-out gives each child, which no child looks at. The end of the collector
  and client loops on a cancelled context, beyond the shutdown of \<open>App_Main\<close>. Time: a
  deadline may pass at any moment, so nothing is said of how long a wait takes. In \<open>wire_step\<close>
  the supervisor may issue any command of the join sequence while it is connecting; which one
  comes next is fixed in \<open>sup_step\<close>.

  \<^bold>\<open>Defects found.\<close> Theorems that show a defect of the code rather than a promise it keeps:
  \<open>disconnect_lost\<close>, \<open>late_answer_misattributed\<close>, \<open>unprobed_reading_unscaled\<close>,
  \<open>negative_interval_panics\<close>, \<open>dead_reader_never_answers\<close>, the last part of
  \<open>notifications_ordered\<close>, \<open>listen_failure_silent\<close>.
\<close>

section \<open>From the serial line to the sinks\<close>

text \<open>The meter's reply to an instantaneous poll: power and currents.\<close>

definition power_reply :: "u16 \<Rightarrow> u32 \<Rightarrow> u16 \<Rightarrow> u16 \<Rightarrow> frame" where
  "power_reply tid w r t =
     \<lparr>TID = tid, SEOJ = EOJSmartMeter, DEOJ = EOJController, ESV = ESVGetRes,
      Props = [\<lparr>EPC = EPCInstantPower, EDT = put_be32 w\<rparr>,
               \<lparr>EPC = EPCInstantCurrent, EDT = put_be16 r @ put_be16 t\<rparr>]\<rparr>"

lemma power_reply_wf: "wf_frame (power_reply tid w r t)"
  by (simp add: wf_frame_def wf_prop_def power_reply_def)

text \<open>
  C15: From the wire to the sinks nothing is lost or altered: the line the module prints for
  a meter's reply is parsed into a datagram from the meter's address, whose payload decodes
  to the reply with its transaction ID, from which the collector hands over the power in
  watts exactly and each current as the nearest tenth of an ampere.
\<close>

theorem wire_to_sink:
  assumes "length ip = 16" "length ws = 5" "list_all (\<lambda>w. ascii_text w \<and> w \<noteq> []) (dst # ws)"
  shows "\<exists>inc f. parseIncoming now (parseERXUDP (join_words (''ERXUDP'' # fmt_groups ip # dst #
        fmt_hex 4 (unat sport) # ws @ [hex_encode (encode (power_reply tid w r t))]))) = Some inc
    \<and> SrcIP inc = ip \<and> SrcPort inc = sport
    \<and> decode (Payload inc) = Inr f \<and> TID f = tid \<and> \<not> is_sna (ESV f)
    \<and> written (collectInstant now f c) = written c @
        [gauge now ''smartmeter_power_instant_w'' (f_of_int (sint w)) ''W'' [],
         gauge now ''smartmeter_current_instant_a'' (f_lit (sint r) 10) ''A'' [(''phase'', ''r'')]] @
        (if t = 0x7FFE then []
         else [gauge now ''smartmeter_current_instant_a'' (f_lit (sint t) 10) ''A'' [(''phase'', ''t'')]])"
proof -
  let ?f = "power_reply tid w r t"
  have "encode ?f \<noteq> []" by (simp add: encode_def)
  then have "parseIncoming now (parseERXUDP (join_words (''ERXUDP'' # fmt_groups ip # dst #
        fmt_hex 4 (unat sport) # ws @ [hex_encode (encode ?f)]))) =
      Some \<lparr>SrcIP = ip, SrcPort = sport, Payload = encode ?f, ReceivedAt = now\<rparr>"
    using assms by (intro incoming_roundtrip)
  moreover have "decode (encode ?f) = Inr ?f"
    using echonet.dec_Some_iff [of "encode ?f" ?f] power_reply_wf by auto
  moreover have "\<not> is_sna (ESV ?f)" by (simp add: power_reply_def is_sna_def ESVGetRes_def)
  moreover have "written (collectInstant now ?f c) = written c @
        [gauge now ''smartmeter_power_instant_w'' (f_of_int (sint w)) ''W'' [],
         gauge now ''smartmeter_current_instant_a'' (f_lit (sint r) 10) ''A'' [(''phase'', ''r'')]] @
        (if t = 0x7FFE then []
         else [gauge now ''smartmeter_current_instant_a'' (f_lit (sint t) 10) ''A'' [(''phase'', ''t'')]])"
    by (simp add: collect_written power_reply_def emitInstant_def epc_codes decode_tenths)
  ultimately show ?thesis by (simp add: power_reply_def)
qed

theorem wire_to_sink_witness:
  "\<exists>inc f. parseIncoming 7 (parseERXUDP (join_words (''ERXUDP'' # fmt_groups (replicate 16 1) # ''FE80'' #
        fmt_hex 4 (unat (3610 :: u16)) # [''0E1A'', ''A'', ''1'', ''0'', ''2''] @
        [hex_encode (encode (power_reply 2 523 52 0x7FFE))]))) = Some inc
    \<and> decode (Payload inc) = Inr f
    \<and> map Value (written (collectInstant 7 f fresh_collector)) = [f_of_int 523, f_lit 52 10]"
  using wire_to_sink [of "replicate 16 1" "[''0E1A'', ''A'', ''1'', ''0'', ''2'']" "''FE80''" 7 3610 2 523 52 "0x7FFE"
      fresh_collector]
  by (auto simp: ascii_text_def gauge_def fresh_collector_def NewCollector_def)

text \<open>The collector's names, units and tags are ASCII.\<close>

definition ascii_string :: "string \<Rightarrow> bool" where
  "ascii_string s \<longleftrightarrow> list_all (\<lambda>c. (of_char c :: nat) < 0x80) s"

lemma catalogue_ascii:
  "list_all (\<lambda>(n, u, ts). n \<noteq> [] \<and> ascii_string n \<and> ascii_string u \<and>
     list_all (\<lambda>(k, v). ascii_string k \<and> ascii_string v) ts) catalogue"
  by (simp add: catalogue_def ascii_string_def)

lemma listed_utf8: "listed m \<Longrightarrow> utf8_texts m \<and> Name m \<noteq> [] \<and> proper_float (Value m)"
  using catalogue_ascii
  by (fastforce simp: listed_def utf8_texts_def list_all_iff ascii_string_def intro!: to_utf8_ascii)

text \<open>
  C30: Every output takes what the collector writes, and a reader of stdout gets it back: in
  every reachable state, each measurement handed over is accepted by the JSON encoder and
  the InfluxDB writer whatever they have written before, and its JSON line is read as its
  name, unit and exactly its value.
\<close>

theorem collected_accepted:
  assumes "reachable started (poll_step z) c" "m \<in> set (written c)"
  shows "fst (stdout_write m out) = None \<and> fst (influx_write m i) = None \<and>
    (\<exists>r. read_json_line (stdout_line (stdout_rec m)) = Some r \<and> js_metric r = Name m \<and>
       js_value r = Value m \<and> js_unit r = Unit m)"
proof -
  have "listed m" using coll.reachable_invar [OF assms(1)] assms(2) by (auto simp: collector_inv_def list_all_iff)
  then have m: "utf8_texts m" "Name m \<noteq> []" "proper_float (Value m)" using listed_utf8 by auto
  then have "fst (stdout_write m out) = None" "fst (influx_write m i) = None"
    by (auto simp: stdout_write_def influx_write_def proper_float_def finite_float_def split: float64.splits)
  then show ?thesis using stdout_json_read [OF m(1,3)] by blast
qed

text \<open>A poll answered with the power.\<close>

lemma power_written:
  "reachable started (poll_step z) (collect_reply z 5 PollInstant (power_reply 2 523 52 48) first_asked)"
  by (rule reachable.next_state [OF first_asked_reachable pl_reply])
    (simp add: first_asked_def fresh_collector_def poll_ops)

theorem collected_accepted_witness:
  "fst (stdout_write (gauge 5 ''smartmeter_power_instant_w'' (f_of_int 523) ''W'' []) []) = None"
proof -
  have "gauge 5 ''smartmeter_power_instant_w'' (f_of_int 523) ''W'' []
      \<in> set (written (collect_reply (fixed_zone 0) 5 PollInstant (power_reply 2 523 52 48) first_asked))"
    by (simp add: collect_reply_def collect_written power_reply_def emitInstant_def epc_codes)
  from collected_accepted [OF power_written this] show ?thesis by blast
qed

section \<open>Counters through the downsampler\<close>

text \<open>The readings of a cumulative counter as the collector writes them.\<close>

definition counter_readings :: "string \<Rightarrow> u32 \<Rightarrow> byte \<Rightarrow> (instant \<times> u32) list \<Rightarrow> measurement list" where
  "counter_readings name k u rs = concat (map (\<lambda>(t, raw). emit_kwh t name raw k u) rs)"

lemma counter_readings_name: "m \<in> set (counter_readings name k u rs) \<Longrightarrow> Name m = name"
  by (auto simp: counter_readings_def emit_kwh_def gauge_def split: sum.splits)

lemma counter_readings_sorted:
  "sorted (map snd rs) \<Longrightarrow> sorted_wrt (\<lambda>m m'. f_le (Value m) (Value m')) (counter_readings name k u rs)"
proof (induction rs)
  case Nil
  then show ?case by (simp add: counter_readings_def)
next
  case (Cons r rs)
  obtain t raw where r: "r = (t, raw)" by (cases r)
  have later: "f_le v (Value m)" if "CumulativeKWh raw k u = Inr v" "m \<in> set (counter_readings name k u rs)" for v m
  proof -
    note prem = that
    obtain t' raw' where rd: "(t', raw') \<in> set rs" "m \<in> set (emit_kwh t' name raw' k u)"
      using prem(2) by (auto simp: counter_readings_def)
    then obtain v' where m: "CumulativeKWh raw' k u = Inr v'" "Value m = v'"
      by (cases "CumulativeKWh raw' k u") (auto simp: emit_kwh_def gauge_def)
    have "raw \<le> raw'" using Cons.prems rd(1) by (auto simp: r)
    with m prem(1) show ?thesis by (auto intro: CumulativeKWh_mono_lemma)
  qed
  have "counter_readings name k u (r # rs) = emit_kwh t name raw k u @ counter_readings name k u rs"
    by (simp add: counter_readings_def r)
  moreover have "sorted_wrt (\<lambda>m m'. f_le (Value m) (Value m')) (counter_readings name k u rs)"
    using Cons by simp
  ultimately show ?case using later by (auto simp: emit_kwh_def gauge_def split: sum.split)
qed


text \<open>Two readings of a counter, in two windows of a downsampler for means.\<close>

definition meter_config :: ds_config where
  "meter_config = \<lparr>ds_Window = minute, ds_Aggregation = ''mean'', ds_CounterNames = counter_names, ds_IdleFlush = 0\<rparr>"

definition meter_reading :: "int \<Rightarrow> u32 \<Rightarrow> measurement" where
  "meter_reading t raw = hd (emit_kwh (t * second) ''smartmeter_energy_forward_kwh'' raw 1 0x01)"

definition meter_end :: downsampler where
  "meter_end = ds_write (70 * second) (meter_reading 70 12346)
     (ds_write (10 * second) (meter_reading 10 12345) demo_downsampler)"

lemma meter_reading_eval:
  "emit_kwh (t * second) ''smartmeter_energy_forward_kwh'' raw 1 0x01 = [meter_reading t raw]"
  "Name (meter_reading t raw) = ''smartmeter_energy_forward_kwh''" "Tags (meter_reading t raw) = []"
  "Timestamp (meter_reading t raw) = t * second"
  by (simp_all add: meter_reading_def emit_kwh_def CumulativeKWh_eq UnitKWh_def gauge_def)

lemma second_nonzero: "second \<noteq> 0" by (simp add: second_def)

lemma meter_new: "NewDownsampler meter_config = Inr demo_downsampler"
  by (simp add: NewDownsampler_def meter_config_def demo_downsampler_def agg_of_string_def minute_def second_def)

lemma meter_exec:
  "ds_exec demo_downsampler [DsWrite (10 * second) (meter_reading 10 12345),
     DsWrite (70 * second) (meter_reading 70 12346)] meter_end"
  using ds_wrote [OF ds_wrote [OF ds_start [of demo_downsampler], of "10 * second" "meter_reading 10 12345"],
      of "70 * second" "meter_reading 70 12346"]
  by (simp add: meter_end_def)

lemma forward_key: "seriesKey ''smartmeter_energy_forward_kwh'' [] = ''smartmeter_energy_forward_kwh''"
  by (simp add: seriesKey_def)

lemma meter_order: "legal_order [seriesKey ''smartmeter_energy_forward_kwh'' []] meter_end"
  by (simp add: legal_order_def meter_end_def demo_downsampler_def ds_write_def Let_def stamp_def is_zero_time_def
      meter_reading_eval forward_key write_record_def write_roll_def emit_window_def add_sample_def new_buf_def
      truncate_time_def minute_def second_def)


end
